(* ===== verification/Prelude.thy ===== *)
theory Prelude
  imports Main "HOL-Library.Word"
begin

text \<open>
  Shared ground of the development: the ways a C++ operation of PTRacer can go wrong
  (\<open>fault\<close>), the sequencing of operations that can fault (\<open>bind_r\<close>, \<open>assert_r\<close>), the
  standard-library containers the source uses with their real failure behaviour
  (\<open>std::map::insert\<close>, \<open>std::map::at\<close>, \<open>std::stack::top\<close>, \<open>std::stack::pop\<close>), decimal
  printing of unsigned numbers as \<open>operator<<\<close> does it, and the lemma collections the
  component theories extend.
\<close>

named_theorems result_simps \<open>equations for sequencing operations that can fault\<close>
named_theorems graph_simps \<open>field equations of the task graph operations\<close>
named_theorems shape_intros \<open>facts that a graph operation keeps the allocated nodes\<close>

section \<open>Faults and sequencing\<close>

text \<open>
  What the C++ code runs into instead of returning: a null pointer read, an index outside a
  fixed array (\<open>tgraph_nodes\<close>, or one of the arrays of \<open>NUM_THREADS\<close> stacks), \<open>top\<close> or
  \<open>pop\<close> of an empty \<open>std::stack\<close>, a failed \<open>assert\<close>, \<open>std::out_of_range\<close> thrown by
  \<open>std::map::at\<close>, a shift by 64 or more, a loop that never returns, and the use of raw
  storage that holds no constructed object.
\<close>

datatype fault =
    NullDeref
  | OutOfBounds
  | EmptyStack
  | AssertFail
  | KeyMissing
  | ShiftTooFar
  | Diverges
  | DeadObject

type_synonym 'a result = "fault + 'a"

definition bind_r :: "'a result \<Rightarrow> ('a \<Rightarrow> 'b result) \<Rightarrow> 'b result" where
  "bind_r m f = (case m of Inl e \<Rightarrow> Inl e | Inr x \<Rightarrow> f x)"

definition assert_r :: "bool \<Rightarrow> fault \<Rightarrow> 'a result \<Rightarrow> 'a result" where
  "assert_r b e m = (if b then m else Inl e)"

lemma bind_r_simps [simp, result_simps]:
  "bind_r (Inr x) f = f x" "bind_r (Inl e) f = Inl e"
  by (simp_all add: bind_r_def)

lemma assert_r_simps [simp, result_simps]:
  "assert_r True e m = m" "assert_r False e m = Inl e"
  by (simp_all add: assert_r_def)

lemma bind_r_Inr_iff [result_simps]:
  "bind_r m f = Inr y \<longleftrightarrow> (\<exists>x. m = Inr x \<and> f x = Inr y)"
  by (cases m) auto

lemma assert_r_Inr_iff [result_simps]:
  "assert_r b e m = Inr y \<longleftrightarrow> b \<and> m = Inr y"
  by (cases b) auto

lemma bind_r_InrE:
  assumes "bind_r m f = Inr y"
  obtains x where "m = Inr x" and "f x = Inr y"
  using assms by (auto simp: bind_r_Inr_iff)

lemma bind_r_assoc: "bind_r (bind_r m f) g = bind_r m (\<lambda>x. bind_r (f x) g)"
  by (cases m) simp_all

lemma bind_r_if: "bind_r (if b then m else n) f = (if b then bind_r m f else bind_r n f)"
  by simp

lemma bind_r_cong [fundef_cong]:
  "m = m' \<Longrightarrow> (\<And>x. m' = Inr x \<Longrightarrow> f x = f' x) \<Longrightarrow> bind_r m f = bind_r m' f'"
  by (cases m') auto

text \<open>An option that stands for \<open>does not return\<close> (from a \<open>partial_function\<close>) as a result.\<close>

definition returns_r :: "'a option \<Rightarrow> 'a result" where
  "returns_r m = (case m of None \<Rightarrow> Inl Diverges | Some x \<Rightarrow> Inr x)"

text \<open>A dereference of a pointer, \<open>None\<close> being \<open>NULL\<close>.\<close>

definition deref_r :: "'a option \<Rightarrow> 'a result" where
  "deref_r p = (case p of None \<Rightarrow> Inl NullDeref | Some x \<Rightarrow> Inr x)"

lemma returns_r_simps [simp, result_simps]:
  "returns_r (Some x) = Inr x" "returns_r None = Inl Diverges"
  "(returns_r m = Inr x) = (m = Some x)"
  by (auto simp: returns_r_def split: option.splits)

lemma deref_r_simps [simp, result_simps]:
  "deref_r (Some x) = Inr x" "deref_r None = Inl NullDeref"
  "(deref_r p = Inr x) = (p = Some x)"
  by (auto simp: deref_r_def split: option.splits)

section \<open>Standard containers\<close>

text \<open>
  \<open>std::map::insert\<close> leaves an existing binding alone, \<open>std::map::at\<close> throws on a missing
  key, \<open>std::map::erase\<close> of a missing key does nothing.
\<close>

definition map_insert :: "('k \<rightharpoonup> 'v) \<Rightarrow> 'k \<Rightarrow> 'v \<Rightarrow> ('k \<rightharpoonup> 'v)" where
  "map_insert m k v = (case m k of None \<Rightarrow> m(k \<mapsto> v) | Some _ \<Rightarrow> m)"

definition map_at :: "('k \<rightharpoonup> 'v) \<Rightarrow> 'k \<Rightarrow> 'v result" where
  "map_at m k = (case m k of None \<Rightarrow> Inl KeyMissing | Some v \<Rightarrow> Inr v)"

definition map_erase :: "('k \<rightharpoonup> 'v) \<Rightarrow> 'k \<Rightarrow> ('k \<rightharpoonup> 'v)" where
  "map_erase m k = m(k := None)"

lemma map_insert_apply [simp]:
  "map_insert m k v k' = (if k' = k \<and> m k = None then Some v else m k')"
  by (auto simp: map_insert_def split: option.splits)

lemma map_insert_present: "m k = Some w \<Longrightarrow> map_insert m k v = m"
  by (simp add: map_insert_def)

lemma dom_map_insert [simp]: "dom (map_insert m k v) = insert k (dom m)"
  by (auto simp: map_insert_def split: option.splits)

lemma map_at_simps [simp, result_simps]:
  "m k = Some v \<Longrightarrow> map_at m k = Inr v"
  "m k = None \<Longrightarrow> map_at m k = Inl KeyMissing"
  "(map_at m k = Inr v) = (m k = Some v)"
  by (auto simp: map_at_def split: option.splits)

lemma map_erase_apply [simp]: "map_erase m k k' = (if k' = k then None else m k')"
  by (simp add: map_erase_def)

text \<open>A \<open>std::stack\<close> is a list with the top at its head.\<close>

fun stack_top :: "'a list \<Rightarrow> 'a result" where
  "stack_top [] = Inl EmptyStack"
| "stack_top (x # xs) = Inr x"

fun stack_pop :: "'a list \<Rightarrow> 'a list result" where
  "stack_pop [] = Inl EmptyStack"
| "stack_pop (x # xs) = Inr xs"

definition stack_push :: "'a \<Rightarrow> 'a list \<Rightarrow> 'a list" where
  "stack_push x xs = x # xs"

lemma stack_top_Inr [simp, result_simps]: "(stack_top xs = Inr x) = (\<exists>ys. xs = x # ys)"
  by (cases xs) auto

lemma stack_pop_Inr [simp, result_simps]: "(stack_pop xs = Inr ys) = (\<exists>x. xs = x # ys)"
  by (cases xs) auto

lemma stack_push_simps [simp]:
  "stack_top (stack_push x xs) = Inr x" "stack_pop (stack_push x xs) = Inr xs"
  "set (stack_push x xs) = insert x (set xs)" "stack_push x xs \<noteq> []"
  by (simp_all add: stack_push_def)

section \<open>Threads\<close>

text \<open>\<open>NUM_THREADS\<close> of \<open>Common.H\<close> bounds every per-thread array of the library.\<close>

definition NUM_THREADS :: nat where
  "NUM_THREADS = 64"

definition thread_slot :: "nat \<Rightarrow> 'a result \<Rightarrow> 'a result" where
  "thread_slot threadid m = assert_r (threadid < NUM_THREADS) OutOfBounds m"

lemma thread_slot_Inr [simp, result_simps]:
  "(thread_slot t m = Inr x) = (t < NUM_THREADS \<and> m = Inr x)"
  by (simp add: thread_slot_def assert_r_Inr_iff)

lemma thread_slot_in [simp]: "t < NUM_THREADS \<Longrightarrow> thread_slot t m = m"
  by (simp add: thread_slot_def)

section \<open>Decimal printing\<close>

definition digit_char :: "nat \<Rightarrow> char" where
  "digit_char d = char_of (48 + d)"

fun show_nat :: "nat \<Rightarrow> string" where
  "show_nat n = (if n < 10 then [digit_char n] else show_nat (n div 10) @ [digit_char (n mod 10)])"

declare show_nat.simps [simp del]

definition show_int :: "int \<Rightarrow> string" where
  "show_int i = (if i < 0 then CHR ''-'' # show_nat (nat (- i)) else show_nat (nat i))"

end
