(* ===== verification/Task_Nodes.thy ===== *)
theory Task_Nodes
  imports Prelude
begin

text \<open>
  The nodes of the dynamic program structure tree (\<open>AFTask.H\<close>) and the two kinds of memory
  access (\<open>Common.H\<close>).

  A \<open>struct AFTask*\<close> of the program always points into the array \<open>tgraph_nodes\<close>, or is
  \<open>NULL\<close>. It is an index into that array here (\<open>nat option\<close> where it may be \<open>NULL\<close>);
  \<open>node_addr\<close> gives the \<open>size_t\<close> the code casts it to. \<open>size_t\<close> counters are \<open>nat\<close>:
  the array holds at most 2^27 nodes, which bounds every counter kept in a node
  (\<open>Graph_Inv.counters_bounded\<close>), so none of them wraps.
\<close>

datatype NodeType = NO_TYPE | ASYNC | FINISH | STEP

datatype AccessType = READ | WRITE

record AFTask =
  taskId :: nat
  parent :: nat
  cur_step :: nat
  type :: NodeType
  depth :: nat
  seq_num :: nat
  num_children :: nat
  young_ns_child :: NodeType

text \<open>The zero-filled memory \<open>mmap\<close> hands out, read as a node.\<close>

definition zero_task :: AFTask where
  "zero_task = \<lparr>taskId = 0, parent = 0, cur_step = 0, type = NO_TYPE, depth = 0,
     seq_num = 0, num_children = 0, young_ns_child = NO_TYPE\<rparr>"

text \<open>
  The address of node \<open>i\<close>: the array starts at \<open>base\<close> and a node takes
  \<open>sizeof(struct AFTask)\<close> = 64 bytes (three words, an enum padded to a word, three words,
  an enum padded to a word).
\<close>

definition node_addr :: "nat \<Rightarrow> nat \<Rightarrow> nat" where
  "node_addr base i = base + 64 * i"

lemma node_addr_inject [simp]: "node_addr base i = node_addr base j \<longleftrightarrow> i = j"
  by (simp add: node_addr_def)

end
