(* ===== verification/Lca_Hash.thy ===== *)
theory Lca_Hash
  imports Task_Nodes
begin

text \<open>
  The memo table of the task graph (\<open>lca_hash.H\<close>, \<open>lca_hash.cpp\<close>): a direct-mapped cache
  of 16000 slots, indexed by the address of one node modulo the table size. An entry holds
  the pair of node addresses it was computed for, whether the two steps may run in parallel,
  and their least common ancestor. A table is a function from slot numbers to entries, \<open>None\<close>
  being a \<open>NULL\<close> slot.
\<close>

definition LCA_TABLE_SIZE :: nat where
  "LCA_TABLE_SIZE = 16000"

datatype ParallelStatus = NA | TRUE | FALSE

record lca_hash =
  curAddr :: nat
  remAddr :: nat
  lca_result :: bool
  lca :: "nat option"

record lca_table =
  tableSize :: nat
  lcaHashTable :: "nat \<Rightarrow> lca_hash option"

definition getHTIndex :: "lca_table \<Rightarrow> nat \<Rightarrow> nat" where
  "getHTIndex t arg = arg mod tableSize t"

definition getHTElement :: "lca_table \<Rightarrow> nat \<Rightarrow> lca_hash option" where
  "getHTElement t arg =
     (case lcaHashTable t (getHTIndex t arg) of
        None \<Rightarrow> None
      | Some e \<Rightarrow> if curAddr e = arg then Some e else None)"

definition setHTElement :: "lca_table \<Rightarrow> nat \<Rightarrow> lca_hash \<Rightarrow> lca_table" where
  "setHTElement t arg e =
     t\<lparr>lcaHashTable := (lcaHashTable t)(getHTIndex t arg := Some e)\<rparr>"

text \<open>
  \<open>createHashTable\<close> returns 0 when \<open>malloc\<close> fails and 1 otherwise; the table is then all
  \<open>NULL\<close>. \<open>malloc_ok\<close> is the allocator's answer.
\<close>

definition createHashTable :: "bool \<Rightarrow> nat \<times> lca_table option" where
  "createHashTable malloc_ok =
     (if malloc_ok then (1, Some \<lparr>tableSize = LCA_TABLE_SIZE, lcaHashTable = (\<lambda>_. None)\<rparr>)
      else (0, None))"

text \<open>
  \<open>updateEntry\<close> writes through the pointer of the entry it finds, which is the entry of that
  slot, or installs a fresh entry, evicting whatever address shared the slot.
\<close>

definition updateEntry ::
    "nat \<Rightarrow> nat \<Rightarrow> bool \<Rightarrow> nat option \<Rightarrow> lca_table \<Rightarrow> lca_table" where
  "updateEntry cur_addr rem_addr result l t =
     (case getHTElement t cur_addr of
        None \<Rightarrow> setHTElement t cur_addr
          \<lparr>curAddr = cur_addr, remAddr = rem_addr, lca_result = result, lca = l\<rparr>
      | Some e \<Rightarrow> t\<lparr>lcaHashTable := (lcaHashTable t)(getHTIndex t cur_addr :=
          Some (e\<lparr>remAddr := rem_addr, lca_result := result, lca := l\<rparr>))\<rparr>)"

definition checkParallel :: "nat \<Rightarrow> nat \<Rightarrow> lca_table \<Rightarrow> ParallelStatus" where
  "checkParallel cur_addr rem_addr t =
     (case getHTElement t cur_addr of
        Some c \<Rightarrow>
          if remAddr c = rem_addr then (if lca_result c then TRUE else FALSE)
          else (case getHTElement t rem_addr of
                  Some r \<Rightarrow> if remAddr r = cur_addr
                            then (if lca_result r then TRUE else FALSE) else NA
                | None \<Rightarrow> NA)
      | None \<Rightarrow>
          (case getHTElement t rem_addr of
             Some r \<Rightarrow> if remAddr r = cur_addr
                       then (if lca_result r then TRUE else FALSE) else NA
           | None \<Rightarrow> NA))"

definition getLCA :: "nat \<Rightarrow> nat \<Rightarrow> lca_table \<Rightarrow> nat option" where
  "getLCA cur_addr rem_addr t =
     (case getHTElement t cur_addr of
        Some c \<Rightarrow>
          if remAddr c = rem_addr then lca c
          else (case getHTElement t rem_addr of
                  Some r \<Rightarrow> if remAddr r = cur_addr then lca r else None
                | None \<Rightarrow> None)
      | None \<Rightarrow>
          (case getHTElement t rem_addr of
             Some r \<Rightarrow> if remAddr r = cur_addr then lca r else None
           | None \<Rightarrow> None))"

section \<open>What a lookup can answer\<close>

text \<open>
  \<open>cached t a b e\<close>: the table answers a query about \<open>a\<close> and \<open>b\<close> from entry \<open>e\<close>. Both
  lookups of the code read the same entry: the one of the first address if it was made for
  the second, else the one of the second address if it was made for the first.
\<close>

definition cached :: "lca_table \<Rightarrow> nat \<Rightarrow> nat \<Rightarrow> lca_hash option" where
  "cached t a b =
     (case getHTElement t a of
        Some c \<Rightarrow> if remAddr c = b then Some c
                  else (case getHTElement t b of
                          Some r \<Rightarrow> if remAddr r = a then Some r else None
                        | None \<Rightarrow> None)
      | None \<Rightarrow> (case getHTElement t b of
                   Some r \<Rightarrow> if remAddr r = a then Some r else None
                 | None \<Rightarrow> None))"

lemma checkParallel_cached:
  "checkParallel a b t =
     (case cached t a b of None \<Rightarrow> NA | Some e \<Rightarrow> if lca_result e then TRUE else FALSE)"
  by (auto simp: checkParallel_def cached_def split: option.splits)

lemma getLCA_cached:
  "getLCA a b t = (case cached t a b of None \<Rightarrow> None | Some e \<Rightarrow> lca e)"
  by (auto simp: getLCA_def cached_def split: option.splits)

lemma getHTElement_SomeD:
  "getHTElement t a = Some e \<Longrightarrow> lcaHashTable t (getHTIndex t a) = Some e \<and> curAddr e = a"
  by (auto simp: getHTElement_def split: option.splits if_splits)

lemma cached_SomeD:
  assumes "cached t a b = Some e"
  obtains k where "lcaHashTable t k = Some e"
    and "curAddr e = a \<and> remAddr e = b \<or> curAddr e = b \<and> remAddr e = a"
  using assms
  by (auto simp: cached_def split: option.splits if_splits dest!: getHTElement_SomeD)

lemma updateEntry_slot:
  "lcaHashTable (updateEntry a b r l t) k =
     (if k = getHTIndex t a
      then Some \<lparr>curAddr = a, remAddr = b, lca_result = r, lca = l\<rparr>
      else lcaHashTable t k)"
  by (auto simp: updateEntry_def setHTElement_def split: option.splits
           dest!: getHTElement_SomeD)

lemma tableSize_updateEntry [simp]: "tableSize (updateEntry a b r l t) = tableSize t"
  by (simp add: updateEntry_def setHTElement_def split: option.splits)

text \<open>The entry just written is the one a query in either order gets.\<close>

lemma cached_updateEntry:
  "cached (updateEntry a b r l t) a b =
     Some \<lparr>curAddr = a, remAddr = b, lca_result = r, lca = l\<rparr>"
  by (simp add: cached_def getHTElement_def updateEntry_slot getHTIndex_def)

section \<open>The interface of a memo table\<close>

text \<open>
  What the task graph relies on, independent of the way slots are chosen: every entry a query
  gets was stored by an update for the same pair of keys, in one order or the other. From
  that, if every value stored is right about its keys and being right does not depend on the
  order, every answer is right.
\<close>

locale memo =
  fixes entries :: "'t \<Rightarrow> ('k \<times> 'k \<times> 'v) set"
    and query :: "'t \<Rightarrow> 'k \<Rightarrow> 'k \<Rightarrow> 'v option"
    and store :: "'k \<Rightarrow> 'k \<Rightarrow> 'v \<Rightarrow> 't \<Rightarrow> 't"
  assumes query_entry:
      "query t a b = Some v \<Longrightarrow> (a, b, v) \<in> entries t \<or> (b, a, v) \<in> entries t"
    and store_entries: "entries (store a b v t) \<subseteq> insert (a, b, v) (entries t)"
begin

lemma query_right:
  assumes "entries t \<subseteq> S" and "\<And>x y w. (x, y, w) \<in> S \<Longrightarrow> (y, x, w) \<in> S"
    and "query t a b = Some v"
  shows "(a, b, v) \<in> S"
  using query_entry[OF assms(3)] assms(1,2) by auto

lemma store_right:
  assumes "entries t \<subseteq> S" and "(a, b, v) \<in> S"
  shows "entries (store a b v t) \<subseteq> S"
  using subset_trans[OF store_entries] assms by auto

lemma store_both_right:
  assumes "entries t \<subseteq> S" and "(a, b, v) \<in> S" and "(b, a, v) \<in> S"
  shows "entries (store b a v (store a b v t)) \<subseteq> S"
  using store_right[OF store_right[OF assms(1,2)] assms(3)] .

end

definition table_entries :: "lca_table \<Rightarrow> (nat \<times> nat \<times> bool \<times> nat option) set" where
  "table_entries t =
     {(curAddr e, remAddr e, lca_result e, lca e) | e. \<exists>k. lcaHashTable t k = Some e}"

definition table_query :: "lca_table \<Rightarrow> nat \<Rightarrow> nat \<Rightarrow> (bool \<times> nat option) option" where
  "table_query t a b = map_option (\<lambda>e. (lca_result e, lca e)) (cached t a b)"

definition table_store ::
    "nat \<Rightarrow> nat \<Rightarrow> bool \<times> nat option \<Rightarrow> lca_table \<Rightarrow> lca_table" where
  "table_store a b v t = updateEntry a b (fst v) (snd v) t"

interpretation lca_memo: memo table_entries table_query table_store
proof unfold_locales
  fix t a b v
  assume "table_query t a b = Some v"
  then obtain e where e: "cached t a b = Some e" and v: "v = (lca_result e, lca e)"
    by (auto simp: table_query_def)
  from e show "(a, b, v) \<in> table_entries t \<or> (b, a, v) \<in> table_entries t"
    by (rule cached_SomeD) (auto simp: table_entries_def v)
next
  fix a b v t
  show "table_entries (table_store a b v t) \<subseteq> insert (a, b, v) (table_entries t)"
    by (auto simp: table_entries_def table_store_def updateEntry_slot split: if_splits)
qed

lemma checkParallel_query:
  "checkParallel a b t =
     (case table_query t a b of None \<Rightarrow> NA | Some v \<Rightarrow> if fst v then TRUE else FALSE)"
  by (simp add: checkParallel_cached table_query_def split: option.splits)

lemma getLCA_query:
  "getLCA a b t = (case table_query t a b of None \<Rightarrow> None | Some v \<Rightarrow> snd v)"
  by (simp add: getLCA_cached table_query_def split: option.splits)

end
