(* ===== verification/Task_Graph.thy ===== *)
theory Task_Graph
  imports Lca_Hash
begin

text \<open>
  The task graph of \<open>tdebug-lib\<close> (\<open>AFTaskGraph.H\<close>, \<open>AFTaskGraph.cpp\<close>): the dynamic program
  structure tree, the per-thread stacks of enclosing nodes, the tasks spawned and not yet
  started, and the queries. Each public method runs between \<open>PIN_GetLock(&lock)\<close> and
  \<open>PIN_ReleaseLock(&lock)\<close>, so it is one atomic transition of the state here.

  The state also holds the two globals these methods write: the memo table of \<open>lca_hash\<close>
  (static there; \<open>None\<close> when its \<open>malloc\<close> failed) and \<open>tidToTaskIdMap\<close>.
\<close>

definition NUM_GRAPH_NODES :: nat where
  "NUM_GRAPH_NODES = 134217728"

record AFTaskGraph =
  tgraph_nodes :: "nat \<Rightarrow> AFTask"
  nodes_base :: nat
  last_allocated_node :: nat
  cur :: "nat \<Rightarrow> nat list"
  temp_cur_map :: "nat \<rightharpoonup> nat"
  lca_tab :: "lca_table option"
  tidToTaskIdMap :: "nat \<Rightarrow> nat list"

section \<open>Allocating and linking nodes\<close>

definition upd_node :: "nat \<Rightarrow> (AFTask \<Rightarrow> AFTask) \<Rightarrow> AFTaskGraph \<Rightarrow> AFTaskGraph" where
  "upd_node i f g = g\<lparr>tgraph_nodes := (tgraph_nodes g)(i := f (tgraph_nodes g i))\<rparr>"

definition initialize_task :: "nat \<Rightarrow> NodeType \<Rightarrow> nat \<Rightarrow> AFTaskGraph \<Rightarrow> AFTaskGraph" where
  "initialize_task index node_type val g =
     upd_node index (\<lambda>n. n\<lparr>cur_step := 0, parent := 0, taskId := val, type := node_type,
       depth := 0, seq_num := 0, num_children := 0, young_ns_child := NO_TYPE\<rparr>) g"

text \<open>
  The bounds check on \<open>last_allocated_node\<close> is commented out in the source; a write past the
  mapped array is the fault \<open>OutOfBounds\<close>.
\<close>

definition create_node :: "NodeType \<Rightarrow> nat \<Rightarrow> AFTaskGraph \<Rightarrow> (nat \<times> AFTaskGraph) result" where
  "create_node node_type task_id g =
     (let index = last_allocated_node g + 1;
          g1 = g\<lparr>last_allocated_node := index\<rparr>
      in assert_r (index < NUM_GRAPH_NODES) OutOfBounds
           (Inr (index, initialize_task index node_type task_id g1)))"

text \<open>
  The statements that follow every \<open>create_node\<close> of the class, as one step: the fresh node
  gets its parent, its depth and its rank among the parent's children, whose count goes up.
\<close>

definition link_child ::
    "NodeType \<Rightarrow> nat \<Rightarrow> nat \<Rightarrow> AFTaskGraph \<Rightarrow> (nat \<times> AFTaskGraph) result" where
  "link_child node_type task_id p g =
     bind_r (create_node node_type task_id g) (\<lambda>(i, g1).
       let pn = tgraph_nodes g1 p;
           g2 = upd_node i (\<lambda>n. n\<lparr>parent := p, depth := depth pn + 1,
                  seq_num := num_children pn\<rparr>) g1;
           g3 = upd_node p (\<lambda>n. n\<lparr>num_children := num_children n + 1\<rparr>) g2
       in Inr (i, g3))"

definition set_young :: "nat \<Rightarrow> NodeType \<Rightarrow> AFTaskGraph \<Rightarrow> AFTaskGraph" where
  "set_young i t = upd_node i (\<lambda>n. n\<lparr>young_ns_child := t\<rparr>)"

definition set_cur_step :: "nat \<Rightarrow> nat \<Rightarrow> AFTaskGraph \<Rightarrow> AFTaskGraph" where
  "set_cur_step i s = upd_node i (\<lambda>n. n\<lparr>cur_step := s\<rparr>)"

definition top_cur :: "nat \<Rightarrow> AFTaskGraph \<Rightarrow> nat result" where
  "top_cur threadid g = thread_slot threadid (stack_top (cur g threadid))"

definition push_cur :: "nat \<Rightarrow> nat \<Rightarrow> AFTaskGraph \<Rightarrow> AFTaskGraph" where
  "push_cur threadid i g = g\<lparr>cur := (cur g)(threadid := stack_push i (cur g threadid))\<rparr>"

text \<open>
  The constructor: \<open>mmap\<close> must succeed (it is asserted), the head node 1 is a \<open>FINISH\<close> of
  task 0 and the bottom of thread 0's stack, and the memo table is created, the status that
  \<open>createHashTable\<close> returns being dropped.
\<close>

definition empty_graph :: "nat \<Rightarrow> (nat \<Rightarrow> nat list) \<Rightarrow> AFTaskGraph" where
  "empty_graph base tids = \<lparr>tgraph_nodes = (\<lambda>_. zero_task), nodes_base = base,
     last_allocated_node = 0, cur = (\<lambda>_. []), temp_cur_map = Map.empty,
     lca_tab = None, tidToTaskIdMap = tids\<rparr>"

definition new_AFTaskGraph ::
    "bool \<Rightarrow> bool \<Rightarrow> nat \<Rightarrow> (nat \<Rightarrow> nat list) \<Rightarrow> AFTaskGraph result" where
  "new_AFTaskGraph mmap_ok malloc_ok base tids =
     assert_r mmap_ok AssertFail
       (bind_r (create_node FINISH 0 (empty_graph base tids)) (\<lambda>(head_node, g1).
          let g2 = push_cur 0 head_node g1;
              g3 = upd_node head_node (\<lambda>n. n\<lparr>depth := 0\<rparr>) g2
          in Inr (g3\<lparr>lca_tab := snd (createHashTable malloc_ok)\<rparr>)))"

section \<open>Queries\<close>

definition getCurTask :: "nat \<Rightarrow> AFTaskGraph \<Rightarrow> nat result" where
  "getCurTask threadid g =
     bind_r (top_cur threadid g) (\<lambda>c. Inr (cur_step (tgraph_nodes g c)))"

text \<open>
  A pointer to a node is its index: \<open>tgraph_nodes + i\<close> is never \<open>NULL\<close>. Index 0 is the unused
  first node of the array, the parent of the head and the step of a scope that has none yet.
  The loops of \<open>LCA\<close>: climb from one node to a given depth, then climb from both until they
  meet. \<open>None\<close> means that the loop does not return.
\<close>

partial_function (option) lca_climb :: "(nat \<Rightarrow> AFTask) \<Rightarrow> nat \<Rightarrow> nat \<Rightarrow> nat option" where
  "lca_climb nds d i =
     (if depth (nds i) \<noteq> d then lca_climb nds d (parent (nds i)) else Some i)"

partial_function (option) lca_meet :: "(nat \<Rightarrow> AFTask) \<Rightarrow> nat \<Rightarrow> nat \<Rightarrow> nat option" where
  "lca_meet nds c r =
     (if r \<noteq> c then lca_meet nds (parent (nds c)) (parent (nds r)) else Some c)"

declare lca_climb.simps [code] lca_meet.simps [code]

definition lca_walk :: "(nat \<Rightarrow> AFTask) \<Rightarrow> nat \<Rightarrow> nat \<Rightarrow> nat result" where
  "lca_walk nds cur_task remote_task =
     bind_r (returns_r
       (if depth (nds remote_task) < depth (nds cur_task)
        then map_option (\<lambda>c. (c, remote_task))
               (lca_climb nds (depth (nds remote_task)) cur_task)
        else if depth (nds cur_task) < depth (nds remote_task)
        then map_option (\<lambda>r. (cur_task, r))
               (lca_climb nds (depth (nds cur_task)) remote_task)
        else Some (cur_task, remote_task)))
     (\<lambda>(c, r). returns_r (lca_meet nds c r))"

definition LCA :: "nat \<Rightarrow> nat \<Rightarrow> AFTaskGraph \<Rightarrow> nat result" where
  "LCA cur_task remote_task g =
     bind_r (deref_r (lca_tab g)) (\<lambda>t.
       case getLCA (node_addr (nodes_base g) cur_task) (node_addr (nodes_base g) remote_task) t of
         Some cached_lca \<Rightarrow> Inr cached_lca
       | None \<Rightarrow> lca_walk (tgraph_nodes g) cur_task remote_task)"

text \<open>
  \<open>rightmostNode\<close> and \<open>parallel\<close> run the same loops, remembering the last node left on each
  side (\<open>None\<close> being the initial \<open>NULL\<close>).
\<close>

partial_function (option) climb ::
    "(nat \<Rightarrow> AFTask) \<Rightarrow> nat \<Rightarrow> nat \<Rightarrow> nat option \<Rightarrow> (nat \<times> nat option) option" where
  "climb nds d i prev =
     (if depth (nds i) \<noteq> d then climb nds d (parent (nds i)) (Some i) else Some (i, prev))"

partial_function (option) meet ::
    "(nat \<Rightarrow> AFTask) \<Rightarrow> nat \<Rightarrow> nat option \<Rightarrow> nat \<Rightarrow> nat option
       \<Rightarrow> (nat \<times> nat option \<times> nat option) option" where
  "meet nds c pc r pr =
     (if r \<noteq> c then meet nds (parent (nds c)) (Some c) (parent (nds r)) (Some r)
      else Some (c, pc, pr))"

declare climb.simps [code] meet.simps [code]

definition walk_up ::
    "(nat \<Rightarrow> AFTask) \<Rightarrow> nat \<Rightarrow> nat \<Rightarrow> (nat \<times> nat option \<times> nat option) result" where
  "walk_up nds cur_task remote_task =
     bind_r (returns_r
       (if depth (nds remote_task) < depth (nds cur_task)
        then map_option (\<lambda>(c, pc). (c, pc, remote_task, None))
               (climb nds (depth (nds remote_task)) cur_task None)
        else if depth (nds cur_task) < depth (nds remote_task)
        then map_option (\<lambda>(r, pr). (cur_task, None, r, pr))
               (climb nds (depth (nds cur_task)) remote_task None)
        else Some (cur_task, None, remote_task, None)))
     (\<lambda>(c, pc, r, pr). returns_r (meet nds c pc r pr))"

definition rightmostNode :: "nat \<Rightarrow> nat option \<Rightarrow> AFTaskGraph \<Rightarrow> nat result" where
  "rightmostNode cur_task remote g =
     (case remote of
        None \<Rightarrow> Inr cur_task
      | Some remote_task \<Rightarrow>
          if cur_task = remote_task then Inr cur_task
          else bind_r (walk_up (tgraph_nodes g) cur_task remote_task) (\<lambda>(l, pc, pr).
               bind_r (deref_r pc) (\<lambda>prev_cur.
               bind_r (deref_r pr) (\<lambda>prev_remote.
                 if seq_num (tgraph_nodes g prev_remote) < seq_num (tgraph_nodes g prev_cur)
                 then Inr cur_task else Inr remote_task))))"

text \<open>
  The verdict for a pair whose branches leave the common ancestor through \<open>prev_cur\<close> and
  \<open>prev_remote\<close>: the branch that was spawned first must be asynchronous.
\<close>

definition left_is_async :: "(nat \<Rightarrow> AFTask) \<Rightarrow> nat \<Rightarrow> nat \<Rightarrow> bool" where
  "left_is_async nds prev_cur prev_remote =
     (if seq_num (nds prev_remote) < seq_num (nds prev_cur)
      then type (nds prev_remote) = ASYNC
      else type (nds prev_cur) = ASYNC)"

definition parallel :: "nat \<Rightarrow> nat \<Rightarrow> AFTaskGraph \<Rightarrow> (bool \<times> AFTaskGraph) result" where
  "parallel cur_task remote_task g =
     bind_r (deref_r (lca_tab g)) (\<lambda>t.
       let ca = node_addr (nodes_base g) cur_task;
           ra = node_addr (nodes_base g) remote_task in
       case checkParallel ca ra t of
         TRUE \<Rightarrow> Inr (True, g)
       | FALSE \<Rightarrow> Inr (False, g)
       | NA \<Rightarrow>
           bind_r (walk_up (tgraph_nodes g) cur_task remote_task) (\<lambda>(l, pc, pr).
           bind_r (deref_r pc) (\<lambda>prev_cur.
           bind_r (deref_r pr) (\<lambda>prev_remote.
             let ret_val = left_is_async (tgraph_nodes g) prev_cur prev_remote;
                 t1 = updateEntry ca ra ret_val (Some l) t;
                 t2 = updateEntry ra ca ret_val (Some l) t1
             in Inr (ret_val, g\<lparr>lca_tab := Some t2\<rparr>)))))"

definition areParallel ::
    "nat \<Rightarrow> nat \<Rightarrow> nat \<Rightarrow> AFTaskGraph \<Rightarrow> (bool \<times> AFTaskGraph) result" where
  "areParallel cur_task remote_task threadid g =
     (if cur_task = taskId (tgraph_nodes g remote_task) then Inr (False, g)
      else bind_r (top_cur threadid g) (\<lambda>c.
        if taskId (tgraph_nodes g c) = taskId (tgraph_nodes g remote_task) then Inr (False, g)
        else parallel (cur_step (tgraph_nodes g c)) remote_task g))"

section \<open>Task events\<close>

definition checkForStep :: "AFTask \<Rightarrow> bool" where
  "checkForStep cur_node = (young_ns_child cur_node = ASYNC)"

text \<open>
  A spawn: in a scope that already has a spawned child the new \<open>ASYNC\<close> node joins it;
  otherwise a \<open>FINISH\<close> scope is opened, pushed on the thread's stack, and holds the new
  node. Both the child and the continuation get a fresh \<open>STEP\<close>.
\<close>

definition spawn_scope ::
    "nat \<Rightarrow> nat \<Rightarrow> nat \<Rightarrow> AFTaskGraph \<Rightarrow> (nat \<times> nat \<times> AFTaskGraph) result" where
  "spawn_scope threadid task_id c g =
     (if checkForStep (tgraph_nodes g c) then
        bind_r (link_child ASYNC task_id c g) (\<lambda>(newNode, g1).
          Inr (c, newNode, set_young c ASYNC g1))
      else
        bind_r (link_child FINISH (taskId (tgraph_nodes g c)) c g) (\<lambda>(newFinish, g1).
        bind_r (link_child ASYNC task_id newFinish (set_young c FINISH g1)) (\<lambda>(newNode, g2).
          let g3 = set_young newFinish ASYNC g2 in
          assert_r (type (tgraph_nodes g3 newFinish) \<noteq> STEP) AssertFail
            (Inr (newFinish, newNode, push_cur threadid newFinish g3)))))"

definition add_step :: "nat \<Rightarrow> AFTaskGraph \<Rightarrow> AFTaskGraph result" where
  "add_step p g =
     bind_r (link_child STEP (taskId (tgraph_nodes g p)) p g) (\<lambda>(newStep, g1).
       Inr (set_cur_step p newStep g1))"

definition CaptureSpawnOnly :: "nat \<Rightarrow> nat \<Rightarrow> AFTaskGraph \<Rightarrow> AFTaskGraph result" where
  "CaptureSpawnOnly threadid task_id g =
     bind_r (top_cur threadid g) (\<lambda>c.
     bind_r (spawn_scope threadid task_id c g) (\<lambda>(cur_node, newNode, g1).
     bind_r (add_step newNode g1) (\<lambda>g2.
     bind_r (add_step cur_node g2) (\<lambda>g3.
       Inr (g3\<lparr>temp_cur_map := map_insert (temp_cur_map g3) task_id newNode\<rparr>)))))"

definition CaptureSpawnAndWait :: "nat \<Rightarrow> nat \<Rightarrow> AFTaskGraph \<Rightarrow> AFTaskGraph result" where
  "CaptureSpawnAndWait threadid task_id g =
     bind_r (top_cur threadid g) (\<lambda>c.
     bind_r (link_child FINISH task_id c g) (\<lambda>(newFinish, g1).
     bind_r (add_step newFinish (set_young c FINISH g1)) (\<lambda>g2.
       Inr (g2\<lparr>temp_cur_map := map_insert (temp_cur_map g2) task_id newFinish\<rparr>))))"

definition CaptureExecute :: "nat \<Rightarrow> nat \<Rightarrow> AFTaskGraph \<Rightarrow> AFTaskGraph result" where
  "CaptureExecute threadid task_id g =
     bind_r (map_at (temp_cur_map g) task_id) (\<lambda>temp_cur.
       let g1 = g\<lparr>temp_cur_map := map_erase (temp_cur_map g) task_id\<rparr> in
       assert_r (type (tgraph_nodes g1 temp_cur) \<noteq> STEP) AssertFail
         (thread_slot threadid
           (let g2 = push_cur threadid temp_cur g1 in
            Inr (g2\<lparr>tidToTaskIdMap := (tidToTaskIdMap g2)(threadid :=
              stack_push (taskId (tgraph_nodes g2 temp_cur)) (tidToTaskIdMap g2 threadid))\<rparr>))))"

definition CaptureWait :: "nat \<Rightarrow> AFTaskGraph \<Rightarrow> AFTaskGraph result" where
  "CaptureWait threadid g = bind_r (top_cur threadid g) (\<lambda>c. add_step c g)"

definition CaptureReturn :: "nat \<Rightarrow> AFTaskGraph \<Rightarrow> AFTaskGraph result" where
  "CaptureReturn threadid g =
     thread_slot threadid
       (bind_r (stack_pop (tidToTaskIdMap g threadid)) (\<lambda>ids.
          let g1 = g\<lparr>tidToTaskIdMap := (tidToTaskIdMap g)(threadid := ids)\<rparr> in
          assert_r (cur g1 threadid \<noteq> []) AssertFail
            (bind_r (stack_pop (cur g1 threadid)) (\<lambda>st.
               Inr (g1\<lparr>cur := (cur g1)(threadid := st)\<rparr>)))))"

definition CaptureWaitOnly :: "nat \<Rightarrow> AFTaskGraph \<Rightarrow> AFTaskGraph result" where
  "CaptureWaitOnly threadid g =
     thread_slot threadid
       (assert_r (cur g threadid \<noteq> []) AssertFail
         (bind_r (stack_pop (cur g threadid)) (\<lambda>st.
            let g1 = g\<lparr>cur := (cur g)(threadid := st)\<rparr> in
            assert_r (cur g1 threadid \<noteq> []) AssertFail
              (bind_r (top_cur threadid g1) (\<lambda>c.
                 assert_r (type (tgraph_nodes g1 c) \<noteq> STEP) AssertFail (add_step c g1))))))"

definition CaptureSetTaskId :: "nat \<Rightarrow> nat \<Rightarrow> int \<Rightarrow> AFTaskGraph \<Rightarrow> AFTaskGraph result" where
  "CaptureSetTaskId threadid task_id sp_only g =
     (if sp_only \<noteq> 0 then CaptureSpawnOnly threadid task_id g
      else CaptureSpawnAndWait threadid task_id g)"

end
