(* ===== verification/Graph_Inv.thy ===== *)
theory Graph_Inv
  imports Task_Graph
begin

text \<open>
  The well-formedness of the task graph and its preservation. \<open>tree_ok\<close> says that the
  allocated nodes \<open>1..n\<close> form a tree in which a parent is older than its children, depths
  count the way to the head, steps are leaves and the children of a node are numbered in the
  order they were spawned. \<open>count_ok\<close> and \<open>step_ok\<close> tie the two counters of a node to its
  children. \<open>scopes_ok\<close> says what the stacks and the table of spawned tasks hold. Every
  handler keeps all of it, and never changes what the allocated nodes say about the tree
  (\<open>grows\<close>).
\<close>

section \<open>The invariant\<close>

definition tree_ok :: "(nat \<Rightarrow> AFTask) \<Rightarrow> nat \<Rightarrow> bool" where
  "tree_ok nds n \<longleftrightarrow>
     1 \<le> n \<and> depth (nds 1) = 0 \<and> type (nds 1) = FINISH \<and>
     (\<forall>i. 2 \<le> i \<and> i \<le> n \<longrightarrow>
        1 \<le> parent (nds i) \<and> parent (nds i) < i \<and>
        depth (nds i) = Suc (depth (nds (parent (nds i)))) \<and>
        type (nds (parent (nds i))) \<noteq> STEP \<and> type (nds i) \<noteq> NO_TYPE) \<and>
     (\<forall>i j. 2 \<le> i \<and> i < j \<and> j \<le> n \<and> parent (nds i) = parent (nds j) \<longrightarrow>
        seq_num (nds i) < seq_num (nds j))"

definition count_ok :: "(nat \<Rightarrow> AFTask) \<Rightarrow> nat \<Rightarrow> bool" where
  "count_ok nds n \<longleftrightarrow>
     (\<forall>i. 2 \<le> i \<and> i \<le> n \<longrightarrow> seq_num (nds i) < num_children (nds (parent (nds i)))) \<and>
     (\<forall>i. 1 \<le> i \<and> i \<le> n \<longrightarrow> num_children (nds i) + i \<le> n)"

definition step_ok :: "(nat \<Rightarrow> AFTask) \<Rightarrow> nat \<Rightarrow> bool" where
  "step_ok nds n \<longleftrightarrow>
     (\<forall>i. 1 \<le> i \<and> i \<le> n \<and> cur_step (nds i) \<noteq> 0 \<longrightarrow>
        2 \<le> cur_step (nds i) \<and> cur_step (nds i) \<le> n \<and>
        type (nds (cur_step (nds i))) = STEP \<and> parent (nds (cur_step (nds i))) = i)"

text \<open>A scope is an \<open>ASYNC\<close> or \<open>FINISH\<close> node; it is live once it has a current step.\<close>

definition scope :: "AFTaskGraph \<Rightarrow> nat \<Rightarrow> bool" where
  "scope g i \<longleftrightarrow> 1 \<le> i \<and> i \<le> last_allocated_node g \<and>
     (type (tgraph_nodes g i) = ASYNC \<or> type (tgraph_nodes g i) = FINISH)"

definition live_scope :: "AFTaskGraph \<Rightarrow> nat \<Rightarrow> bool" where
  "live_scope g i \<longleftrightarrow> scope g i \<and> (i = 1 \<or> cur_step (tgraph_nodes g i) \<noteq> 0)"

definition scopes_ok :: "AFTaskGraph \<Rightarrow> bool" where
  "scopes_ok g \<longleftrightarrow>
     (\<forall>t i. i \<in> set (cur g t) \<longrightarrow> live_scope g i) \<and>
     (\<forall>k i. temp_cur_map g k = Some i \<longrightarrow> live_scope g i)"

definition core_ok :: "AFTaskGraph \<Rightarrow> bool" where
  "core_ok g \<longleftrightarrow>
     tree_ok (tgraph_nodes g) (last_allocated_node g) \<and>
     count_ok (tgraph_nodes g) (last_allocated_node g) \<and>
     step_ok (tgraph_nodes g) (last_allocated_node g) \<and>
     last_allocated_node g < NUM_GRAPH_NODES"

definition same_shape :: "(nat \<Rightarrow> AFTask) \<Rightarrow> (nat \<Rightarrow> AFTask) \<Rightarrow> nat \<Rightarrow> bool" where
  "same_shape nds nds' n \<longleftrightarrow> (\<forall>i. 1 \<le> i \<and> i \<le> n \<longrightarrow>
     parent (nds' i) = parent (nds i) \<and> depth (nds' i) = depth (nds i) \<and>
     type (nds' i) = type (nds i) \<and> seq_num (nds' i) = seq_num (nds i) \<and>
     taskId (nds' i) = taskId (nds i))"

definition grows :: "AFTaskGraph \<Rightarrow> AFTaskGraph \<Rightarrow> bool" where
  "grows g g' \<longleftrightarrow>
     last_allocated_node g \<le> last_allocated_node g' \<and> nodes_base g' = nodes_base g \<and>
     same_shape (tgraph_nodes g) (tgraph_nodes g') (last_allocated_node g) \<and>
     (\<forall>i. 1 \<le> i \<and> i \<le> last_allocated_node g \<and> cur_step (tgraph_nodes g i) \<noteq> 0 \<longrightarrow>
        cur_step (tgraph_nodes g' i) \<noteq> 0)"

lemma grows_refl [simp, intro]: "grows g g"
  by (simp add: grows_def same_shape_def)

lemma grows_trans: "grows a b \<Longrightarrow> grows b c \<Longrightarrow> grows a c"
  by (auto simp: grows_def same_shape_def)

lemma grows_live: "grows g g' \<Longrightarrow> live_scope g i \<Longrightarrow> live_scope g' i"
  unfolding grows_def same_shape_def live_scope_def scope_def by auto

lemma grows_scope: "grows g g' \<Longrightarrow> scope g i \<Longrightarrow> scope g' i"
  unfolding grows_def same_shape_def scope_def by auto

text \<open>\<open>grows\<close> reads only the nodes, their number and the base address.\<close>

lemma grows_fields:
  assumes "tgraph_nodes h = tgraph_nodes g'" "last_allocated_node h = last_allocated_node g'"
    "nodes_base h = nodes_base g'"
  shows "grows g h = grows g g'"
  using assms by (simp add: grows_def)

lemma core_ok_fields:
  assumes "tgraph_nodes h = tgraph_nodes g" "last_allocated_node h = last_allocated_node g"
  shows "core_ok h = core_ok g"
  using assms by (simp add: core_ok_def)

lemma live_scope_fields:
  assumes "tgraph_nodes h = tgraph_nodes g" "last_allocated_node h = last_allocated_node g"
  shows "live_scope h i = live_scope g i" "scope h i = scope g i"
  using assms by (simp_all add: live_scope_def scope_def)

section \<open>Elementary updates\<close>

lemma link_child_InrD:
  assumes "link_child ty k p g = Inr (i, g')" and "p \<le> last_allocated_node g"
  shows "i = Suc (last_allocated_node g)" "last_allocated_node g' = Suc (last_allocated_node g)"
    "Suc (last_allocated_node g) < NUM_GRAPH_NODES"
    "tgraph_nodes g' = (tgraph_nodes g)
       (Suc (last_allocated_node g) := \<lparr>taskId = k, parent = p, cur_step = 0, type = ty,
          depth = Suc (depth (tgraph_nodes g p)), seq_num = num_children (tgraph_nodes g p),
          num_children = 0, young_ns_child = NO_TYPE\<rparr>,
        p := (tgraph_nodes g p)\<lparr>num_children := Suc (num_children (tgraph_nodes g p))\<rparr>)"
    "cur g' = cur g" "temp_cur_map g' = temp_cur_map g" "lca_tab g' = lca_tab g"
    "nodes_base g' = nodes_base g" "tidToTaskIdMap g' = tidToTaskIdMap g"
  using assms
  by (auto simp: link_child_def create_node_def initialize_task_def upd_node_def Let_def
      bind_r_Inr_iff assert_r_Inr_iff fun_upd_def fun_eq_iff)

lemma upd_node_fields [simp, graph_simps]:
  "tgraph_nodes (upd_node i f g) = (tgraph_nodes g)(i := f (tgraph_nodes g i))"
  "last_allocated_node (upd_node i f g) = last_allocated_node g"
  "cur (upd_node i f g) = cur g" "temp_cur_map (upd_node i f g) = temp_cur_map g"
  "lca_tab (upd_node i f g) = lca_tab g" "nodes_base (upd_node i f g) = nodes_base g"
  "tidToTaskIdMap (upd_node i f g) = tidToTaskIdMap g"
  by (simp_all add: upd_node_def)

lemma push_cur_fields [simp, graph_simps]:
  "tgraph_nodes (push_cur t i g) = tgraph_nodes g"
  "last_allocated_node (push_cur t i g) = last_allocated_node g"
  "cur (push_cur t i g) = (cur g)(t := stack_push i (cur g t))"
  "temp_cur_map (push_cur t i g) = temp_cur_map g"
  "lca_tab (push_cur t i g) = lca_tab g" "nodes_base (push_cur t i g) = nodes_base g"
  "tidToTaskIdMap (push_cur t i g) = tidToTaskIdMap g"
  by (simp_all add: push_cur_def)

text \<open>
  Linking a node below \<open>p\<close> in the array: the old nodes keep their fields, \<open>p\<close> apart, whose
  number of children goes up.
\<close>

lemma linked_nodes:
  fixes nds :: "nat \<Rightarrow> AFTask"
  assumes "1 \<le> p" "p \<le> n" and N: "N = nds(Suc n := x, p := (nds p)\<lparr>num_children := m\<rparr>)"
  shows "N (Suc n) = x"
    "\<And>i. i \<le> n \<Longrightarrow> parent (N i) = parent (nds i)" "\<And>i. i \<le> n \<Longrightarrow> depth (N i) = depth (nds i)"
    "\<And>i. i \<le> n \<Longrightarrow> type (N i) = type (nds i)" "\<And>i. i \<le> n \<Longrightarrow> seq_num (N i) = seq_num (nds i)"
    "\<And>i. i \<le> n \<Longrightarrow> cur_step (N i) = cur_step (nds i)"
    "\<And>i. i \<le> n \<Longrightarrow> num_children (N i) = (if i = p then m else num_children (nds i))"
  using assms(1,2) by (auto simp: N)

lemma tree_ok_link:
  assumes t: "tree_ok nds n" and c: "count_ok nds n"
    and p: "1 \<le> p" "p \<le> n" "type (nds p) \<noteq> STEP"
    and ty: "type x \<noteq> NO_TYPE" and x: "parent x = p" "depth x = Suc (depth (nds p))"
      "seq_num x = num_children (nds p)"
    and N: "N = nds(Suc n := x, p := (nds p)\<lparr>num_children := m\<rparr>)"
  shows "tree_ok N (Suc n)"
  unfolding tree_ok_def
proof (intro conjI allI impI, goal_cases)
  case 1
  show ?case by simp
next
  case 2
  from t show ?case using linked_nodes(3)[OF p(1,2) N, of 1] by (simp add: tree_ok_def)
next
  case 3
  from t show ?case using linked_nodes(4)[OF p(1,2) N, of 1] by (simp add: tree_ok_def)
next
  case (4 i)
  then show ?case using t p x
    by (cases "i = Suc n") (auto simp: linked_nodes[OF p(1,2) N] tree_ok_def)
next
  case (5 i)
  then show ?case using t p x
    by (cases "i = Suc n") (auto simp: linked_nodes[OF p(1,2) N] tree_ok_def)
next
  case (6 i)
  show ?case
  proof (cases "i = Suc n")
    case True
    with p x show ?thesis by (simp add: linked_nodes[OF p(1,2) N])
  next
    case False
    with 6 have i: "2 \<le> i" "i \<le> n" by auto
    with t have "parent (nds i) \<le> n" by (auto simp: tree_ok_def)
    with t i show ?thesis by (simp add: linked_nodes[OF p(1,2) N] tree_ok_def)
  qed
next
  case (7 i)
  show ?case
  proof (cases "i = Suc n")
    case True
    with p x show ?thesis by (simp add: linked_nodes[OF p(1,2) N])
  next
    case False
    with 7 have i: "2 \<le> i" "i \<le> n" by auto
    with t have "parent (nds i) \<le> n" by (auto simp: tree_ok_def)
    with t i show ?thesis by (simp add: linked_nodes[OF p(1,2) N] tree_ok_def)
  qed
next
  case (8 i)
  then show ?case using t ty
    by (cases "i = Suc n") (auto simp: linked_nodes[OF p(1,2) N] tree_ok_def)
next
  case (9 i j)
  show ?case
  proof (cases "j = Suc n")
    case True
    with 9 x have i: "2 \<le> i" "i \<le> n" "parent (nds i) = p"
      by (auto simp: linked_nodes[OF p(1,2) N])
    with c have "seq_num (nds i) < num_children (nds p)" by (auto simp: count_ok_def)
    with True i x show ?thesis by (simp add: linked_nodes[OF p(1,2) N])
  next
    case False
    with 9 have "2 \<le> i" "i < j" "j \<le> n" "parent (nds i) = parent (nds j)"
      by (auto simp: linked_nodes[OF p(1,2) N])
    with t show ?thesis by (auto simp: linked_nodes[OF p(1,2) N] tree_ok_def)
  qed
qed

lemma count_ok_link:
  assumes t: "tree_ok nds n" and c: "count_ok nds n" and p: "1 \<le> p" "p \<le> n"
    and x: "parent x = p" "seq_num x = num_children (nds p)" "num_children x = 0"
    and N: "N = nds(Suc n := x, p := (nds p)\<lparr>num_children := Suc (num_children (nds p))\<rparr>)"
  shows "count_ok N (Suc n)"
  unfolding count_ok_def
proof (intro conjI allI impI, goal_cases)
  case (1 i)
  show ?case
  proof (cases "i = Suc n")
    case True
    with p x show ?thesis by (simp add: linked_nodes[OF p N])
  next
    case False
    with 1 have i: "2 \<le> i" "i \<le> n" by auto
    with t have "parent (nds i) \<le> n" by (auto simp: tree_ok_def)
    with c i show ?thesis by (auto simp: linked_nodes[OF p N] count_ok_def less_Suc_eq)
  qed
next
  case (2 i)
  show ?case
  proof (cases "i = Suc n")
    case True
    with x show ?thesis by (simp add: linked_nodes[OF p N])
  next
    case False
    with 2 have "1 \<le> i" "i \<le> n" by auto
    with c show ?thesis by (auto simp: linked_nodes[OF p N] count_ok_def le_SucI)
  qed
qed

lemma step_ok_link:
  assumes s: "step_ok nds n" and p: "1 \<le> p" "p \<le> n" and x: "cur_step x = 0"
    and N: "N = nds(Suc n := x, p := (nds p)\<lparr>num_children := m\<rparr>)"
  shows "step_ok N (Suc n)"
  unfolding step_ok_def
proof (intro allI impI)
  fix i
  assume i: "1 \<le> i \<and> i \<le> Suc n \<and> cur_step (N i) \<noteq> 0"
  with x have "i \<le> n" by (auto simp: linked_nodes[OF p N] le_Suc_eq)
  with i s show "2 \<le> cur_step (N i) \<and> cur_step (N i) \<le> Suc n \<and>
      type (N (cur_step (N i))) = STEP \<and> parent (N (cur_step (N i))) = i"
    by (auto simp: linked_nodes[OF p N] step_ok_def)
qed

lemma link_child_core:
  assumes "core_ok g" and l: "link_child ty k p g = Inr (i, g')"
    and p: "1 \<le> p" "p \<le> last_allocated_node g" "type (tgraph_nodes g p) \<noteq> STEP"
    and ty: "ty \<noteq> NO_TYPE"
  shows "core_ok g'"
proof -
  note d = link_child_InrD[OF l p(2)]
  from assms(1) have t: "tree_ok (tgraph_nodes g) (last_allocated_node g)"
    and c: "count_ok (tgraph_nodes g) (last_allocated_node g)"
    and s: "step_ok (tgraph_nodes g) (last_allocated_node g)"
    by (auto simp: core_ok_def)
  show ?thesis
    unfolding core_ok_def d(2)
    using tree_ok_link[OF t c p _ _ _ _ d(4)] count_ok_link[OF t c p(1,2) _ _ _ d(4)]
      step_ok_link[OF s p(1,2) _ d(4)] ty d(3)
    by simp
qed

lemma link_child_grows:
  assumes "link_child ty k p g = Inr (i, g')" and "p \<le> last_allocated_node g"
  shows "grows g g'"
  unfolding grows_def same_shape_def link_child_InrD[OF assms]
  using assms(2) by auto

text \<open>Writing the two bookkeeping fields of a node leaves the tree as it is.\<close>

lemma set_young_fields [simp, graph_simps]:
  "last_allocated_node (set_young i t g) = last_allocated_node g"
  "cur (set_young i t g) = cur g" "temp_cur_map (set_young i t g) = temp_cur_map g"
  "lca_tab (set_young i t g) = lca_tab g" "nodes_base (set_young i t g) = nodes_base g"
  "tidToTaskIdMap (set_young i t g) = tidToTaskIdMap g"
  "parent (tgraph_nodes (set_young i t g) j) = parent (tgraph_nodes g j)"
  "type (tgraph_nodes (set_young i t g) j) = type (tgraph_nodes g j)"
  "depth (tgraph_nodes (set_young i t g) j) = depth (tgraph_nodes g j)"
  "seq_num (tgraph_nodes (set_young i t g) j) = seq_num (tgraph_nodes g j)"
  "taskId (tgraph_nodes (set_young i t g) j) = taskId (tgraph_nodes g j)"
  "cur_step (tgraph_nodes (set_young i t g) j) = cur_step (tgraph_nodes g j)"
  "num_children (tgraph_nodes (set_young i t g) j) = num_children (tgraph_nodes g j)"
  by (simp_all add: set_young_def)

lemma set_young_core: "core_ok (set_young i t g) = core_ok g"
  by (simp add: core_ok_def tree_ok_def count_ok_def step_ok_def)

lemma set_young_grows: "grows g (set_young i t g)"
  by (simp add: grows_def same_shape_def)

lemma set_cur_step_fields [simp, graph_simps]:
  "last_allocated_node (set_cur_step i s g) = last_allocated_node g"
  "cur (set_cur_step i s g) = cur g" "temp_cur_map (set_cur_step i s g) = temp_cur_map g"
  "lca_tab (set_cur_step i s g) = lca_tab g" "nodes_base (set_cur_step i s g) = nodes_base g"
  "tidToTaskIdMap (set_cur_step i s g) = tidToTaskIdMap g"
  "parent (tgraph_nodes (set_cur_step i s g) j) = parent (tgraph_nodes g j)"
  "type (tgraph_nodes (set_cur_step i s g) j) = type (tgraph_nodes g j)"
  "depth (tgraph_nodes (set_cur_step i s g) j) = depth (tgraph_nodes g j)"
  "seq_num (tgraph_nodes (set_cur_step i s g) j) = seq_num (tgraph_nodes g j)"
  "taskId (tgraph_nodes (set_cur_step i s g) j) = taskId (tgraph_nodes g j)"
  "num_children (tgraph_nodes (set_cur_step i s g) j) = num_children (tgraph_nodes g j)"
  "cur_step (tgraph_nodes (set_cur_step i s g) j)
     = (if j = i then s else cur_step (tgraph_nodes g j))"
  by (simp_all add: set_cur_step_def)

lemma set_cur_step_core:
  assumes "core_ok g"
    and "2 \<le> s" "s \<le> last_allocated_node g" "type (tgraph_nodes g s) = STEP"
      "parent (tgraph_nodes g s) = i"
  shows "core_ok (set_cur_step i s g)"
proof -
  from assms(1) have "step_ok (tgraph_nodes g) (last_allocated_node g)"
    by (simp add: core_ok_def)
  then have "step_ok (tgraph_nodes (set_cur_step i s g)) (last_allocated_node g)"
    using assms(2-) by (simp add: step_ok_def)
  with assms(1) show ?thesis
    by (simp add: core_ok_def tree_ok_def count_ok_def)
qed

lemma add_step_InrD:
  assumes a: "add_step p g = Inr g'" and core: "core_ok g"
    and p: "scope g p"
  shows "core_ok g'" "grows g g'" "live_scope g' p"
    "cur_step (tgraph_nodes g' p) = Suc (last_allocated_node g)"
    "last_allocated_node g' = Suc (last_allocated_node g)"
    "cur g' = cur g" "temp_cur_map g' = temp_cur_map g" "lca_tab g' = lca_tab g"
    "tidToTaskIdMap g' = tidToTaskIdMap g"
proof -
  from p have pn: "1 \<le> p" "p \<le> last_allocated_node g" "type (tgraph_nodes g p) \<noteq> STEP"
    by (auto simp: scope_def)
  from a obtain s g1 where l: "link_child STEP (taskId (tgraph_nodes g p)) p g = Inr (s, g1)"
    and g': "g' = set_cur_step p s g1"
    by (auto simp: add_step_def bind_r_Inr_iff)
  note d = link_child_InrD[OF l pn(2)]
  have c1: "core_ok g1" using link_child_core[OF core l pn] by simp
  have gr1: "grows g g1" using link_child_grows[OF l pn(2)] .
  show "core_ok g'"
    unfolding g' by (rule set_cur_step_core[OF c1]) (use pn in \<open>simp_all add: d\<close>)
  show "grows g g'"
    using gr1 d(1) unfolding g' grows_def same_shape_def by auto
  then show "live_scope g' p"
    using p d(1) unfolding g' live_scope_def by (auto dest: grows_scope)
  show "cur_step (tgraph_nodes g' p) = Suc (last_allocated_node g)"
    "last_allocated_node g' = Suc (last_allocated_node g)"
    "cur g' = cur g" "temp_cur_map g' = temp_cur_map g" "lca_tab g' = lca_tab g"
    "tidToTaskIdMap g' = tidToTaskIdMap g"
    by (simp_all add: g' d)
qed

section \<open>The handlers keep the invariant\<close>

text \<open>
  What each handler gives back: the invariant, a graph that extends the old one, and the memo
  table untouched.
\<close>

definition graph_step :: "AFTaskGraph \<Rightarrow> AFTaskGraph \<Rightarrow> bool" where
  "graph_step g g' \<longleftrightarrow> core_ok g' \<and> scopes_ok g' \<and> grows g g' \<and> lca_tab g' = lca_tab g"

lemma top_cur_InrD:
  assumes "top_cur t g = Inr c"
  shows "t < NUM_THREADS" "\<exists>st. cur g t = c # st" "c \<in> set (cur g t)"
  using assms by (auto simp: top_cur_def)

lemma top_cur_live: "scopes_ok g \<Longrightarrow> top_cur t g = Inr c \<Longrightarrow> live_scope g c"
  by (auto simp: scopes_ok_def dest: top_cur_InrD(3))

lemma live_scopeD: "live_scope g i \<Longrightarrow> scope g i"
  by (simp add: live_scope_def)

lemma scopeD:
  "scope g i \<Longrightarrow> 1 \<le> i" "scope g i \<Longrightarrow> i \<le> last_allocated_node g"
  "scope g i \<Longrightarrow> type (tgraph_nodes g i) \<noteq> STEP"
  by (auto simp: scope_def)

lemma link_child_scope:
  assumes core: "core_ok g" and p: "scope g p" and l: "link_child ty k p g = Inr (i, g')"
    and ty: "ty \<noteq> NO_TYPE"
  shows "core_ok g'" "grows g g'" "scope g' p" "ty \<noteq> STEP \<Longrightarrow> scope g' i"
    "i = Suc (last_allocated_node g)" "parent (tgraph_nodes g' i) = p"
    "cur g' = cur g" "temp_cur_map g' = temp_cur_map g" "lca_tab g' = lca_tab g"
    "tidToTaskIdMap g' = tidToTaskIdMap g"
proof -
  note d = link_child_InrD[OF l scopeD(2)[OF p]]
  show "core_ok g'" by (rule link_child_core[OF core l scopeD[OF p] ty])
  show gr: "grows g g'" by (rule link_child_grows[OF l scopeD(2)[OF p]])
  show "scope g' p" by (rule grows_scope[OF gr p])
  show "scope g' i" if "ty \<noteq> STEP"
    using that ty scopeD(2)[OF p] by (cases ty) (auto simp: scope_def d)
  show "i = Suc (last_allocated_node g)" "cur g' = cur g" "temp_cur_map g' = temp_cur_map g"
    "lca_tab g' = lca_tab g" "tidToTaskIdMap g' = tidToTaskIdMap g"
    by (rule d)+
  show "parent (tgraph_nodes g' i) = p" using scopeD(2)[OF p] by (auto simp: d)
qed

lemma scope_set_young [simp]: "scope (set_young i t g) j = scope g j"
  by (simp add: scope_def)

lemma grows_push: "grows g (push_cur t i h) = grows g h"
  by (simp add: grows_def)

lemma core_ok_push: "core_ok (push_cur t i h) = core_ok h"
  by (simp add: core_ok_def)

lemma scope_push: "scope (push_cur t i h) j = scope h j"
  by (simp add: scope_def)

lemma spawn_scope_all:
  assumes core: "core_ok g" and c: "scope g c"
    and s: "spawn_scope t k c g = Inr (c', n, g')"
  shows "core_ok g' \<and> grows g g' \<and> scope g' c' \<and> scope g' n \<and>
    cur g' = (if c' = c then cur g else (cur g)(t := c' # cur g t)) \<and>
    temp_cur_map g' = temp_cur_map g \<and> lca_tab g' = lca_tab g \<and>
    tidToTaskIdMap g' = tidToTaskIdMap g"
proof (cases "checkForStep (tgraph_nodes g c)")
  case True
  with s obtain g1 where l: "link_child ASYNC k c g = Inr (n, g1)"
    and e: "c' = c" "g' = set_young c ASYNC g1"
    by (auto simp: spawn_scope_def bind_r_Inr_iff)
  note L = link_child_scope[OF core c l]
  show ?thesis
    using L grows_trans[OF L(2) set_young_grows] by (simp add: e set_young_core)
next
  case False
  with s obtain f g1 g2 where
    l1: "link_child FINISH (taskId (tgraph_nodes g c)) c g = Inr (f, g1)" and
    l2: "link_child ASYNC k f (set_young c FINISH g1) = Inr (n, g2)" and
    e: "c' = f" "g' = push_cur t f (set_young f ASYNC g2)"
    by (auto simp: spawn_scope_def bind_r_Inr_iff assert_r_Inr_iff Let_def)
  note L1 = link_child_scope[OF core c l1]
  have c1: "core_ok (set_young c FINISH g1)" and f1: "scope (set_young c FINISH g1) f"
    using L1 by (simp_all add: set_young_core)
  note L2 = link_child_scope[OF c1 f1 l2]
  have "f \<noteq> c" using L1(5) scopeD(2)[OF c] by simp
  have gr: "grows g (set_young f ASYNC g2)"
    using L1(2) L2(2) grows_trans set_young_grows by (metis NodeType.distinct(1,3,5))
  then have "grows g g'" by (simp add: e grows_push)
  moreover have "core_ok g'"
    using L2(1) by (simp add: e core_ok_push set_young_core)
  ultimately show ?thesis
    using L1 L2 \<open>f \<noteq> c\<close>
    by (simp add: e stack_push_def scope_push)
qed

lemma spawn_scope_InrD:
  assumes "core_ok g" and "scope g c" and "spawn_scope t k c g = Inr (c', n, g')"
  shows "core_ok g'" "grows g g'" "scope g' c'" "scope g' n"
    "cur g' = (if c' = c then cur g else (cur g)(t := c' # cur g t))"
    "temp_cur_map g' = temp_cur_map g" "lca_tab g' = lca_tab g"
    "tidToTaskIdMap g' = tidToTaskIdMap g"
  using spawn_scope_all[OF assms] by simp_all

lemma scopes_okI:
  assumes "\<And>t i. i \<in> set (cur g t) \<Longrightarrow> live_scope g i"
    and "\<And>k i. temp_cur_map g k = Some i \<Longrightarrow> live_scope g i"
  shows "scopes_ok g"
  using assms by (simp add: scopes_ok_def)

lemma graph_step_temp:
  assumes "core_ok g1" "grows g g1" "lca_tab g1 = lca_tab g"
    and "\<And>t i. i \<in> set (cur g1 t) \<Longrightarrow> live_scope g1 i"
    and "\<And>k i. temp_cur_map g1 k = Some i \<Longrightarrow> live_scope g1 i" and "live_scope g1 n"
  shows "graph_step g (g1\<lparr>temp_cur_map := map_insert (temp_cur_map g1) k n\<rparr>)"
proof -
  let ?h = "g1\<lparr>temp_cur_map := map_insert (temp_cur_map g1) k n\<rparr>"
  have eq: "live_scope ?h i = live_scope g1 i" for i
    by (rule live_scope_fields) simp_all
  have "scopes_ok ?h"
    using assms(4-6) by (intro scopes_okI) (auto simp: eq split: if_splits)
  moreover have "core_ok ?h" using assms(1) by (subst core_ok_fields[of _ g1]) simp_all
  moreover have "grows g ?h" using assms(2) by (subst grows_fields[of _ g1]) simp_all
  ultimately show ?thesis using assms(3) by (simp add: graph_step_def)
qed

lemma CaptureSpawnOnly_step:
  assumes core: "core_ok g" and sc: "scopes_ok g"
    and s: "CaptureSpawnOnly t k g = Inr g'"
  shows "graph_step g g'"
proof -
  from s obtain c c' n g1 g2 g3 where
    top: "top_cur t g = Inr c" and s1: "spawn_scope t k c g = Inr (c', n, g1)" and
    a1: "add_step n g1 = Inr g2" and a2: "add_step c' g2 = Inr g3" and
    g': "g' = g3\<lparr>temp_cur_map := map_insert (temp_cur_map g3) k n\<rparr>"
    by (auto simp: CaptureSpawnOnly_def bind_r_Inr_iff)
  note S = spawn_scope_InrD[OF core live_scopeD[OF top_cur_live[OF sc top]] s1]
  note A = add_step_InrD[OF a1 S(1) S(4)]
  note B = add_step_InrD[OF a2 A(1) grows_scope[OF A(2) S(3)]]
  have gr: "grows g g3" using S(2) A(2) B(2) grows_trans by blast
  have n: "live_scope g3 n" using A(3) B(2) by (rule grows_live[rotated])
  show ?thesis unfolding g'
  proof (rule graph_step_temp[OF B(1) gr _ _ _ n])
    show "lca_tab g3 = lca_tab g" by (simp add: B A S)
    show "live_scope g3 i" if "i \<in> set (cur g3 t')" for t' i
    proof -
      from that have "i = c' \<or> i \<in> set (cur g t')"
        by (auto simp: B(6) A(6) S(5) split: if_splits)
      then show ?thesis using B(3) sc gr by (auto simp: scopes_ok_def intro: grows_live)
    qed
    show "live_scope g3 i" if "temp_cur_map g3 k' = Some i" for k' i
      using that sc gr by (auto simp: B(7) A(7) S(6) scopes_ok_def intro: grows_live)
  qed
qed

lemma CaptureSpawnAndWait_step:
  assumes core: "core_ok g" and sc: "scopes_ok g"
    and s: "CaptureSpawnAndWait t k g = Inr g'"
  shows "graph_step g g'"
proof -
  from s obtain c f g1 g2 where
    top: "top_cur t g = Inr c" and l: "link_child FINISH k c g = Inr (f, g1)" and
    a: "add_step f (set_young c FINISH g1) = Inr g2" and
    g': "g' = g2\<lparr>temp_cur_map := map_insert (temp_cur_map g2) k f\<rparr>"
    by (auto simp: CaptureSpawnAndWait_def bind_r_Inr_iff)
  note L = link_child_scope[OF core live_scopeD[OF top_cur_live[OF sc top]] l]
  have c1: "core_ok (set_young c FINISH g1)" "scope (set_young c FINISH g1) f"
    using L by (simp_all add: set_young_core)
  note A = add_step_InrD[OF a c1]
  have gr: "grows g g2"
    using grows_trans[OF grows_trans[OF L(2) set_young_grows] A(2)] by simp
  show ?thesis unfolding g'
  proof (rule graph_step_temp[OF A(1) gr _ _ _ A(3)])
    show "lca_tab g2 = lca_tab g" by (simp add: A L)
    show "live_scope g2 i" if "i \<in> set (cur g2 t')" for t' i
      using that sc gr by (auto simp: A L scopes_ok_def intro: grows_live)
    show "live_scope g2 i" if "temp_cur_map g2 k' = Some i" for k' i
      using that sc gr by (auto simp: A L scopes_ok_def intro: grows_live)
  qed
qed

lemma CaptureSetTaskId_step:
  "core_ok g \<Longrightarrow> scopes_ok g \<Longrightarrow> CaptureSetTaskId t k b g = Inr g' \<Longrightarrow> graph_step g g'"
  by (auto simp: CaptureSetTaskId_def split: if_splits
      intro: CaptureSpawnOnly_step CaptureSpawnAndWait_step)

text \<open>Steps that only move entries between the stacks and the table of spawned tasks.\<close>

lemma graph_step_stacks:
  assumes "core_ok g" and "tgraph_nodes h = tgraph_nodes g"
    "last_allocated_node h = last_allocated_node g" "nodes_base h = nodes_base g"
    "lca_tab h = lca_tab g"
    and "\<And>t i. i \<in> set (cur h t) \<Longrightarrow> live_scope g i"
    and "\<And>k i. temp_cur_map h k = Some i \<Longrightarrow> live_scope g i"
  shows "graph_step g h"
  using assms
  by (auto simp: graph_step_def core_ok_fields[of h g] grows_fields[of h g]
      live_scope_fields[of h g] scopes_ok_def)

lemma CaptureExecute_step:
  assumes "core_ok g" and sc: "scopes_ok g" and s: "CaptureExecute t k g = Inr g'"
  shows "graph_step g g'"
  using assms(1)
proof (rule graph_step_stacks)
  show "tgraph_nodes g' = tgraph_nodes g" "last_allocated_node g' = last_allocated_node g"
    "nodes_base g' = nodes_base g" "lca_tab g' = lca_tab g"
    using s by (auto simp: CaptureExecute_def bind_r_Inr_iff assert_r_Inr_iff Let_def)
  show "live_scope g i" if "i \<in> set (cur g' t')" for t' i
    using that s sc
    by (auto simp: CaptureExecute_def bind_r_Inr_iff assert_r_Inr_iff Let_def scopes_ok_def
        split: if_splits)
  show "live_scope g i" if "temp_cur_map g' k' = Some i" for k' i
    using that s sc
    by (auto simp: CaptureExecute_def bind_r_Inr_iff assert_r_Inr_iff Let_def scopes_ok_def
        split: if_splits)
qed

lemma CaptureReturn_step:
  assumes "core_ok g" and sc: "scopes_ok g" and s: "CaptureReturn t g = Inr g'"
  shows "graph_step g g'"
  using assms(1)
proof (rule graph_step_stacks)
  show "tgraph_nodes g' = tgraph_nodes g" "last_allocated_node g' = last_allocated_node g"
    "nodes_base g' = nodes_base g" "lca_tab g' = lca_tab g"
    using s by (auto simp: CaptureReturn_def bind_r_Inr_iff assert_r_Inr_iff Let_def)
  show "live_scope g i" if "i \<in> set (cur g' t')" for t' i
  proof -
    from s obtain x st where "cur g t = x # st" "cur g' = (cur g)(t := st)"
      by (auto simp: CaptureReturn_def bind_r_Inr_iff assert_r_Inr_iff Let_def)
    with that have "i \<in> set (cur g t')" by (auto split: if_splits)
    with sc show ?thesis by (auto simp: scopes_ok_def)
  qed
  show "live_scope g i" if "temp_cur_map g' k' = Some i" for k' i
    using that s sc
    by (auto simp: CaptureReturn_def bind_r_Inr_iff assert_r_Inr_iff Let_def scopes_ok_def)
qed

lemma add_step_graph_step:
  assumes core: "core_ok g" and sc: "scopes_ok g" and p: "scope g p"
    and a: "add_step p g = Inr g'"
  shows "graph_step g g'"
proof -
  note A = add_step_InrD[OF a core p]
  have "scopes_ok g'"
    using sc grows_live[OF A(2)] by (auto simp: A scopes_ok_def)
  with A show ?thesis by (simp add: graph_step_def)
qed

lemma graph_step_trans: "graph_step a b \<Longrightarrow> graph_step b c \<Longrightarrow> graph_step a c"
  by (auto simp: graph_step_def intro: grows_trans)

lemma graph_stepD:
  "graph_step g g' \<Longrightarrow> core_ok g'" "graph_step g g' \<Longrightarrow> scopes_ok g'"
  "graph_step g g' \<Longrightarrow> grows g g'" "graph_step g g' \<Longrightarrow> lca_tab g' = lca_tab g"
  by (simp_all add: graph_step_def)

lemma CaptureWait_step:
  assumes "core_ok g" and sc: "scopes_ok g" and s: "CaptureWait t g = Inr g'"
  shows "graph_step g g'"
  using assms add_step_graph_step top_cur_live live_scopeD
  by (metis (no_types, lifting) CaptureWait_def bind_r_InrE)

lemma CaptureWaitOnly_step:
  assumes core: "core_ok g" and sc: "scopes_ok g" and s: "CaptureWaitOnly t g = Inr g'"
  shows "graph_step g g'"
proof -
  from s obtain st c x where st: "cur g t = x # st" and
    top: "top_cur t (g\<lparr>cur := (cur g)(t := st)\<rparr>) = Inr c" and
    a: "add_step c (g\<lparr>cur := (cur g)(t := st)\<rparr>) = Inr g'"
    by (auto simp: CaptureWaitOnly_def bind_r_Inr_iff assert_r_Inr_iff Let_def)
  let ?h = "g\<lparr>cur := (cur g)(t := st)\<rparr>"
  have h: "graph_step g ?h"
  proof (rule graph_step_stacks[OF core])
    show "live_scope g i" if "i \<in> set (cur ?h t')" for t' i
      using that st sc by (auto simp: scopes_ok_def split: if_splits)
        (metis list.set_intros(2))
  qed (use sc in \<open>auto simp: scopes_ok_def\<close>)
  note D = graph_stepD[OF h]
  have "scope ?h c" by (rule live_scopeD[OF top_cur_live[OF D(2) top]])
  then have "graph_step ?h g'" by (rule add_step_graph_step[OF D(1,2) _ a])
  with h show ?thesis by (rule graph_step_trans)
qed

lemmas handler_steps = CaptureSetTaskId_step CaptureExecute_step CaptureReturn_step
  CaptureWait_step CaptureWaitOnly_step

text \<open>The constructor establishes the invariant.\<close>

lemma new_AFTaskGraph_ok:
  assumes "new_AFTaskGraph mmap_ok malloc_ok base tids = Inr g"
  shows "core_ok g" "scopes_ok g" "tidToTaskIdMap g = tids" "cur g = (\<lambda>_. [])(0 := [1])"
    "lca_tab g = snd (createHashTable malloc_ok)" "last_allocated_node g = 1"
    "tgraph_nodes g 1 = zero_task\<lparr>type := FINISH\<rparr>"
proof -
  have g: "g = (let g0 = upd_node 1 (\<lambda>n. n\<lparr>type := FINISH\<rparr>)
      (empty_graph base tids\<lparr>last_allocated_node := 1, cur := (\<lambda>_. [])(0 := [1])\<rparr>)
      in g0\<lparr>lca_tab := snd (createHashTable malloc_ok)\<rparr>)"
    using assms
    by (auto simp: new_AFTaskGraph_def create_node_def initialize_task_def empty_graph_def
        upd_node_def push_cur_def stack_push_def zero_task_def Let_def assert_r_Inr_iff
        bind_r_Inr_iff fun_eq_iff)
  show "core_ok g" "scopes_ok g" "tidToTaskIdMap g = tids" "cur g = (\<lambda>_. [])(0 := [1])"
    "lca_tab g = snd (createHashTable malloc_ok)" "last_allocated_node g = 1"
    "tgraph_nodes g 1 = zero_task\<lparr>type := FINISH\<rparr>"
    by (simp_all add: g Let_def core_ok_def tree_ok_def count_ok_def step_ok_def scopes_ok_def
        live_scope_def scope_def empty_graph_def zero_task_def NUM_GRAPH_NODES_def
        split: if_splits)
qed

text \<open>No counter of a node passes the number of nodes, far below 2^64.\<close>

lemma depth_less: "tree_ok nds n \<Longrightarrow> 1 \<le> i \<Longrightarrow> i \<le> n \<Longrightarrow> depth (nds i) < i"
proof (induction i rule: less_induct)
  case (less i)
  show ?case
  proof (cases "i = 1")
    case True
    with less.prems show ?thesis by (simp add: tree_ok_def)
  next
    case False
    with less.prems have p: "1 \<le> parent (nds i)" "parent (nds i) < i"
      "depth (nds i) = Suc (depth (nds (parent (nds i))))"
      by (auto simp: tree_ok_def)
    with less.IH[of "parent (nds i)"] less.prems show ?thesis by simp
  qed
qed

lemma counters_bounded:
  assumes core: "core_ok g" and i: "1 \<le> i" "i \<le> last_allocated_node g"
  shows "depth (tgraph_nodes g i) < NUM_GRAPH_NODES" "num_children (tgraph_nodes g i) < NUM_GRAPH_NODES"
    "i \<noteq> 1 \<Longrightarrow> seq_num (tgraph_nodes g i) < NUM_GRAPH_NODES"
proof -
  from core have t: "tree_ok (tgraph_nodes g) (last_allocated_node g)"
    and c: "count_ok (tgraph_nodes g) (last_allocated_node g)"
    and n: "last_allocated_node g < NUM_GRAPH_NODES" by (auto simp: core_ok_def)
  show "depth (tgraph_nodes g i) < NUM_GRAPH_NODES" using depth_less[OF t i] i n by simp
  have kids: "num_children (tgraph_nodes g j) \<le> last_allocated_node g"
    if "1 \<le> j" "j \<le> last_allocated_node g" for j
    using c that by (fastforce simp: count_ok_def)
  show "num_children (tgraph_nodes g i) < NUM_GRAPH_NODES" using kids[OF i] n by simp
  assume "i \<noteq> 1"
  then have "2 \<le> i" using i by simp
  with t c i have "seq_num (tgraph_nodes g i) < num_children (tgraph_nodes g (parent (tgraph_nodes g i)))"
    "1 \<le> parent (tgraph_nodes g i)" "parent (tgraph_nodes g i) < i"
    by (auto simp: tree_ok_def count_ok_def)
  with kids[of "parent (tgraph_nodes g i)"] i n show "seq_num (tgraph_nodes g i) < NUM_GRAPH_NODES"
    by simp
qed

end
