(* ===== verification/Tree_Order.thy ===== *)
theory Tree_Order
  imports Graph_Inv
begin

text \<open>
  The tree order of a well-formed task graph, stated without the loops of the code:
  \<open>anc nds d i\<close> is the ancestor of \<open>i\<close> at depth \<open>d\<close>, \<open>under nds a i\<close> says that \<open>i\<close> lies in
  the subtree of \<open>a\<close>, and \<open>fork nds a b l x y\<close> that the paths from the head to \<open>a\<close> and to \<open>b\<close>
  part at \<open>l\<close>, through its distinct children \<open>x\<close> and \<open>y\<close>. The climbing loops of \<open>LCA\<close>,
  \<open>rightmostNode\<close> and \<open>parallel\<close> return, and compute exactly this.
\<close>

section \<open>Ancestors\<close>

definition up :: "(nat \<Rightarrow> AFTask) \<Rightarrow> nat \<Rightarrow> nat \<Rightarrow> nat" where
  "up nds k i = ((\<lambda>j. parent (nds j)) ^^ k) i"

definition anc :: "(nat \<Rightarrow> AFTask) \<Rightarrow> nat \<Rightarrow> nat \<Rightarrow> nat" where
  "anc nds d i = up nds (depth (nds i) - d) i"

definition under :: "(nat \<Rightarrow> AFTask) \<Rightarrow> nat \<Rightarrow> nat \<Rightarrow> bool" where
  "under nds a i \<longleftrightarrow> depth (nds a) \<le> depth (nds i) \<and> anc nds (depth (nds a)) i = a"

definition node :: "nat \<Rightarrow> nat \<Rightarrow> bool" where
  "node n i \<longleftrightarrow> 1 \<le> i \<and> i \<le> n"

lemma up_0 [simp]: "up nds 0 i = i"
  by (simp add: up_def)

lemma up_Suc: "up nds (Suc k) i = up nds k (parent (nds i))"
  by (simp add: up_def funpow_Suc_right del: funpow.simps)

lemma up_add: "up nds (j + k) i = up nds j (up nds k i)"
  by (simp add: up_def funpow_add)

lemma tree_parent:
  assumes "tree_ok nds n" "node n i" "depth (nds i) \<noteq> 0"
  shows "node n (parent (nds i))" "parent (nds i) < i" "2 \<le> i"
    "depth (nds i) = Suc (depth (nds (parent (nds i))))" "type (nds (parent (nds i))) \<noteq> STEP"
proof -
  from assms have "2 \<le> i"
    by (cases "i = 1") (auto simp: tree_ok_def node_def)
  with assms show "node n (parent (nds i))" "parent (nds i) < i" "2 \<le> i"
    "depth (nds i) = Suc (depth (nds (parent (nds i))))" "type (nds (parent (nds i))) \<noteq> STEP"
    by (auto simp: tree_ok_def node_def)
qed

lemma tree_child:
  assumes "tree_ok nds n" "node n i" "2 \<le> i"
  shows "depth (nds i) = Suc (depth (nds (parent (nds i))))" "node n (parent (nds i))"
    "parent (nds i) < i"
  using assms by (auto simp: tree_ok_def node_def)

lemma depth_0_head: "tree_ok nds n \<Longrightarrow> node n i \<Longrightarrow> depth (nds i) = 0 \<Longrightarrow> i = 1"
  by (cases "i = 1") (auto simp: tree_ok_def node_def)

lemma anc_self [simp]: "anc nds (depth (nds i)) i = i"
  by (simp add: anc_def)

lemma anc_eq: "d = depth (nds i) \<Longrightarrow> anc nds d i = i"
  by simp

lemma anc_parent:
  assumes "tree_ok nds n" "node n i" "d < depth (nds i)"
  shows "anc nds d i = anc nds d (parent (nds i))"
proof -
  from assms have "depth (nds i) = Suc (depth (nds (parent (nds i))))"
    using tree_parent(4)[OF assms(1,2)] by simp
  with assms(3) show ?thesis by (simp add: anc_def Suc_diff_le up_Suc)
qed

lemma anc_ok:
  assumes "tree_ok nds n"
  shows "node n i \<Longrightarrow> d \<le> depth (nds i) \<Longrightarrow> node n (anc nds d i) \<and> depth (nds (anc nds d i)) = d"
proof (induction "depth (nds i) - d" arbitrary: i)
  case 0
  then have "d = depth (nds i)" by simp
  with 0 show ?case by simp
next
  case (Suc k)
  then have d: "d < depth (nds i)" by simp
  note P = tree_parent[OF assms Suc.prems(1)]
  from d P(4) have "k = depth (nds (parent (nds i))) - d" "d \<le> depth (nds (parent (nds i)))"
    using Suc.hyps(2) by simp_all
  with Suc.hyps(1) P(1) d show ?case
    using anc_parent[OF assms Suc.prems(1) d] by simp
qed

lemma anc_anc:
  assumes t: "tree_ok nds n"
  shows "node n i \<Longrightarrow> d \<le> e \<Longrightarrow> e \<le> depth (nds i) \<Longrightarrow> anc nds d (anc nds e i) = anc nds d i"
proof (induction "depth (nds i) - e" arbitrary: i)
  case 0
  then have "e = depth (nds i)" by simp
  then show ?case by simp
next
  case (Suc k)
  then have e: "e < depth (nds i)" by simp
  note P = tree_parent[OF t Suc.prems(1)]
  from e P(4) have "k = depth (nds (parent (nds i))) - e" "e \<le> depth (nds (parent (nds i)))"
    using Suc.hyps(2) by simp_all
  with Suc.hyps(1) P(1) e Suc.prems(2) show ?case
    using anc_parent[OF t Suc.prems(1) e] anc_parent[OF t Suc.prems(1), of d] by simp
qed

lemma anc_head: "tree_ok nds n \<Longrightarrow> node n i \<Longrightarrow> anc nds 0 i = 1"
  using anc_ok depth_0_head by blast

section \<open>Subtrees\<close>

lemma under_refl [simp, intro]: "under nds i i"
  by (simp add: under_def)

lemma under_depth: "under nds a i \<Longrightarrow> depth (nds a) \<le> depth (nds i)"
  by (simp add: under_def)

lemma under_anc:
  "tree_ok nds n \<Longrightarrow> node n i \<Longrightarrow> d \<le> depth (nds i) \<Longrightarrow> under nds (anc nds d i) i"
  by (simp add: under_def anc_ok)

lemma under_node: "tree_ok nds n \<Longrightarrow> node n i \<Longrightarrow> under nds a i \<Longrightarrow> node n a"
  using anc_ok by (metis under_def)

lemma under_trans:
  assumes "tree_ok nds n" "node n i" "under nds a b" "under nds b i"
  shows "under nds a i"
proof -
  have "anc nds (depth (nds a)) i = anc nds (depth (nds a)) (anc nds (depth (nds b)) i)"
    using assms by (subst anc_anc) (auto simp: under_def)
  with assms show ?thesis by (simp add: under_def)
qed

lemma under_same_depth:
  "under nds a i \<Longrightarrow> under nds b i \<Longrightarrow> depth (nds a) = depth (nds b) \<Longrightarrow> a = b"
  by (auto simp: under_def)

lemma under_linear:
  assumes "tree_ok nds n" "node n i" "under nds a i" "under nds b i"
    and "depth (nds a) \<le> depth (nds b)"
  shows "under nds a b"
proof -
  have "anc nds (depth (nds a)) b = anc nds (depth (nds a)) i"
    using assms anc_anc[OF assms(1,2), of "depth (nds a)" "depth (nds b)"]
    by (auto simp: under_def)
  with assms show ?thesis by (simp add: under_def)
qed

lemma under_antisym: "under nds a b \<Longrightarrow> under nds b a \<Longrightarrow> a = b"
  by (metis anc_self le_antisym under_def)

lemma under_parent:
  assumes "tree_ok nds n" "node n i" "2 \<le> i"
  shows "under nds (parent (nds i)) i"
  using tree_child[OF assms] anc_parent[OF assms(1,2), of "depth (nds (parent (nds i)))"]
  by (simp add: under_def)

lemma under_step:
  assumes "tree_ok nds n" "node n i" "under nds a i" "a \<noteq> i"
  shows "under nds a (parent (nds i))" "2 \<le> i"
proof -
  have "depth (nds a) \<noteq> depth (nds i)"
    using assms(3,4) by (auto simp: under_def)
  with assms(3) have d: "depth (nds a) < depth (nds i)" by (simp add: under_def)
  then show "2 \<le> i" using tree_parent(3)[OF assms(1,2)] by simp
  show "under nds a (parent (nds i))"
    using d assms(3) tree_parent(4)[OF assms(1,2)] anc_parent[OF assms(1,2) d]
    by (simp add: under_def)
qed

text \<open>Nothing lies below a step.\<close>

lemma under_STEP:
  assumes t: "tree_ok nds n" and "type (nds a) = STEP"
  shows "node n i \<Longrightarrow> under nds a i \<Longrightarrow> i = a"
proof (induction i rule: less_induct)
  case (less i)
  show ?case
  proof (rule ccontr)
    assume "i \<noteq> a"
    with less.prems have u: "under nds a (parent (nds i))" and i: "2 \<le> i"
      using under_step[OF t less.prems(1,2)] by auto
    note C = tree_child[OF t less.prems(1) i]
    from less.IH[OF C(3,2) u] have "parent (nds i) = a" .
    moreover have "type (nds (parent (nds i))) \<noteq> STEP"
      using t less.prems(1) i by (auto simp: tree_ok_def node_def)
    ultimately show False using assms(2) by simp
  qed
qed

section \<open>Where two paths part\<close>

definition sibs :: "(nat \<Rightarrow> AFTask) \<Rightarrow> nat \<Rightarrow> nat \<Rightarrow> nat \<Rightarrow> bool" where
  "sibs nds n x y \<longleftrightarrow> 2 \<le> x \<and> x \<le> n \<and> 2 \<le> y \<and> y \<le> n \<and> x \<noteq> y \<and>
     parent (nds x) = parent (nds y)"

definition fork :: "(nat \<Rightarrow> AFTask) \<Rightarrow> nat \<Rightarrow> nat \<Rightarrow> nat \<Rightarrow> nat \<Rightarrow> nat \<Rightarrow> nat \<Rightarrow> bool" where
  "fork nds n a b l x y \<longleftrightarrow>
     sibs nds n x y \<and> parent (nds x) = l \<and> under nds x a \<and> under nds y b"

lemma sibs_sym: "sibs nds n x y \<Longrightarrow> sibs nds n y x"
  by (auto simp: sibs_def)

lemma fork_sym: "fork nds n a b l x y \<Longrightarrow> fork nds n b a l y x"
  by (auto simp: fork_def sibs_def)

lemma sibs_node: "sibs nds n x y \<Longrightarrow> node n x" "sibs nds n x y \<Longrightarrow> node n y"
  by (auto simp: sibs_def node_def)

lemma sibs_seq: "tree_ok nds n \<Longrightarrow> sibs nds n x y \<Longrightarrow> seq_num (nds x) \<noteq> seq_num (nds y)"
  unfolding tree_ok_def sibs_def by (metis less_irrefl linorder_neqE_nat)

lemma sibs_depth:
  "tree_ok nds n \<Longrightarrow> sibs nds n x y \<Longrightarrow> depth (nds x) = depth (nds y)"
  by (auto simp: tree_ok_def sibs_def)

lemma fork_facts:
  assumes t: "tree_ok nds n" and f: "fork nds n a b l x y" and a: "node n a" and b: "node n b"
  shows "node n l" "under nds l a" "under nds l b" "\<not> under nds x b" "\<not> under nds y a"
    "depth (nds x) = Suc (depth (nds l))" "depth (nds y) = Suc (depth (nds l))"
    "\<not> under nds a b" "\<not> under nds b a" "a \<noteq> b"
proof -
  from f have s: "sibs nds n x y" and xl: "parent (nds x) = l" and yl: "parent (nds y) = l"
    and xa: "under nds x a" and yb: "under nds y b" by (auto simp: fork_def sibs_def)
  note X = tree_child[OF t sibs_node(1)[OF s]] and Y = tree_child[OF t sibs_node(2)[OF s]]
  from s have 2: "2 \<le> x" "2 \<le> y" and ne: "x \<noteq> y" by (auto simp: sibs_def)
  show "node n l" "depth (nds x) = Suc (depth (nds l))" "depth (nds y) = Suc (depth (nds l))"
    using X[OF 2(1)] Y[OF 2(2)] xl yl by auto
  show "under nds l a"
    using under_trans[OF t a under_parent[OF t sibs_node(1)[OF s] 2(1)] xa] xl by simp
  show "under nds l b"
    using under_trans[OF t b under_parent[OF t sibs_node(2)[OF s] 2(2)] yb] yl by simp
  show xb: "\<not> under nds x b" using under_same_depth yb ne sibs_depth[OF t s] by metis
  show ya: "\<not> under nds y a" using under_same_depth xa ne sibs_depth[OF t s] by metis
  show "\<not> under nds a b" using under_trans[OF t b xa] xb by blast
  show "\<not> under nds b a" using under_trans[OF t a yb] ya by blast
  then show "a \<noteq> b" by auto
qed

lemma fork_unique:
  assumes t: "tree_ok nds n" and a: "node n a" and b: "node n b"
    and f: "fork nds n a b l x y" and f': "fork nds n a b l' x' y'"
  shows "l' = l \<and> x' = x \<and> y' = y"
proof -
  note F = fork_facts[OF t f a b] and F' = fork_facts[OF t f' a b]
  have d: "\<not> depth (nds l1) < depth (nds l2)"
    if f1: "fork nds n a b l1 x1 y1" and f2: "fork nds n a b l2 x2 y2" for l1 l2 x1 x2 y1 y2
  proof
    note F1 = fork_facts[OF t f1 a b] and F2 = fork_facts[OF t f2 a b]
    assume "depth (nds l1) < depth (nds l2)"
    with F1(6) have "depth (nds x1) \<le> depth (nds l2)" by simp
    moreover have "under nds x1 a" using f1 by (simp add: fork_def)
    ultimately have "under nds x1 l2" using under_linear[OF t a _ F2(2)] by blast
    then have "under nds x1 b" using under_trans[OF t b _ F2(3)] by blast
    with F1(4) show False ..
  qed
  from d[OF f f'] d[OF f' f] have dl: "depth (nds l') = depth (nds l)" by simp
  then have "l' = l" using under_same_depth F(2) F'(2) by blast
  moreover have "x' = x"
    using under_same_depth[of nds x' a x] f f' dl F(6) F'(6) by (simp add: fork_def)
  moreover have "y' = y"
    using under_same_depth[of nds y' b y] f f' dl F(7) F'(7) by (simp add: fork_def)
  ultimately show ?thesis by simp
qed

text \<open>The node two paths part at is their lowest common ancestor.\<close>

lemma fork_lowest:
  assumes t: "tree_ok nds n" and a: "node n a" and b: "node n b"
    and f: "fork nds n a b l x y" and m: "under nds m a" "under nds m b"
  shows "under nds m l"
proof -
  note F = fork_facts[OF t f a b]
  have "\<not> depth (nds l) < depth (nds m)"
  proof
    assume "depth (nds l) < depth (nds m)"
    with F(6) have "depth (nds x) \<le> depth (nds m)" by simp
    moreover have "under nds x a" using f by (simp add: fork_def)
    ultimately have "under nds x m" using under_linear[OF t a _ m(1)] by blast
    then have "under nds x b" using under_trans[OF t b _ m(2)] by blast
    with F(4) show False ..
  qed
  then show ?thesis using under_linear[OF t a m(1) F(2)] by simp
qed

section \<open>The loops\<close>

lemma climb_anc:
  assumes t: "tree_ok nds n"
  shows "node n i \<Longrightarrow> d \<le> depth (nds i) \<Longrightarrow>
    climb nds d i prev = Some (anc nds d i,
      if d = depth (nds i) then prev else Some (anc nds (Suc d) i))"
proof (induction "depth (nds i) - d" arbitrary: i prev)
  case 0
  then have "d = depth (nds i)" by simp
  then show ?case by (simp add: climb.simps)
next
  case (Suc k)
  then have d: "d < depth (nds i)" by simp
  note P = tree_parent[OF t Suc.prems(1)]
  from d P(4) have k: "k = depth (nds (parent (nds i))) - d" "d \<le> depth (nds (parent (nds i)))"
    using Suc.hyps(2) by simp_all
  have c: "climb nds d i prev = climb nds d (parent (nds i)) (Some i)"
    using d by (simp add: climb.simps[of nds d i prev])
  have "anc nds (Suc d) i = i" if "d = depth (nds (parent (nds i)))"
    using that d P(4) anc_self[of nds i] by simp
  moreover have "anc nds (Suc d) i = anc nds (Suc d) (parent (nds i))"
    if "d < depth (nds (parent (nds i)))"
    using that d P(4) anc_parent[OF t Suc.prems(1), of "Suc d"] by simp
  ultimately show ?case
    using Suc.hyps(1)[OF k(1) _ k(2), of "Some i"] P(1) d anc_parent[OF t Suc.prems(1) d] k(2)
    by (auto simp: c)
qed

lemma lca_climb_anc:
  assumes t: "tree_ok nds n"
  shows "node n i \<Longrightarrow> d \<le> depth (nds i) \<Longrightarrow> lca_climb nds d i = Some (anc nds d i)"
proof (induction "depth (nds i) - d" arbitrary: i)
  case 0
  then have "d = depth (nds i)" by simp
  then show ?case by (simp add: lca_climb.simps)
next
  case (Suc k)
  then have d: "d < depth (nds i)" by simp
  note P = tree_parent[OF t Suc.prems(1)]
  from d P(4) have "k = depth (nds (parent (nds i))) - d" "d \<le> depth (nds (parent (nds i)))"
    using Suc.hyps(2) by simp_all
  with Suc.hyps(1) P(1) d show ?case
    using anc_parent[OF t Suc.prems(1) d] by (simp add: lca_climb.simps[of nds d i])
qed

text \<open>
  \<open>meet\<close> from two nodes of the same depth: it returns their common ancestor, and on each side
  the last node below it.
\<close>

lemma meet_fork:
  assumes t: "tree_ok nds n"
  shows "node n c \<Longrightarrow> node n r \<Longrightarrow> depth (nds c) = depth (nds r) \<Longrightarrow> c \<noteq> r \<Longrightarrow>
    \<exists>l x y. meet nds c pc r pr = Some (l, Some x, Some y) \<and> fork nds n c r l x y"
proof (induction "depth (nds c)" arbitrary: c r pc pr)
  case 0
  then show ?case using depth_0_head[OF t] by metis
next
  case (Suc d)
  have dc: "depth (nds c) \<noteq> 0" and dr: "depth (nds r) \<noteq> 0" using Suc.hyps(2) Suc.prems by auto
  note P = tree_parent[OF t Suc.prems(1) dc] and Q = tree_parent[OF t Suc.prems(2) dr]
  have m: "meet nds c pc r pr = meet nds (parent (nds c)) (Some c) (parent (nds r)) (Some r)"
    using Suc.prems(4) by (simp add: meet.simps[of nds c pc r pr])
  show ?case
  proof (cases "parent (nds c) = parent (nds r)")
    case True
    then have "meet nds c pc r pr = Some (parent (nds c), Some c, Some r)"
      by (simp add: m meet.simps[of nds "parent (nds r)"])
    moreover have "fork nds n c r (parent (nds c)) c r"
      using True Suc.prems P(3) Q(3) by (simp add: fork_def sibs_def node_def)
    ultimately show ?thesis by blast
  next
    case False
    have "d = depth (nds (parent (nds c)))" "depth (nds (parent (nds c))) = depth (nds (parent (nds r)))"
      using Suc.hyps(2) Suc.prems(3) P(4) Q(4) by simp_all
    from Suc.hyps(1)[OF this(1) P(1) Q(1) this(2) False, of "Some c" "Some r"]
    obtain l x y where e: "meet nds c pc r pr = Some (l, Some x, Some y)"
      and f: "fork nds n (parent (nds c)) (parent (nds r)) l x y" by (auto simp: m)
    have "under nds x c" "under nds y r"
      using f under_trans[OF t Suc.prems(1) _ under_parent[OF t Suc.prems(1) P(3)]]
        under_trans[OF t Suc.prems(2) _ under_parent[OF t Suc.prems(2) Q(3)]]
      by (auto simp: fork_def)
    with f e show ?thesis by (auto simp: fork_def)
  qed
qed

lemma meet_same: "meet nds c pc c pr = Some (c, pc, pr)"
  by (simp add: meet.simps)

lemma lca_meet_meet:
  assumes t: "tree_ok nds n"
  shows "node n c \<Longrightarrow> node n r \<Longrightarrow> depth (nds c) = depth (nds r) \<Longrightarrow>
    lca_meet nds c r = map_option fst (meet nds c pc r pr)"
proof (induction "depth (nds c)" arbitrary: c r pc pr)
  case 0
  then have "c = r" using depth_0_head[OF t] by metis
  then show ?case by (simp add: meet_same lca_meet.simps)
next
  case (Suc d)
  have dc: "depth (nds c) \<noteq> 0" and dr: "depth (nds r) \<noteq> 0" using Suc.hyps(2) Suc.prems by auto
  note P = tree_parent[OF t Suc.prems(1) dc] and Q = tree_parent[OF t Suc.prems(2) dr]
  show ?case
  proof (cases "r = c")
    case True
    then show ?thesis by (simp add: meet_same lca_meet.simps)
  next
    case False
    have "d = depth (nds (parent (nds c)))"
      "depth (nds (parent (nds c))) = depth (nds (parent (nds r)))"
      using Suc.hyps(2) Suc.prems(3) P(4) Q(4) by simp_all
    from Suc.hyps(1)[OF this(1) P(1) Q(1) this(2), of "Some c" "Some r"] False
    show ?thesis by (simp add: lca_meet.simps[of nds c r] meet.simps[of nds c pc r pr])
  qed
qed

text \<open>
  Two nodes of which neither lies below the other: \<open>parallel\<close> and \<open>rightmostNode\<close> reach the
  fork of their paths, both remembered nodes set.
\<close>

lemma walk_up_fork:
  assumes t: "tree_ok nds n" and a: "node n a" and b: "node n b"
    and "\<not> under nds a b" "\<not> under nds b a"
  obtains l x y where "walk_up nds a b = Inr (l, Some x, Some y)" and "fork nds n a b l x y"
proof -
  let ?d = "min (depth (nds a)) (depth (nds b))"
  let ?a = "anc nds ?d a" and ?b = "anc nds ?d b"
  have A: "node n ?a" "depth (nds ?a) = ?d" "under nds ?a a"
    using anc_ok[OF t a, of ?d] under_anc[OF t a, of ?d] by auto
  have B: "node n ?b" "depth (nds ?b) = ?d" "under nds ?b b"
    using anc_ok[OF t b, of ?d] under_anc[OF t b, of ?d] by auto
  have ne: "?a \<noteq> ?b"
  proof
    assume e: "?a = ?b"
    show False
    proof (cases "depth (nds a) \<le> depth (nds b)")
      case True
      then have "?a = a" by simp
      with e B(3) assms(4) show False by simp
    next
      case False
      then have "?b = b" by simp
      with e A(3) assms(5) show False by simp
    qed
  qed
  define pa where "pa = (if depth (nds b) < depth (nds a) then Some (anc nds (Suc ?d) a) else None)"
  define pb where "pb = (if depth (nds a) < depth (nds b) then Some (anc nds (Suc ?d) b) else None)"
  have w: "walk_up nds a b = returns_r (meet nds ?a pa ?b pb)"
    using climb_anc[OF t a, of ?d None] climb_anc[OF t b, of ?d None] a b
    by (auto simp: walk_up_def node_def pa_def pb_def min_def anc_eq)
  from meet_fork[OF t A(1) B(1) _ ne, of pa pb] A(2) B(2)
  obtain l x y where m: "meet nds ?a pa ?b pb = Some (l, Some x, Some y)"
    and f: "fork nds n ?a ?b l x y" by auto
  have "fork nds n a b l x y"
    using f under_trans[OF t a _ A(3)] under_trans[OF t b _ B(3)] by (auto simp: fork_def)
  with w m that show thesis by simp
qed

lemma fork_exists:
  assumes "tree_ok nds n" "node n a" "node n b" "\<not> under nds a b" "\<not> under nds b a"
  obtains l x y where "fork nds n a b l x y"
  using walk_up_fork[OF assms] by metis

text \<open>The loops of \<open>LCA\<close> end at a lowest common ancestor, whatever two nodes they start from.\<close>

definition is_lca :: "(nat \<Rightarrow> AFTask) \<Rightarrow> nat \<Rightarrow> nat \<Rightarrow> nat \<Rightarrow> nat \<Rightarrow> bool" where
  "is_lca nds n a b l \<longleftrightarrow> node n l \<and> under nds l a \<and> under nds l b \<and>
     (\<forall>m. under nds m a \<and> under nds m b \<longrightarrow> under nds m l)"

lemma fork_is_lca:
  assumes "tree_ok nds n" "node n a" "node n b" "fork nds n a b l x y"
  shows "is_lca nds n a b l"
  using fork_facts(1,2,3)[OF assms(1,4,2,3)] fork_lowest[OF assms] by (simp add: is_lca_def)

lemma is_lca_unique: "is_lca nds n a b l \<Longrightarrow> is_lca nds n a b m \<Longrightarrow> l = m"
  unfolding is_lca_def by (meson under_antisym)

lemma lca_walk_correct:
  assumes t: "tree_ok nds n" and a: "node n a" and b: "node n b"
  obtains l where "lca_walk nds a b = Inr l" and "is_lca nds n a b l"
proof -
  let ?d = "min (depth (nds a)) (depth (nds b))"
  let ?a = "anc nds ?d a" and ?b = "anc nds ?d b"
  have A: "node n ?a" "depth (nds ?a) = ?d" "under nds ?a a"
    using anc_ok[OF t a, of ?d] under_anc[OF t a, of ?d] by auto
  have B: "node n ?b" "depth (nds ?b) = ?d" "under nds ?b b"
    using anc_ok[OF t b, of ?d] under_anc[OF t b, of ?d] by auto
  have w: "lca_walk nds a b = returns_r (lca_meet nds ?a ?b)"
    using lca_climb_anc[OF t a, of ?d] lca_climb_anc[OF t b, of ?d] a b
    by (auto simp: lca_walk_def node_def min_def anc_eq)
  show thesis
  proof (cases "?a = ?b")
    case True
    have below: "under nds m ?a" if m: "under nds m a" "under nds m b" for m
      using under_linear[OF t a m(1) A(3)] under_depth[OF m(1)] under_depth[OF m(2)] A(2) by simp
    have "is_lca nds n a b ?a"
      using A B True below by (auto simp: is_lca_def)
    moreover have "lca_walk nds a b = Inr ?a" using w True by (simp add: lca_meet.simps)
    ultimately show thesis using that by blast
  next
    case False
    from meet_fork[OF t A(1) B(1) _ False, of None None] A(2) B(2)
    obtain l x y where m: "meet nds ?a None ?b None = Some (l, Some x, Some y)"
      and f: "fork nds n ?a ?b l x y" by auto
    have "fork nds n a b l x y"
      using f under_trans[OF t a _ A(3)] under_trans[OF t b _ B(3)] by (auto simp: fork_def)
    moreover have "lca_walk nds a b = Inr l"
      using w lca_meet_meet[OF t A(1) B(1), of None None] m A(2) B(2) by simp
    ultimately show thesis using that fork_is_lca[OF t a b] by blast
  qed
qed

section \<open>The tree order does not see later growth\<close>

lemma same_shape_anc:
  assumes t: "tree_ok nds n" and s: "same_shape nds nds' n"
  shows "node n i \<Longrightarrow> d \<le> depth (nds i) \<Longrightarrow> anc nds' d i = anc nds d i"
proof (induction "depth (nds i) - d" arbitrary: i)
  case 0
  then have d: "d = depth (nds i)" by simp
  with s 0 have "depth (nds' i) = d" by (auto simp: same_shape_def node_def)
  then have "anc nds' d i = i" using anc_self[of nds' i] by simp
  with d show ?case by simp
next
  case (Suc k)
  then have d: "d < depth (nds i)" by simp
  note P = tree_parent[OF t Suc.prems(1)]
  have k: "k = depth (nds (parent (nds i))) - d" "d \<le> depth (nds (parent (nds i)))"
    using Suc.hyps(2) P(4) d by simp_all
  have e: "depth (nds' i) = depth (nds i)" "parent (nds' i) = parent (nds i)"
    "depth (nds' (parent (nds i))) = depth (nds (parent (nds i)))"
    using s Suc.prems(1) P(1) d by (auto simp: same_shape_def node_def)
  have "anc nds' d i = anc nds' d (parent (nds i))"
    using e d P(4) by (simp add: anc_def up_Suc Suc_diff_le)
  with Suc.hyps(1)[OF k(1) _ k(2)] P(1) d show ?case
    using anc_parent[OF t Suc.prems(1) d] by simp
qed

lemma same_shape_under:
  assumes "tree_ok nds n" "same_shape nds nds' n" "node n a" "node n i"
  shows "under nds' a i = under nds a i"
  using same_shape_anc[OF assms(1,2,4)] assms(2-4)
  by (auto simp: under_def same_shape_def node_def)

lemma same_shape_fork:
  assumes t: "tree_ok nds n" and s: "same_shape nds nds' n" and nm: "n \<le> m"
    and a: "node n a" and b: "node n b" and f: "fork nds n a b l x y"
  shows "fork nds' m a b l x y"
proof -
  from f have "node n x" "node n y" by (auto simp: fork_def sibs_def node_def)
  then show ?thesis
    using f s nm same_shape_under[OF t s _ a] same_shape_under[OF t s _ b]
    by (auto simp: fork_def sibs_def same_shape_def node_def)
qed

end
