(* ===== verification/Happens_Before.thy ===== *)
theory Happens_Before
  imports Tree_Order
begin

text \<open>
  What it means for two steps to run in parallel, stated independently of the algorithm. A
  node of the tree begins and ends; the edges of \<open>hb_edge\<close> are the orderings an async-finish
  program enforces: a node begins before it ends and after its parent begins; the children of
  a node begin in order; a child that is not asynchronous ends before the next one begins and
  before its parent ends; and everything below a \<open>FINISH\<close> node ends before that node does.
  One step happens before another when a path of such orderings leads from its end to the
  other's beginning, and two steps may run in parallel when neither happens before the other.

  The theorem of this theory, \<open>fork_mhp\<close>, is the reading the code relies on: it suffices to
  look at the two children of the common ancestor through which the paths leave it, and at
  whether the one spawned first is asynchronous.
\<close>

datatype event = Beg nat | End nat

inductive hb_edge :: "(nat \<Rightarrow> AFTask) \<Rightarrow> nat \<Rightarrow> event \<Rightarrow> event \<Rightarrow> bool"
  for nds :: "nat \<Rightarrow> AFTask" and n :: nat where
  body: "node n i \<Longrightarrow> hb_edge nds n (Beg i) (End i)"
| first: "node n i \<Longrightarrow> 2 \<le> i \<Longrightarrow> hb_edge nds n (Beg (parent (nds i))) (Beg i)"
| spawn: "sibs nds n x y \<Longrightarrow> seq_num (nds x) < seq_num (nds y) \<Longrightarrow> hb_edge nds n (Beg x) (Beg y)"
| sync: "sibs nds n x y \<Longrightarrow> seq_num (nds x) < seq_num (nds y) \<Longrightarrow> type (nds x) \<noteq> ASYNC \<Longrightarrow>
    hb_edge nds n (End x) (Beg y)"
| ret: "node n i \<Longrightarrow> 2 \<le> i \<Longrightarrow> type (nds i) \<noteq> ASYNC \<Longrightarrow>
    hb_edge nds n (End i) (End (parent (nds i)))"
| join: "node n i \<Longrightarrow> type (nds f) = FINISH \<Longrightarrow> under nds f i \<Longrightarrow> hb_edge nds n (End i) (End f)"

inductive_cases Beg_edgeE [consumes 1, case_names body first spawn]: "hb_edge nds n (Beg z) e"
inductive_cases End_edgeE [consumes 1, case_names sync ret join]: "hb_edge nds n (End z) e"

definition hb :: "(nat \<Rightarrow> AFTask) \<Rightarrow> nat \<Rightarrow> nat \<Rightarrow> nat \<Rightarrow> bool" where
  "hb nds n s t \<longleftrightarrow> (hb_edge nds n)\<^sup>*\<^sup>* (End s) (Beg t)"

definition mhp :: "(nat \<Rightarrow> AFTask) \<Rightarrow> nat \<Rightarrow> nat \<Rightarrow> nat \<Rightarrow> bool" where
  "mhp nds n s t \<longleftrightarrow> \<not> hb nds n s t \<and> \<not> hb nds n t s"

lemma hb_trans: "node n t \<Longrightarrow> hb nds n s t \<Longrightarrow> hb nds n t u \<Longrightarrow> hb nds n s u"
  unfolding hb_def by (meson hb_edge.body rtranclp.rtrancl_into_rtrancl rtranclp_trans)

lemma mhp_sym: "mhp nds n s t = mhp nds n t s"
  by (auto simp: mhp_def)

section \<open>Paths that exist\<close>

lemma beg_chain:
  assumes t: "tree_ok nds n"
  shows "node n i \<Longrightarrow> under nds a i \<Longrightarrow> (hb_edge nds n)\<^sup>*\<^sup>* (Beg a) (Beg i)"
proof (induction i rule: less_induct)
  case (less i)
  show ?case
  proof (cases "i = a")
    case False
    then have u: "under nds a (parent (nds i))" "2 \<le> i"
      using under_step[OF t less.prems] by auto
    note C = tree_child[OF t less.prems(1) u(2)]
    from less.IH[OF C(3,2) u(1)] hb_edge.first[OF less.prems(1) u(2)]
    show ?thesis by (rule rtranclp.rtrancl_into_rtrancl)
  qed simp
qed

lemma left_sync_hb:
  assumes t: "tree_ok nds n" and s: "node n s" "type (nds s) = STEP" and u: "node n u"
    and f: "fork nds n s u l x y" and lt: "seq_num (nds x) < seq_num (nds y)"
    and na: "type (nds x) \<noteq> ASYNC"
  shows "hb nds n s u"
proof -
  from f have sb: "sibs nds n x y" and xs: "under nds x s" and yu: "under nds y u"
    by (auto simp: fork_def)
  have "(hb_edge nds n)\<^sup>*\<^sup>* (End s) (End x)"
  proof (cases "s = x")
    case False
    have "type (nds x) \<noteq> STEP" using under_STEP[OF t _ s(1) xs] False by blast
    moreover have "type (nds x) \<noteq> NO_TYPE" using t sb by (auto simp: tree_ok_def sibs_def)
    ultimately have "type (nds x) = FINISH" using na by (cases "type (nds x)") auto
    then show ?thesis using hb_edge.join[OF s(1) _ xs] by blast
  qed simp
  also have "hb_edge nds n (End x) (Beg y)" using sb lt na by (rule hb_edge.sync)
  also have "(hb_edge nds n)\<^sup>*\<^sup>* (Beg y) (Beg u)" using beg_chain[OF t u yu] .
  finally show ?thesis by (simp add: hb_def)
qed

section \<open>Paths that do not exist\<close>

text \<open>
  \<open>later nds n m z\<close>: \<open>z\<close> lies below a younger sibling of \<open>m\<close> or of an ancestor of \<open>m\<close>. These
  nodes, and the ends of the ancestors of \<open>m\<close>, are all that can follow the end of an
  ancestor.
\<close>

definition later :: "(nat \<Rightarrow> AFTask) \<Rightarrow> nat \<Rightarrow> nat \<Rightarrow> nat \<Rightarrow> bool" where
  "later nds n m z \<longleftrightarrow> (\<exists>p q. under nds p m \<and> sibs nds n p q \<and>
     seq_num (nds p) < seq_num (nds q) \<and> under nds q z \<and> node n z)"

lemma laterI:
  "under nds p m \<Longrightarrow> sibs nds n p q \<Longrightarrow> seq_num (nds p) < seq_num (nds q) \<Longrightarrow> under nds q z
    \<Longrightarrow> node n z \<Longrightarrow> later nds n m z"
  by (auto simp: later_def)

lemma later_not_under:
  assumes "tree_ok nds n" "node n z" "later nds n m z" "under nds m z"
  shows False
proof -
  from assms(3) obtain p q where p: "under nds p m" "sibs nds n p q" "under nds q z"
    by (auto simp: later_def)
  have "under nds p z" by (rule under_trans[OF assms(1,2) p(1) assms(4)])
  with p assms(1) have "p = q" using under_same_depth sibs_depth by blast
  with p(2) show False by (simp add: sibs_def)
qed

lemma later_child:
  "tree_ok nds n \<Longrightarrow> node n w \<Longrightarrow> 2 \<le> w \<Longrightarrow> later nds n m (parent (nds w)) \<Longrightarrow> later nds n m w"
  unfolding later_def by (meson under_parent under_trans)

lemma later_sib:
  assumes t: "tree_ok nds n" and z: "later nds n m z" and s: "sibs nds n z w"
    and lt: "seq_num (nds z) < seq_num (nds w)"
  shows "later nds n m w"
proof -
  from z obtain p q where p: "under nds p m" "sibs nds n p q" "seq_num (nds p) < seq_num (nds q)"
    "under nds q z" by (auto simp: later_def)
  have w: "node n w" "2 \<le> w" "parent (nds w) = parent (nds z)"
    using s by (auto simp: sibs_def node_def)
  show ?thesis
  proof (cases "q = z")
    case True
    with p lt s have "sibs nds n p w" "seq_num (nds p) < seq_num (nds w)"
      by (auto simp: sibs_def)
    with p(1) w(1) show ?thesis using laterI under_refl by blast
  next
    case False
    then have "under nds q (parent (nds w))"
      using under_step(1)[OF t sibs_node(1)[OF s] p(4)] w(3) by simp
    then have "under nds q w" using under_trans[OF t w(1) _ under_parent[OF t w(1,2)]] by blast
    with p w(1) show ?thesis using laterI by blast
  qed
qed

text \<open>The end of a later node leads to later nodes and to the ends of proper ancestors only.\<close>

lemma later_up:
  assumes t: "tree_ok nds n" and m: "node n m" and z: "later nds n m z"
    and f: "under nds f z"
  shows "later nds n m f \<or> (under nds f m \<and> f \<noteq> m)"
proof -
  from z obtain p q where p: "under nds p m" "sibs nds n p q" "seq_num (nds p) < seq_num (nds q)"
    "under nds q z" and nz: "node n z" by (auto simp: later_def)
  show ?thesis
  proof (cases "depth (nds q) \<le> depth (nds f)")
    case True
    then have "under nds q f" using under_linear[OF t nz p(4) f] by blast
    with p show ?thesis using laterI under_node[OF t nz f] by blast
  next
    case False
    then have "under nds f q" "f \<noteq> q" using under_linear[OF t nz f p(4)] by auto
    then have "under nds f (parent (nds q))"
      using under_step(1)[OF t sibs_node(2)[OF p(2)]] by blast
    moreover have "parent (nds q) = parent (nds p)" "2 \<le> p" using p(2) by (auto simp: sibs_def)
    ultimately have "under nds f p"
      using under_trans[OF t sibs_node(1)[OF p(2)] _ under_parent[OF t sibs_node(1)[OF p(2)]]]
      by simp
    moreover have "depth (nds p) = depth (nds q)" using sibs_depth[OF t p(2)] .
    ultimately show ?thesis
      using under_trans[OF t m _ p(1)] False under_depth[OF p(1)] by auto
  qed
qed

lemma anc_end_edge:
  assumes t: "tree_ok nds n" and m: "node n m" and z: "under nds z m"
    and e: "hb_edge nds n (End z) e"
  shows "(\<exists>w. e = Beg w \<and> later nds n m w) \<or> (\<exists>w. e = End w \<and> under nds w z)"
  using e
proof (cases rule: End_edgeE)
  case (sync y)
  then show ?thesis using z laterI[OF z _ _ under_refl] sibs_node(2) by blast
next
  case ret
  then show ?thesis using under_parent[OF t] by blast
next
  case (join f)
  then show ?thesis by blast
qed

lemma later_beg_edge:
  assumes t: "tree_ok nds n" and z: "later nds n m z" and e: "hb_edge nds n (Beg z) e"
  shows "\<exists>w. (e = Beg w \<or> e = End w) \<and> later nds n m w"
  using e
proof (cases rule: Beg_edgeE)
  case body
  with z show ?thesis by blast
next
  case (first i)
  with z show ?thesis using later_child[OF t] by blast
next
  case (spawn y)
  with z show ?thesis using later_sib[OF t] by blast
qed

lemma later_end_edge:
  assumes t: "tree_ok nds n" and m: "node n m" and z: "later nds n m z"
    and e: "hb_edge nds n (End z) e"
  shows "(\<exists>w. (e = Beg w \<or> e = End w) \<and> later nds n m w) \<or>
    (\<exists>w. e = End w \<and> under nds w m \<and> w \<noteq> m)"
  using e
proof (cases rule: End_edgeE)
  case (sync y)
  with z show ?thesis using later_sib[OF t] by blast
next
  case ret
  then show ?thesis using later_up[OF t m z] under_parent[OF t] by blast
next
  case (join f)
  then show ?thesis using later_up[OF t m z] by blast
qed

text \<open>All that can follow the end of a node later than \<open>m\<close>.\<close>

fun after_later :: "(nat \<Rightarrow> AFTask) \<Rightarrow> nat \<Rightarrow> nat \<Rightarrow> event \<Rightarrow> bool" where
  "after_later nds n m (Beg z) = later nds n m z"
| "after_later nds n m (End z) = (later nds n m z \<or> (under nds z m \<and> z \<noteq> m))"

lemma after_later_closed:
  assumes t: "tree_ok nds n" and m: "node n m"
  shows "(hb_edge nds n)\<^sup>*\<^sup>* e e' \<Longrightarrow> after_later nds n m e \<Longrightarrow> after_later nds n m e'"
proof (induction rule: rtranclp_induct)
  case (step e1 e2)
  then have a: "after_later nds n m e1" by blast
  show ?case
  proof (cases e1)
    case (Beg z)
    with a step.hyps(2) later_beg_edge[OF t, of m z e2] show ?thesis by auto
  next
    case (End z)
    show ?thesis
    proof (cases "later nds n m z")
      case True
      from later_end_edge[OF t m True] step.hyps(2) End
      have "(\<exists>w. (e2 = Beg w \<or> e2 = End w) \<and> later nds n m w) \<or>
        (\<exists>w. e2 = End w \<and> under nds w m \<and> w \<noteq> m)" by blast
      then show ?thesis by auto
    next
      case False
      with a End have z: "under nds z m" "z \<noteq> m" by auto
      from anc_end_edge[OF t m z(1) step.hyps(2)[unfolded End]]
      consider w where "e2 = Beg w" "later nds n m w" | w where "e2 = End w" "under nds w z"
        by blast
      then show ?thesis
      proof cases
        case (2 w)
        have "w \<noteq> m" using 2(2) z under_antisym by blast
        with 2 show ?thesis using under_trans[OF t m 2(2) z(1)] by simp
      qed simp
    qed
  qed
qed

lemma right_not_hb_left:
  assumes t: "tree_ok nds n" and s: "node n s" and u: "node n u"
    and f: "fork nds n s u l x y" and lt: "seq_num (nds x) < seq_num (nds y)"
  shows "\<not> hb nds n u s"
proof
  assume "hb nds n u s"
  from f have sb: "sibs nds n x y" and xs: "under nds x s" and yu: "under nds y u"
    by (auto simp: fork_def)
  have "later nds n x u" using laterI[OF under_refl sb lt yu u] .
  then have "after_later nds n x (Beg s)"
    using after_later_closed[OF t sibs_node(1)[OF sb] \<open>hb nds n u s\<close>[unfolded hb_def]] by simp
  then show False using later_not_under[OF t s _ xs] by simp
qed

lemma hb_irrefl:
  assumes t: "tree_ok nds n" and s: "node n s"
  shows "\<not> hb nds n s s"
proof
  assume "hb nds n s s"
  have "(hb_edge nds n)\<^sup>*\<^sup>* (End s) e \<Longrightarrow> e = End s \<or> after_later nds n s e" for e
  proof (induction rule: rtranclp_induct)
    case (step e1 e2)
    from step.IH show ?case
    proof
      assume "e1 = End s"
      with anc_end_edge[OF t s under_refl, of e2] step.hyps(2) show ?thesis by auto
    next
      assume "after_later nds n s e1"
      then show ?thesis using after_later_closed[OF t s r_into_rtranclp[of "hb_edge nds n" e1 e2]] step.hyps(2) by blast
    qed
  qed simp
  from this[OF \<open>hb nds n s s\<close>[unfolded hb_def]] have "later nds n s s" by simp
  then show False by (rule later_not_under[OF t s _ under_refl])
qed

text \<open>All that can follow the end of a node below the asynchronous child \<open>x\<close> of \<open>l\<close>.\<close>

fun after_async :: "(nat \<Rightarrow> AFTask) \<Rightarrow> nat \<Rightarrow> nat \<Rightarrow> nat \<Rightarrow> event \<Rightarrow> bool" where
  "after_async nds n x l (Beg z) = ((under nds x z \<and> z \<noteq> x \<and> node n z) \<or> later nds n l z)"
| "after_async nds n x l (End z) =
     ((under nds x z \<and> node n z) \<or> later nds n l z \<or> under nds z l)"

lemma inside_sib:
  assumes t: "tree_ok nds n" and z: "under nds x z" "z \<noteq> x" and s: "sibs nds n z w"
  shows "under nds x w" "w \<noteq> x" "node n w"
proof -
  have w: "node n w" "2 \<le> w" "parent (nds w) = parent (nds z)"
    using s by (auto simp: sibs_def node_def)
  have p: "under nds x (parent (nds w))"
    using under_step(1)[OF t sibs_node(1)[OF s] z(1)] z(2) w(3) by simp
  then show "under nds x w" using under_trans[OF t w(1) _ under_parent[OF t w(1,2)]] by blast
  show "w \<noteq> x" using under_depth[OF p] tree_child(1)[OF t w(1,2)] by auto
  show "node n w" by (rule w(1))
qed

lemma after_async_closed:
  assumes t: "tree_ok nds n" and x: "node n x" "2 \<le> x" "parent (nds x) = l"
    and as: "type (nds x) = ASYNC"
  shows "(hb_edge nds n)\<^sup>*\<^sup>* e e' \<Longrightarrow> after_async nds n x l e \<Longrightarrow> after_async nds n x l e'"
proof (induction rule: rtranclp_induct)
  case (step e1 e2)
  then have a: "after_async nds n x l e1" by blast
  have l: "node n l" using tree_child(2)[OF t x(1,2)] x(3) by simp
  have later_case: "after_async nds n x l e2" if "later nds n l z" "e1 = Beg z \<or> e1 = End z" for z
  proof -
    from that(2) step.hyps(2) later_beg_edge[OF t that(1)] later_end_edge[OF t l that(1)]
    have "(\<exists>w. (e2 = Beg w \<or> e2 = End w) \<and> later nds n l w) \<or>
        (\<exists>w. e2 = End w \<and> under nds w l \<and> w \<noteq> l)" by blast
    then show ?thesis by auto
  qed
  show ?case
  proof (cases e1)
    case (Beg z)
    show ?thesis
    proof (cases "later nds n l z")
      case False
      with a Beg have z: "under nds x z" "z \<noteq> x" "node n z" by auto
      from step.hyps(2)[unfolded Beg] show ?thesis
      proof (cases rule: Beg_edgeE)
        case (first i)
        then have "under nds x i" using z under_trans[OF t _ _ under_parent[OF t]] by simp
        moreover have "i \<noteq> x"
          using first z under_depth[of nds x z] tree_child(1)[OF t, of i] by auto
        ultimately show ?thesis using first by simp
      next
        case (spawn w)
        then show ?thesis using spawn inside_sib[OF t z(1,2)] by simp
      qed (use z in simp)
    qed (use later_case Beg in blast)
  next
    case (End z)
    consider "later nds n l z" | "under nds z l" | "under nds x z" "node n z"
      using a End by auto
    then show ?thesis
    proof cases
      case 1
      then show ?thesis using later_case End by blast
    next
      case 2
      from anc_end_edge[OF t l 2 step.hyps(2)[unfolded End]]
      consider w where "e2 = Beg w" "later nds n l w" | w where "e2 = End w" "under nds w z"
        by blast
      then show ?thesis using under_trans[OF t l _ 2] by cases auto
    next
      case 3
      from step.hyps(2)[unfolded End] show ?thesis
      proof (cases rule: End_edgeE)
        case (sync w)
        then have "z \<noteq> x" using as by auto
        then show ?thesis using inside_sib[OF t 3(1)] sync by simp
      next
        case ret
        then have "z \<noteq> x" using as by auto
        then show ?thesis
          using ret under_step(1)[OF t 3(2,1)] tree_child(2)[OF t 3(2)] by simp
      next
        case (join f)
        show ?thesis
        proof (cases "depth (nds x) \<le> depth (nds f)")
          case True
          then have "under nds x f"
            using under_linear[OF t 3(2,1)] join by blast
          with join show ?thesis using under_node[OF t 3(2)] by simp
        next
          case False
          then have "under nds f x" "f \<noteq> x"
            using under_linear[OF t 3(2) _ 3(1)] join by auto
          then show ?thesis using under_step(1)[OF t x(1)] x(3) join by simp
        qed
      qed
    qed
  qed
qed

lemma left_async_not_hb:
  assumes t: "tree_ok nds n" and s: "node n s" and u: "node n u"
    and f: "fork nds n s u l x y" and as: "type (nds x) = ASYNC"
  shows "\<not> hb nds n s u"
proof
  assume h: "hb nds n s u"
  from f have x: "node n x" "2 \<le> x" "parent (nds x) = l" and xs: "under nds x s"
    by (auto simp: fork_def sibs_def node_def)
  note F = fork_facts[OF t f s u]
  have "after_async nds n x l (Beg u)"
    using after_async_closed[OF t x as h[unfolded hb_def]] xs s by simp
  with F(4) later_not_under[OF t u _ F(3)] show False by auto
qed

section \<open>The criterion\<close>

lemma fork_mhp:
  assumes t: "tree_ok nds n" and s: "node n s" "type (nds s) = STEP"
    and u: "node n u" "type (nds u) = STEP" and f: "fork nds n s u l x y"
  shows "mhp nds n s u \<longleftrightarrow> left_is_async nds x y"
proof (cases "seq_num (nds y) < seq_num (nds x)")
  case True
  have "type (nds y) = ASYNC \<Longrightarrow> \<not> hb nds n u s"
    by (rule left_async_not_hb[OF t u(1) s(1) fork_sym[OF f]])
  moreover have "type (nds y) \<noteq> ASYNC \<Longrightarrow> hb nds n u s"
    using left_sync_hb[OF t u s(1) fork_sym[OF f] True] .
  ultimately show ?thesis
    using True right_not_hb_left[OF t u(1) s(1) fork_sym[OF f] True]
    by (auto simp: mhp_def left_is_async_def)
next
  case False
  then have lt: "seq_num (nds x) < seq_num (nds y)"
    using sibs_seq[OF t, of x y] f by (auto simp: fork_def)
  have "type (nds x) = ASYNC \<Longrightarrow> \<not> hb nds n s u"
    by (rule left_async_not_hb[OF t s(1) u(1) f])
  moreover have "type (nds x) \<noteq> ASYNC \<Longrightarrow> hb nds n s u"
    using left_sync_hb[OF t s u(1) f lt] .
  ultimately show ?thesis
    using False right_not_hb_left[OF t s(1) u(1) f lt]
    by (auto simp: mhp_def left_is_async_def)
qed

text \<open>Two steps that are not the same one are never below each other, so their paths fork.\<close>

lemma steps_fork:
  assumes t: "tree_ok nds n" and s: "node n s" "type (nds s) = STEP"
    and u: "node n u" "type (nds u) = STEP" and ne: "s \<noteq> u"
  obtains l x y where "walk_up nds s u = Inr (l, Some x, Some y)" and "fork nds n s u l x y"
proof -
  have "\<not> under nds s u" using under_STEP[OF t s(2) u(1)] ne by auto
  moreover have "\<not> under nds u s" using under_STEP[OF t u(2) s(1)] ne by auto
  ultimately show thesis using walk_up_fork[OF t s(1) u(1)] that by blast
qed

text \<open>The order in time: no step happens before itself, and two steps never both ways.\<close>

lemma hb_antisym:
  assumes t: "tree_ok nds n" and s: "node n s" "type (nds s) = STEP"
    and u: "node n u" "type (nds u) = STEP" and ne: "s \<noteq> u" and h: "hb nds n s u"
  shows "\<not> hb nds n u s"
proof -
  obtain l x y where f: "fork nds n s u l x y" by (rule steps_fork[OF t s u ne])
  show ?thesis
  proof (cases "seq_num (nds x) < seq_num (nds y)")
    case True
    then show ?thesis by (rule right_not_hb_left[OF t s(1) u(1) f])
  next
    case False
    then have "seq_num (nds y) < seq_num (nds x)"
      using sibs_seq[OF t, of x y] f by (auto simp: fork_def)
    with h right_not_hb_left[OF t u(1) s(1) fork_sym[OF f]] show ?thesis by simp
  qed
qed

text \<open>The relation of two steps does not change when the graph grows.\<close>

lemma same_shape_left:
  assumes "sibs nds n x y" "same_shape nds nds' n"
  shows "left_is_async nds' x y = left_is_async nds x y"
  using assms by (auto simp: left_is_async_def same_shape_def sibs_def)

lemma mhp_grows:
  assumes t: "tree_ok nds n" "tree_ok nds' m" and sh: "same_shape nds nds' n" and nm: "n \<le> m"
    and s: "node n s" "type (nds s) = STEP" and u: "node n u" "type (nds u) = STEP"
    and ne: "s \<noteq> u"
  shows "mhp nds' m s u = mhp nds n s u"
proof -
  obtain l x y where f: "fork nds n s u l x y" by (rule steps_fork[OF t(1) s u ne])
  have s': "node m s" "type (nds' s) = STEP" and u': "node m u" "type (nds' u) = STEP"
    using s u sh nm by (auto simp: same_shape_def node_def)
  have "mhp nds' m s u = left_is_async nds' x y"
    by (rule fork_mhp[OF t(2) s' u' same_shape_fork[OF t(1) sh nm s(1) u(1) f]])
  also have "\<dots> = left_is_async nds x y"
    using f by (intro same_shape_left[OF _ sh]) (simp add: fork_def)
  also have "\<dots> = mhp nds n s u"
    by (rule fork_mhp[OF t(1) s u f, symmetric])
  finally show ?thesis .
qed

end
