(* ===== verification/Graph_Queries.thy ===== *)
theory Graph_Queries
  imports Happens_Before
begin

text \<open>
  The queries of the task graph against their specification. \<open>cache_ok\<close> says that every entry
  of the memo table is right about the pair of nodes it was made for; growth of the graph
  keeps it, because the tree order of two allocated nodes never changes, and so do the
  queries themselves. With it \<open>parallel\<close> always answers \<open>mhp\<close>, \<open>LCA\<close> always returns the
  lowest common ancestor, and neither the memo table nor the shortcuts of \<open>areParallel\<close>
  change an answer.
\<close>

definition right_entries :: "AFTaskGraph \<Rightarrow> (nat \<times> nat \<times> bool \<times> nat option) set" where
  "right_entries g =
     {(node_addr (nodes_base g) a, node_addr (nodes_base g) b,
         left_is_async (tgraph_nodes g) x y, Some l) | a b l x y.
       node (last_allocated_node g) a \<and> node (last_allocated_node g) b \<and>
       fork (tgraph_nodes g) (last_allocated_node g) a b l x y}"

definition cache_ok :: "AFTaskGraph \<Rightarrow> bool" where
  "cache_ok g \<longleftrightarrow>
     (case lca_tab g of None \<Rightarrow> False | Some t \<Rightarrow> table_entries t \<subseteq> right_entries g)"

definition wf_graph :: "AFTaskGraph \<Rightarrow> bool" where
  "wf_graph g \<longleftrightarrow> core_ok g \<and> scopes_ok g \<and> cache_ok g"

abbreviation step_node :: "AFTaskGraph \<Rightarrow> nat \<Rightarrow> bool" where
  "step_node g s \<equiv> node (last_allocated_node g) s \<and> type (tgraph_nodes g s) = STEP"

abbreviation g_mhp :: "AFTaskGraph \<Rightarrow> nat \<Rightarrow> nat \<Rightarrow> bool" where
  "g_mhp g \<equiv> mhp (tgraph_nodes g) (last_allocated_node g)"

abbreviation g_hb :: "AFTaskGraph \<Rightarrow> nat \<Rightarrow> nat \<Rightarrow> bool" where
  "g_hb g \<equiv> hb (tgraph_nodes g) (last_allocated_node g)"

lemma wf_tree: "wf_graph g \<Longrightarrow> tree_ok (tgraph_nodes g) (last_allocated_node g)"
  by (simp add: wf_graph_def core_ok_def)

lemma wf_table:
  assumes "wf_graph g"
  obtains t where "lca_tab g = Some t" and "table_entries t \<subseteq> right_entries g"
  using assms by (auto simp: wf_graph_def cache_ok_def split: option.splits)

lemma left_is_async_sym:
  "tree_ok nds n \<Longrightarrow> sibs nds n x y \<Longrightarrow> left_is_async nds x y = left_is_async nds y x"
  using sibs_seq[of nds n x y] by (auto simp: left_is_async_def)

lemma right_entries_sym:
  assumes "tree_ok (tgraph_nodes g) (last_allocated_node g)" and "(a, b, v) \<in> right_entries g"
  shows "(b, a, v) \<in> right_entries g"
proof -
  from assms(2) obtain i j l x y where
    e: "a = node_addr (nodes_base g) i" "b = node_addr (nodes_base g) j"
      "v = (left_is_async (tgraph_nodes g) x y, Some l)"
    and n: "node (last_allocated_node g) i" "node (last_allocated_node g) j"
    and f: "fork (tgraph_nodes g) (last_allocated_node g) i j l x y"
    unfolding right_entries_def by blast
  have "sibs (tgraph_nodes g) (last_allocated_node g) x y" using f by (simp add: fork_def)
  then have "v = (left_is_async (tgraph_nodes g) y x, Some l)"
    using e(3) left_is_async_sym[OF assms(1)] by simp
  with e n fork_sym[OF f] show ?thesis unfolding right_entries_def by blast
qed

lemma right_entries_grows:
  assumes t: "tree_ok (tgraph_nodes g) (last_allocated_node g)" and gr: "grows g g'"
  shows "right_entries g \<subseteq> right_entries g'"
proof
  fix e
  assume "e \<in> right_entries g"
  then obtain a b l x y where
    e: "e = (node_addr (nodes_base g) a, node_addr (nodes_base g) b,
         left_is_async (tgraph_nodes g) x y, Some l)"
    and a: "node (last_allocated_node g) a" and b: "node (last_allocated_node g) b"
    and f: "fork (tgraph_nodes g) (last_allocated_node g) a b l x y"
    by (auto simp: right_entries_def)
  from gr have s: "same_shape (tgraph_nodes g) (tgraph_nodes g') (last_allocated_node g)"
    and nm: "last_allocated_node g \<le> last_allocated_node g'" and base: "nodes_base g' = nodes_base g"
    by (auto simp: grows_def)
  have "fork (tgraph_nodes g') (last_allocated_node g') a b l x y"
    by (rule same_shape_fork[OF t s nm a b f])
  moreover have "left_is_async (tgraph_nodes g') x y = left_is_async (tgraph_nodes g) x y"
    using f by (intro same_shape_left[OF _ s]) (simp add: fork_def)
  moreover have "node (last_allocated_node g') a" "node (last_allocated_node g') b"
    using a b nm by (auto simp: node_def)
  ultimately show "e \<in> right_entries g'"
    unfolding e right_entries_def base by fastforce
qed

lemma graph_step_wf: "wf_graph g \<Longrightarrow> graph_step g g' \<Longrightarrow> wf_graph g'"
  using right_entries_grows[OF wf_tree]
  by (fastforce simp: wf_graph_def graph_step_def cache_ok_def split: option.splits)

lemma new_AFTaskGraph_wf: "new_AFTaskGraph True True base tids = Inr g \<Longrightarrow> wf_graph g"
  using new_AFTaskGraph_ok[of True True base tids g]
  by (simp add: wf_graph_def cache_ok_def createHashTable_def table_entries_def)

section \<open>Queries leave the graph alone\<close>

text \<open>A query changes nothing but the memo table.\<close>

definition query_step :: "AFTaskGraph \<Rightarrow> AFTaskGraph \<Rightarrow> bool" where
  "query_step g g' \<longleftrightarrow> wf_graph g' \<and> (\<exists>t. g' = g\<lparr>lca_tab := t\<rparr>)"

lemma right_entries_table [simp]: "right_entries (g\<lparr>lca_tab := t\<rparr>) = right_entries g"
  by (simp add: right_entries_def)

lemma wf_graph_table:
  "wf_graph (g\<lparr>lca_tab := Some t\<rparr>) \<longleftrightarrow>
     core_ok g \<and> scopes_ok g \<and> table_entries t \<subseteq> right_entries g"
  by (simp add: wf_graph_def cache_ok_def core_ok_def scopes_ok_def live_scope_def scope_def)

lemma query_stepI:
  assumes "wf_graph g" and "table_entries t \<subseteq> right_entries g"
  shows "query_step g (g\<lparr>lca_tab := Some t\<rparr>)"
proof -
  from assms(1) have "core_ok g" "scopes_ok g" by (simp_all add: wf_graph_def)
  with assms(2) have "wf_graph (g\<lparr>lca_tab := Some t\<rparr>)" by (simp only: wf_graph_table simp_thms)
  then show ?thesis by (auto simp: query_step_def)
qed

lemma query_step_refl: "wf_graph g \<Longrightarrow> query_step g g"
  unfolding query_step_def by (metis AFTaskGraph.surjective AFTaskGraph.update_convs(6))

lemma query_step_fields:
  assumes "query_step g g'"
  shows "wf_graph g'" "tgraph_nodes g' = tgraph_nodes g" "nodes_base g' = nodes_base g"
    "last_allocated_node g' = last_allocated_node g" "cur g' = cur g"
    "temp_cur_map g' = temp_cur_map g" "tidToTaskIdMap g' = tidToTaskIdMap g"
  using assms by (auto simp: query_step_def)

lemma query_step_trans: "query_step a b \<Longrightarrow> query_step b c \<Longrightarrow> query_step a c"
  by (auto simp: query_step_def)

section \<open>parallel\<close>

lemma parallel_fork:
  assumes wf: "wf_graph g" and a: "node (last_allocated_node g) a"
    and b: "node (last_allocated_node g) b"
    and f: "fork (tgraph_nodes g) (last_allocated_node g) a b l x y"
  obtains g' where "parallel a b g = Inr (left_is_async (tgraph_nodes g) x y, g')"
    and "query_step g g'"
proof -
  note t = wf_tree[OF wf]
  let ?a = "node_addr (nodes_base g) a" and ?b = "node_addr (nodes_base g) b"
  let ?v = "left_is_async (tgraph_nodes g) x y"
  obtain tab where tab: "lca_tab g = Some tab" and ent: "table_entries tab \<subseteq> right_entries g"
    by (rule wf_table[OF wf])
  have in1: "(?a, ?b, ?v, Some l) \<in> right_entries g"
    using a b f by (auto simp: right_entries_def)
  then have in2: "(?b, ?a, ?v, Some l) \<in> right_entries g"
    by (rule right_entries_sym[OF t])
  show thesis
  proof (cases "table_query tab ?a ?b")
    case (Some w)
    have "(?a, ?b, w) \<in> right_entries g"
      by (rule lca_memo.query_right[OF ent right_entries_sym[OF t] Some])
    then have w: "fst w = ?v"
      using fork_unique[OF t a b f] by (auto simp: right_entries_def)
    have "parallel a b g = Inr (?v, g)"
      by (simp add: parallel_def tab Let_def checkParallel_query Some w)
    then show thesis using that query_step_refl[OF wf] by blast
  next
    case None
    from fork_facts(8,9)[OF t f a b] obtain l' x' y' where
      w: "walk_up (tgraph_nodes g) a b = Inr (l', Some x', Some y')"
      and f': "fork (tgraph_nodes g) (last_allocated_node g) a b l' x' y'"
      using walk_up_fork[OF t a b] by blast
    from fork_unique[OF t a b f f'] have e: "l' = l" "x' = x" "y' = y" by auto
    let ?t = "updateEntry ?b ?a ?v (Some l) (updateEntry ?a ?b ?v (Some l) tab)"
    have "parallel a b g = Inr (?v, g\<lparr>lca_tab := Some ?t\<rparr>)"
      by (simp add: parallel_def tab Let_def checkParallel_query None w e)
    moreover have "table_entries ?t \<subseteq> right_entries g"
      using lca_memo.store_both_right[OF ent in1 in2] by (simp add: table_store_def)
    then have "query_step g (g\<lparr>lca_tab := Some ?t\<rparr>)" by (rule query_stepI[OF wf])
    ultimately show thesis by (rule that)
  qed
qed

lemma parallel_steps:
  assumes wf: "wf_graph g" and a: "step_node g a" and b: "step_node g b" and ne: "a \<noteq> b"
  obtains g' where "parallel a b g = Inr (g_mhp g a b, g')" and "query_step g g'"
proof -
  note t = wf_tree[OF wf]
  from a b ne obtain l x y where
    f: "fork (tgraph_nodes g) (last_allocated_node g) a b l x y"
    using steps_fork[OF t] by blast
  from a b have v: "g_mhp g a b = left_is_async (tgraph_nodes g) x y"
    using fork_mhp[OF t _ _ _ _ f] by blast
  obtain g' where "parallel a b g = Inr (left_is_async (tgraph_nodes g) x y, g')"
    and "query_step g g'"
    using parallel_fork[OF wf _ _ f] a b by blast
  with v show thesis using that by simp
qed

section \<open>LCA\<close>

lemma LCA_is_lca:
  assumes wf: "wf_graph g" and a: "node (last_allocated_node g) a"
    and b: "node (last_allocated_node g) b"
  obtains l where "LCA a b g = Inr l"
    and "is_lca (tgraph_nodes g) (last_allocated_node g) a b l"
proof -
  note t = wf_tree[OF wf]
  let ?a = "node_addr (nodes_base g) a" and ?b = "node_addr (nodes_base g) b"
  obtain tab where tab: "lca_tab g = Some tab" and ent: "table_entries tab \<subseteq> right_entries g"
    by (rule wf_table[OF wf])
  show thesis
  proof (cases "table_query tab ?a ?b")
    case (Some w)
    have "(?a, ?b, w) \<in> right_entries g"
      by (rule lca_memo.query_right[OF ent right_entries_sym[OF t] Some])
    then obtain l x y where "snd w = Some l"
      and f: "fork (tgraph_nodes g) (last_allocated_node g) a b l x y"
      by (auto simp: right_entries_def)
    then have "LCA a b g = Inr l" by (simp add: LCA_def tab getLCA_query Some)
    then show thesis using that fork_is_lca[OF t a b f] by blast
  next
    case None
    then have "LCA a b g = lca_walk (tgraph_nodes g) a b"
      by (simp add: LCA_def tab getLCA_query)
    then show thesis using lca_walk_correct[OF t a b] that by metis
  qed
qed

lemma LCA_fork:
  assumes "wf_graph g" "node (last_allocated_node g) a" "node (last_allocated_node g) b"
    "fork (tgraph_nodes g) (last_allocated_node g) a b l x y"
  shows "LCA a b g = Inr l"
  using LCA_is_lca[OF assms(1-3)] is_lca_unique fork_is_lca[OF wf_tree[OF assms(1)] assms(2-4)]
  by metis

section \<open>The memo table is transparent\<close>

text \<open>
  Whatever \<open>parallel\<close> answers, or fails with, with the memo table it also does with an empty
  one: a pair with no fork (one node above the other) never gets an entry.
\<close>

definition answer :: "(bool \<times> AFTaskGraph) result \<Rightarrow> bool result" where
  "answer r = (case r of Inl e \<Rightarrow> Inl e | Inr (b, g') \<Rightarrow> Inr b)"

definition empty_table :: lca_table where
  "empty_table = \<lparr>tableSize = LCA_TABLE_SIZE, lcaHashTable = (\<lambda>_. None)\<rparr>"

lemma parallel_no_fork:
  assumes wf: "wf_graph g" and tab: "lca_tab g = Some tab"
    and a: "node (last_allocated_node g) a" and b: "node (last_allocated_node g) b"
    and nf: "\<not> (\<exists>l x y. fork (tgraph_nodes g) (last_allocated_node g) a b l x y)"
  shows "answer (parallel a b g) =
    answer (bind_r (walk_up (tgraph_nodes g) a b) (\<lambda>(l, pc, pr).
      bind_r (deref_r pc) (\<lambda>x. bind_r (deref_r pr) (\<lambda>y.
        Inr (left_is_async (tgraph_nodes g) x y, g)))))"
proof -
  note t = wf_tree[OF wf]
  from wf tab have ent: "table_entries tab \<subseteq> right_entries g"
    by (simp add: wf_graph_def cache_ok_def)
  have "table_query tab (node_addr (nodes_base g) a) (node_addr (nodes_base g) b) = None"
  proof (rule ccontr)
    assume "\<not> ?thesis"
    then obtain w where "table_query tab (node_addr (nodes_base g) a) (node_addr (nodes_base g) b) = Some w"
      by blast
    from lca_memo.query_right[OF ent right_entries_sym[OF t] this] nf
    show False by (auto simp: right_entries_def)
  qed
  then show ?thesis
    by (auto simp: parallel_def tab Let_def checkParallel_query answer_def bind_r_def
        split: sum.splits)
qed

lemma parallel_table_irrelevant:
  assumes wf: "wf_graph g" and a: "node (last_allocated_node g) a"
    and b: "node (last_allocated_node g) b"
  shows "answer (parallel a b g) = answer (parallel a b (g\<lparr>lca_tab := Some empty_table\<rparr>))"
proof -
  let ?h = "g\<lparr>lca_tab := Some empty_table\<rparr>"
  have "query_step g ?h"
    by (rule query_stepI[OF wf]) (simp add: table_entries_def empty_table_def)
  then have wfh: "wf_graph ?h" by (rule query_step_fields)
  have ah: "node (last_allocated_node ?h) a" and bh: "node (last_allocated_node ?h) b"
    using a b by simp_all
  show ?thesis
  proof (cases "\<exists>l x y. fork (tgraph_nodes g) (last_allocated_node g) a b l x y")
    case True
    then obtain l x y where f: "fork (tgraph_nodes g) (last_allocated_node g) a b l x y"
      by blast
    obtain g1 where "parallel a b g = Inr (left_is_async (tgraph_nodes g) x y, g1)"
      using parallel_fork[OF wf a b f] by blast
    moreover obtain g2 where "parallel a b ?h = Inr (left_is_async (tgraph_nodes g) x y, g2)"
      using parallel_fork[OF wfh ah bh, of l x y] f by auto
    ultimately show ?thesis by (simp add: answer_def)
  next
    case False
    obtain tab where tab: "lca_tab g = Some tab" using wf_table[OF wf] by blast
    show ?thesis
      using parallel_no_fork[OF wf tab a b False] parallel_no_fork[OF wfh _ ah bh] False
      by (auto simp: answer_def bind_r_def split: sum.splits)
  qed
qed

end
