(* ===== verification/Two_Slots.thy ===== *)
theory Two_Slots
  imports Graph_Queries
begin

text \<open>
  Why two remembered steps are enough. For each lock set and kind of access the detector
  keeps at most two steps of the whole access history (\<open>w1_task\<close>, \<open>w2_task\<close> or \<open>r1_task\<close>,
  \<open>r2_task\<close>). \<open>next_slots\<close> is the rule by which \<open>RecordAccess\<close> replaces them, over abstract
  relations; the locale \<open>series_parallel\<close> states the few laws of a series-parallel order
  that make the rule lose no race: a later step runs in parallel with some step of the
  history exactly when it does with one of the two that were kept. The task graph is an
  instance.
\<close>

type_synonym 'n slots = "'n option \<times> 'n option"

definition par_opt :: "('n \<Rightarrow> 'n \<Rightarrow> bool) \<Rightarrow> 'n \<Rightarrow> 'n option \<Rightarrow> bool" where
  "par_opt par s p = (case p of None \<Rightarrow> False | Some r \<Rightarrow> par s r)"

definition next_slots ::
    "('n \<Rightarrow> 'n \<Rightarrow> bool) \<Rightarrow> ('n \<Rightarrow> 'n \<Rightarrow> nat) \<Rightarrow> 'n \<Rightarrow> 'n slots \<Rightarrow> 'n slots" where
  "next_slots par lev s = (\<lambda>(p, q).
     if \<not> par_opt par s p \<and> \<not> par_opt par s q then (Some s, None)
     else case (p, q) of
       (Some x, Some y) \<Rightarrow>
         if par s x \<and> par s y \<and> lev x s < lev x y then (Some s, Some y) else (p, q)
     | (Some x, None) \<Rightarrow> (Some x, Some s)
     | (None, _) \<Rightarrow> (p, q))"

text \<open>What the slots say of the history \<open>H\<close> they were computed from.\<close>

definition slots_ok ::
    "('n \<Rightarrow> bool) \<Rightarrow> ('n \<Rightarrow> 'n \<Rightarrow> bool) \<Rightarrow> ('n \<Rightarrow> 'n \<Rightarrow> bool) \<Rightarrow> 'n set \<Rightarrow> 'n slots \<Rightarrow> bool" where
  "slots_ok step par bef H = (\<lambda>(p, q).
     set_option p \<subseteq> H \<and> set_option q \<subseteq> H \<and> (p = None \<longrightarrow> q = None) \<and>
     (\<forall>x y. p = Some x \<and> q = Some y \<longrightarrow> par x y) \<and>
     (\<forall>z. step z \<and> (\<forall>h\<in>H. \<not> bef z h) \<and> (\<exists>h\<in>H. par z h) \<longrightarrow>
        par_opt par z p \<or> par_opt par z q))"

lemma par_opt_simps [simp]: "par_opt par s None = False" "par_opt par s (Some r) = par s r"
  by (simp_all add: par_opt_def)

lemma slots_ok_empty: "slots_ok step par bef {} (None, None)"
  by (simp add: slots_ok_def)

lemma slots_ok_query:
  assumes "slots_ok step par bef H (p, q)" and "step z" and "\<forall>h\<in>H. \<not> bef z h"
  shows "par_opt par z p \<or> par_opt par z q \<longleftrightarrow> (\<exists>h\<in>H. par z h)"
  using assms unfolding slots_ok_def by (cases p; cases q) auto

section \<open>Series-parallel orders\<close>

text \<open>
  \<open>lt\<close> is the left-to-right order of the steps, \<open>lev\<close> the depth at which two of them part.
  Of three steps in left-to-right order the outer two part at the higher of the two inner
  points, and whether they are parallel is settled there.
\<close>

locale series_parallel =
  fixes ok :: "'g \<Rightarrow> bool" and step :: "'g \<Rightarrow> 'n \<Rightarrow> bool"
    and lt :: "'g \<Rightarrow> 'n \<Rightarrow> 'n \<Rightarrow> bool" and par :: "'g \<Rightarrow> 'n \<Rightarrow> 'n \<Rightarrow> bool"
    and bef :: "'g \<Rightarrow> 'n \<Rightarrow> 'n \<Rightarrow> bool" and lev :: "'g \<Rightarrow> 'n \<Rightarrow> 'n \<Rightarrow> nat"
  assumes lt_total: "ok g \<Longrightarrow> step g a \<Longrightarrow> step g b \<Longrightarrow> a \<noteq> b \<Longrightarrow> lt g a b \<or> lt g b a"
    and par_irrefl: "\<not> par g a a"
    and par_sym: "par g a b = par g b a"
    and lev_sym: "ok g \<Longrightarrow> step g a \<Longrightarrow> step g b \<Longrightarrow> lev g a b = lev g b a"
    and bef_iff: "ok g \<Longrightarrow> step g a \<Longrightarrow> step g b \<Longrightarrow> a \<noteq> b \<Longrightarrow> bef g a b = (lt g a b \<and> \<not> par g a b)"
    and lt_trans: "ok g \<Longrightarrow> step g a \<Longrightarrow> step g b \<Longrightarrow> step g c \<Longrightarrow> lt g a b \<Longrightarrow> lt g b c \<Longrightarrow> lt g a c \<and> a \<noteq> c"
    and lev_min: "ok g \<Longrightarrow> step g a \<Longrightarrow> step g b \<Longrightarrow> step g c \<Longrightarrow> lt g a b \<Longrightarrow> lt g b c \<Longrightarrow>
      lev g a c = min (lev g a b) (lev g b c)"
    and par_left: "ok g \<Longrightarrow> step g a \<Longrightarrow> step g b \<Longrightarrow> step g c \<Longrightarrow> lt g a b \<Longrightarrow> lt g b c \<Longrightarrow>
      lev g a b \<le> lev g b c \<Longrightarrow> par g a c = par g a b"
    and par_right: "ok g \<Longrightarrow> step g a \<Longrightarrow> step g b \<Longrightarrow> step g c \<Longrightarrow> lt g a b \<Longrightarrow> lt g b c \<Longrightarrow>
      lev g b c < lev g a b \<Longrightarrow> par g a c = par g b c"
begin

lemma three_cases:
  assumes "ok g" "step g a" "step g b" "a \<noteq> b"
  obtains "par g a b" | "bef g a b" "\<not> par g a b" | "bef g b a" "\<not> par g a b"
  using lt_total[OF assms] bef_iff[OF assms] bef_iff[of g b a] assms par_sym by metis

lemma bef_not_par: "ok g \<Longrightarrow> step g a \<Longrightarrow> step g b \<Longrightarrow> a \<noteq> b \<Longrightarrow> bef g a b \<Longrightarrow> \<not> par g a b"
  using bef_iff by blast

lemma bef_trans:
  assumes g: "ok g" and s: "step g a" "step g b" "step g c"
    and ne: "a \<noteq> b" "b \<noteq> c" and ab: "bef g a b" and bc: "bef g b c"
  shows "bef g a c" and "a \<noteq> c"
proof -
  from ab bc g s ne have l: "lt g a b" "\<not> par g a b" "lt g b c" "\<not> par g b c"
    by (auto simp: bef_iff)
  from lt_trans[OF g s l(1,3)] have ac: "lt g a c" "a \<noteq> c" by auto
  have "\<not> par g a c"
    using par_left[OF g s l(1,3)] par_right[OF g s l(1,3)] l(2,4) by (meson not_le)
  with ac show "bef g a c" "a \<noteq> c" using bef_iff[OF g s(1,3)] by auto
qed

lemma same_branch_le:
  assumes g: "ok g" and s: "step g a" "step g b" "step g c" and ne: "a \<noteq> c" "b \<noteq> c"
    and ab: "lt g a b" and d: "lev g b c < lev g a b"
  shows "par g a c = par g b c" and "lev g a c = lev g b c"
proof -
  note sym = lev_sym[OF g s(1,3)] lev_sym[OF g s(2,3)] lev_sym[OF g s(1,2)] par_sym[of g a c] par_sym[of g b c]
  consider "lt g b c" | "lt g c a" | "lt g a c" "lt g c b"
    using lt_total[OF g s(2,3) ne(2)] lt_total[OF g s(1,3) ne(1)] by blast
  then have "par g a c = par g b c \<and> lev g a c = lev g b c"
  proof cases
    case 1
    then show ?thesis
      using par_right[OF g s ab 1 d] lev_min[OF g s ab 1] d by simp
  next
    case 2
    note L = lev_min[OF g s(3,1,2) 2 ab] par_left[OF g s(3,1,2) 2 ab]
    from L(1) d sym have "lev g c a = lev g c b" "lev g c a \<le> lev g a b" by auto
    with L(2) sym show ?thesis by auto
  next
    case 3
    from lev_min[OF g s(1,3,2) 3] d sym show ?thesis by auto
  qed
  then show "par g a c = par g b c" "lev g a c = lev g b c" by blast+
qed

text \<open>Two steps that part below the point where a third leaves look the same to it.\<close>

lemma same_branch:
  assumes g: "ok g" and s: "step g a" "step g b" "step g c" and ne: "a \<noteq> b" "a \<noteq> c" "b \<noteq> c"
    and d: "lev g b c < lev g a b"
  shows "par g a c = par g b c"
  using lt_total[OF g s(1,2) ne(1)]
proof
  assume "lt g a b"
  then show ?thesis by (rule same_branch_le(1)[OF g s ne(2,3) _ d])
next
  assume ba: "lt g b a"
  show ?thesis
  proof (cases "lev g a c < lev g b a")
    case True
    then show ?thesis using same_branch_le(1)[OF g s(2,1,3) ne(3,2) ba] by simp
  next
    case False
    consider "lt g a c" | "lt g c b" | "lt g b c" "lt g c a"
      using lt_total[OF g s(2,3) ne(3)] lt_total[OF g s(1,3) ne(2)] by blast
    then have False
    proof cases
      case 1
      from lev_min[OF g s(2,1,3) ba 1] d False lev_sym[OF g s(1,2)] show False by auto
    next
      case 2
      from lev_min[OF g s(3,2,1) 2 ba] d False lev_sym[OF g s(1,2)] lev_sym[OF g s(2,3)]
        lev_sym[OF g s(1,3)] show False by auto
    next
      case 3
      from lev_min[OF g s(2,3,1) 3] d lev_sym[OF g s(1,2)] show False by auto
    qed
    then show ?thesis ..
  qed
qed

text \<open>A step parallel to neither of two parallel steps, and not before them, left them above.\<close>

lemma outsider:
  assumes g: "ok g" and s: "step g p" "step g q" "step g z"
    and pq: "par g p q" and zp: "\<not> par g z p" "\<not> bef g z p" and zq: "\<not> par g z q" "\<not> bef g z q"
  shows "lev g p z < lev g p q" and "lev g q z < lev g p q" and "z \<noteq> p" and "z \<noteq> q"
proof -
  from pq zp zq show ne: "z \<noteq> p" "z \<noteq> q" by (auto simp: par_sym)
  have pne: "p \<noteq> q" using pq par_irrefl by auto
  from zp zq have pz: "lt g p z" and qz: "lt g q z"
    using bef_iff[OF g s(3,1)] bef_iff[OF g s(3,2)] lt_total[OF g s(1,3)] lt_total[OF g s(2,3)] ne
    by auto
  have npz: "\<not> par g p z" "\<not> par g q z" using zp zq par_sym by auto
  have "lev g p z < lev g p q \<and> lev g q z < lev g p q"
    using lt_total[OF g s(1,2) pne]
  proof
    assume l: "lt g p q"
    with par_left[OF g s l qz] pq npz have "lev g q z < lev g p q" by (meson not_le)
    with lev_min[OF g s l qz] show ?thesis by simp
  next
    assume l: "lt g q p"
    have "par g q p" using pq par_sym by blast
    with par_left[OF g s(2,1,3) l pz] npz have "lev g p z < lev g q p" by (meson not_le)
    with lev_min[OF g s(2,1,3) l pz] lev_sym[OF g s(1,2)] show ?thesis by simp
  qed
  then show "lev g p z < lev g p q" "lev g q z < lev g p q" by auto
qed

section \<open>The replacement rule\<close>

lemma replace_both:
  assumes g: "ok g" and s: "step g p" "step g S" "step g z"
    and "\<not> par g S p" "\<not> bef g S p" "\<not> bef g z S" "par g z p"
  shows "par g z S"
proof (cases "p = S")
  case False
  have zS: "z \<noteq> S" "z \<noteq> p" using assms(5,8) par_irrefl by auto
  have pS: "bef g p S"
    using three_cases[OF g s(1,2) False] assms(5,6) par_sym by metis
  show ?thesis
    by (rule three_cases[OF g s(3,2) zS(1)])
      (use assms(7,8) bef_trans[OF g s False _ pS] bef_not_par[OF g s(1,3)] zS par_sym in blast)+
qed (use assms in simp)

lemma replace_first:
  assumes g: "ok g" and s: "step g p" "step g q" "step g S" "step g z"
    and par: "par g S p" "par g S q" "par g p q" and d: "lev g p S < lev g p q" and z: "par g z p"
  shows "par g z S \<or> par g z q"
proof (cases "z = S \<or> z = q")
  case False
  then have ne: "z \<noteq> p" "z \<noteq> q" "z \<noteq> S" "p \<noteq> q" "p \<noteq> S"
    using par z par_irrefl by auto
  show ?thesis
  proof (cases "lev g p z < lev g q p")
    case True
    then show ?thesis using same_branch[OF g s(2,1,4)] ne z par_sym by metis
  next
    case False
    then have "lev g p S < lev g z p" using d lev_sym[OF g s(1,2)] lev_sym[OF g s(1,4)] by simp
    then show ?thesis using same_branch[OF g s(4,1,3)] ne par par_sym by metis
  qed
qed (use par par_sym in auto)

lemma keep_both:
  assumes g: "ok g" and s: "step g p" "step g q" "step g S" "step g z"
    and par: "par g S p" "par g p q" and d: "lev g p q \<le> lev g p S"
    and z: "par g z S" "\<not> bef g z p" "\<not> bef g z q"
  shows "par g z p \<or> par g z q"
proof (rule ccontr)
  assume n: "\<not> ?thesis"
  then have n': "\<not> par g z p" "\<not> par g z q" by auto
  note o = outsider[OF g s(1,2,4) par(2) n'(1) z(2) n'(2) z(3)]
  have ne: "S \<noteq> p" "S \<noteq> z" using par z par_irrefl by auto
  have "lev g p z < lev g S p" using o(1) d lev_sym[OF g s(1,3)] by simp
  then have "par g S z = par g p z" using same_branch[OF g s(3,1,4)] ne o(3) by metis
  with n' z(1) par_sym show False by metis
qed

lemma keep_mixed:
  assumes g: "ok g" and s: "step g p" "step g q" "step g S" "step g z"
    and par: "par g S p" "\<not> par g S q" "par g p q"
    and z: "par g z S" "\<not> bef g z p" "\<not> bef g z q"
  shows "par g z p \<or> par g z q"
proof (cases "S = q")
  case False
  show ?thesis
  proof (rule ccontr)
    assume "\<not> ?thesis"
    then have n: "\<not> par g z p" "\<not> par g z q" by auto
    note o = outsider[OF g s(1,2,4) par(3) n(1) z(2) n(2) z(3)]
    have ne: "S \<noteq> p" "S \<noteq> z" "p \<noteq> q" using par z par_irrefl by auto
    show False
    proof (cases "lev g q z < lev g S q")
      case True
      then have "par g S z = par g q z" using same_branch[OF g s(3,2,4)] ne o(4) False by metis
      with n z(1) par_sym show False by metis
    next
      case False
      then have "lev g q S < lev g p q" using o(2) lev_sym[OF g s(2,3)] by simp
      then have "par g p S = par g q S" using same_branch[OF g s(1,2,3)] ne \<open>S \<noteq> q\<close> by metis
      with par par_sym show False by metis
    qed
  qed
qed (use z in simp)

lemma next_slots_ok:
  assumes g: "ok g" and sl: "slots_ok (step g) (par g) (bef g) H (p, q)"
    and H: "\<forall>h\<in>H. step g h \<and> \<not> bef g S h" and S: "step g S"
  shows "slots_ok (step g) (par g) (bef g) (insert S H) (next_slots (par g) (lev g) S (p, q))"
proof -
  let ?H = "insert S H"
  have old: "par_opt (par g) z p \<or> par_opt (par g) z q"
    if "step g z" "\<forall>h\<in>?H. \<not> bef g z h" "h \<in> H" "par g z h" for z h
    using sl that unfolding slots_ok_def by auto
  have inH: "\<And>x. p = Some x \<Longrightarrow> x \<in> H" "\<And>x. q = Some x \<Longrightarrow> x \<in> H"
    and pq: "p = None \<Longrightarrow> q = None" "\<And>x y. p = Some x \<Longrightarrow> q = Some y \<Longrightarrow> par g x y"
    using sl by (auto simp: slots_ok_def)
  have old_cases: "par g z S \<or> par_opt (par g) z p \<or> par_opt (par g) z q"
    if "step g z" "\<forall>h\<in>?H. \<not> bef g z h" "\<exists>h\<in>?H. par g z h" for z
    using that old[of z] by blast
  have intro: "slots_ok (step g) (par g) (bef g) ?H (p', q')"
    if "set_option p' \<subseteq> ?H" "set_option q' \<subseteq> ?H" "p' = None \<longrightarrow> q' = None"
      "\<And>x y. p' = Some x \<Longrightarrow> q' = Some y \<Longrightarrow> par g x y"
      "\<And>z. step g z \<Longrightarrow> \<forall>h\<in>?H. \<not> bef g z h \<Longrightarrow>
         par g z S \<or> par_opt (par g) z p \<or> par_opt (par g) z q \<Longrightarrow>
         par_opt (par g) z p' \<or> par_opt (par g) z q'" for p' q'
    using that old_cases by (auto simp: slots_ok_def)
  show ?thesis
  proof (cases "par_opt (par g) S p \<or> par_opt (par g) S q")
    case False
    have *: "par g z S" if "step g z" "\<forall>h\<in>?H. \<not> bef g z h" "r \<in> H" "\<not> par g S r" "par g z r" for z r
      using replace_both[OF g _ S that(1), of r] that H by blast
    have "slots_ok (step g) (par g) (bef g) ?H (Some S, None)"
      by (rule intro) (use False * inH in \<open>auto simp: par_opt_def split: option.splits\<close>)
    with False show ?thesis by (simp add: next_slots_def)
  next
    case True
    show ?thesis
    proof (cases q)
      case None
      then obtain x where x: "p = Some x" "par g S x" using True pq(1) by (cases p) auto
      have "slots_ok (step g) (par g) (bef g) ?H (Some x, Some S)"
        by (rule intro) (use None x inH par_sym in auto)
      with None x show ?thesis by (simp add: next_slots_def)
    next
      case (Some y)
      then obtain x where x: "p = Some x" using pq(1) by (cases p) auto
      have st: "step g x" "step g y" "x \<in> H" "y \<in> H" using inH x Some H by auto
      have xy: "par g x y" using pq(2) x Some by blast
      show ?thesis
      proof (cases "par g S x \<and> par g S y \<and> lev g x S < lev g x y")
        case True
        have "slots_ok (step g) (par g) (bef g) ?H (Some S, Some y)"
          by (rule intro) (use True x Some st replace_first[OF g st(1,2) S] xy in auto)
        with True x Some show ?thesis by (simp add: next_slots_def)
      next
        case False
        have *: "par g z x \<or> par g z y" if z: "step g z" "\<forall>h\<in>?H. \<not> bef g z h" "par g z S" for z
        proof -
          have b: "\<not> bef g z x" "\<not> bef g z y" using z(2) st by auto
          consider "par g S x" "par g S y" "lev g x y \<le> lev g x S"
            | "par g S x" "\<not> par g S y" | "\<not> par g S x" "par g S y"
            using True False x Some by (auto simp: not_less)
          then show ?thesis
          proof cases
            case 1
            then show ?thesis using keep_both[OF g st(1,2) S z(1) _ xy _ z(3) b] by blast
          next
            case 2
            then show ?thesis using keep_mixed[OF g st(1,2) S z(1) _ _ xy z(3) b] by blast
          next
            case 3
            then show ?thesis
              using keep_mixed[OF g st(2,1) S z(1) _ _ _ z(3) b(2,1)] xy par_sym by blast
          qed
        qed
        have "slots_ok (step g) (par g) (bef g) ?H (Some x, Some y)"
          by (rule intro) (use x Some st * xy in auto)
        with True False x Some show ?thesis by (auto simp: next_slots_def)
      qed
    qed
  qed
qed

end

section \<open>The task graph is series-parallel\<close>

definition g_par :: "AFTaskGraph \<Rightarrow> nat \<Rightarrow> nat \<Rightarrow> bool" where
  "g_par g a b \<longleftrightarrow> a \<noteq> b \<and> g_mhp g a b"

definition g_lt :: "AFTaskGraph \<Rightarrow> nat \<Rightarrow> nat \<Rightarrow> bool" where
  "g_lt g a b \<longleftrightarrow> (\<exists>l x y. fork (tgraph_nodes g) (last_allocated_node g) a b l x y \<and>
     seq_num (tgraph_nodes g x) < seq_num (tgraph_nodes g y))"

definition g_lev :: "AFTaskGraph \<Rightarrow> nat \<Rightarrow> nat \<Rightarrow> nat" where
  "g_lev g a b = (case lca_walk (tgraph_nodes g) a b of
     Inl e \<Rightarrow> 0 | Inr l \<Rightarrow> depth (tgraph_nodes g l))"

lemma fork_lev:
  assumes wf: "wf_graph g" and "node (last_allocated_node g) a" "node (last_allocated_node g) b"
    and "fork (tgraph_nodes g) (last_allocated_node g) a b l x y"
  shows "g_lev g a b = depth (tgraph_nodes g l)"
proof -
  note t = wf_tree[OF wf]
  obtain m where m: "lca_walk (tgraph_nodes g) a b = Inr m"
    "is_lca (tgraph_nodes g) (last_allocated_node g) a b m"
    using lca_walk_correct[OF t assms(2,3)] by blast
  have "m = l" by (rule is_lca_unique[OF m(2) fork_is_lca[OF t assms(2-4)]])
  with m(1) show ?thesis by (simp add: g_lev_def)
qed

lemma fork_three:
  assumes t: "tree_ok nds n" and n: "node n a" "node n b" "node n c"
    and f1: "fork nds n a b l1 x1 y1" and f2: "fork nds n b c l2 x2 y2"
    and s1: "seq_num (nds x1) < seq_num (nds y1)" and s2: "seq_num (nds x2) < seq_num (nds y2)"
  obtains l x y where "fork nds n a c l x y" and "seq_num (nds x) < seq_num (nds y)"
    and "depth (nds l) = min (depth (nds l1)) (depth (nds l2))"
    and "depth (nds l1) \<le> depth (nds l2) \<longrightarrow> x = x1"
    and "depth (nds l2) < depth (nds l1) \<longrightarrow> x = x2"
proof -
  note F1 = fork_facts[OF t f1 n(1,2)] and F2 = fork_facts[OF t f2 n(2,3)]
  from f1 have a: "under nds x1 a" "under nds y1 b" and p1: "parent (nds x1) = l1" "parent (nds y1) = l1"
    and sb1: "sibs nds n x1 y1" by (auto simp: fork_def sibs_def)
  from f2 have b: "under nds x2 b" "under nds y2 c" and p2: "parent (nds x2) = l2" "parent (nds y2) = l2"
    and sb2: "sibs nds n x2 y2" by (auto simp: fork_def sibs_def)
  consider "depth (nds l1) < depth (nds l2)" | "depth (nds l2) < depth (nds l1)"
    | "depth (nds l1) = depth (nds l2)" by linarith
  then show thesis
  proof cases
    case 1
    then have "under nds y1 l2" using under_linear[OF t n(2) a(2) F2(2)] F1(7) by simp
    then have "under nds y1 c" using under_trans[OF t n(3) _ F2(3)] by blast
    then have "fork nds n a c l1 x1 y1" using f1 by (simp add: fork_def)
    then show thesis using that s1 1 by simp
  next
    case 2
    then have "under nds x2 l1" using under_linear[OF t n(2) b(1) F1(3)] F2(6) by simp
    then have "under nds x2 a" using under_trans[OF t n(1) _ F1(2)] by blast
    then have "fork nds n a c l2 x2 y2" using f2 by (simp add: fork_def)
    then show thesis using that s2 2 by simp
  next
    case 3
    have "y1 = x2" using under_same_depth[OF a(2) b(1)] F1(7) F2(6) 3 by simp
    then have s: "seq_num (nds x1) < seq_num (nds y2)" and "l1 = l2" using s1 s2 p1 p2 by auto
    with sb1 sb2 p1 p2 a b have "fork nds n a c l1 x1 y2" by (auto simp: fork_def sibs_def)
    then show thesis using that s 3 by simp
  qed
qed

lemma g_lt_fork:
  assumes wf: "wf_graph g" and "step_node g a" and "step_node g b" and "g_lt g a b"
  obtains l x y where "fork (tgraph_nodes g) (last_allocated_node g) a b l x y"
    and "seq_num (tgraph_nodes g x) < seq_num (tgraph_nodes g y)"
    and "g_lev g a b = depth (tgraph_nodes g l)"
    and "g_par g a b = (type (tgraph_nodes g x) = ASYNC)"
proof -
  note t = wf_tree[OF wf]
  from assms(4) obtain l x y where f: "fork (tgraph_nodes g) (last_allocated_node g) a b l x y"
    and s: "seq_num (tgraph_nodes g x) < seq_num (tgraph_nodes g y)" by (auto simp: g_lt_def)
  have "a \<noteq> b" using fork_facts(10)[OF t f] assms(2,3) by blast
  moreover have "g_mhp g a b = (type (tgraph_nodes g x) = ASYNC)"
    using fork_mhp[OF t _ _ _ _ f] assms(2,3) s by (simp add: left_is_async_def)
  ultimately show thesis using that[OF f s] fork_lev[OF wf _ _ f] assms(2,3) by (simp add: g_par_def)
qed

lemma g_lt_three:
  assumes wf: "wf_graph g" and st: "step_node g a" "step_node g b" "step_node g c"
    and l: "g_lt g a b" "g_lt g b c"
  shows "g_lt g a c \<and> a \<noteq> c" and "g_lev g a c = min (g_lev g a b) (g_lev g b c)"
    and "g_lev g a b \<le> g_lev g b c \<Longrightarrow> g_par g a c = g_par g a b"
    and "g_lev g b c < g_lev g a b \<Longrightarrow> g_par g a c = g_par g b c"
proof -
  note t = wf_tree[OF wf]
  have n: "node (last_allocated_node g) a" "node (last_allocated_node g) b"
    "node (last_allocated_node g) c" using st by auto
  obtain l1 x1 y1 where 1: "fork (tgraph_nodes g) (last_allocated_node g) a b l1 x1 y1"
    "seq_num (tgraph_nodes g x1) < seq_num (tgraph_nodes g y1)"
    "g_lev g a b = depth (tgraph_nodes g l1)" "g_par g a b = (type (tgraph_nodes g x1) = ASYNC)"
    by (rule g_lt_fork[OF wf st(1,2) l(1)])
  obtain l2 x2 y2 where 2: "fork (tgraph_nodes g) (last_allocated_node g) b c l2 x2 y2"
    "seq_num (tgraph_nodes g x2) < seq_num (tgraph_nodes g y2)"
    "g_lev g b c = depth (tgraph_nodes g l2)" "g_par g b c = (type (tgraph_nodes g x2) = ASYNC)"
    by (rule g_lt_fork[OF wf st(2,3) l(2)])
  obtain l3 x3 y3 where 3: "fork (tgraph_nodes g) (last_allocated_node g) a c l3 x3 y3"
    "seq_num (tgraph_nodes g x3) < seq_num (tgraph_nodes g y3)"
    "depth (tgraph_nodes g l3) = min (depth (tgraph_nodes g l1)) (depth (tgraph_nodes g l2))"
    "depth (tgraph_nodes g l1) \<le> depth (tgraph_nodes g l2) \<longrightarrow> x3 = x1"
    "depth (tgraph_nodes g l2) < depth (tgraph_nodes g l1) \<longrightarrow> x3 = x2"
    by (rule fork_three[OF t n 1(1) 2(1) 1(2) 2(2)])
  show lt: "g_lt g a c \<and> a \<noteq> c"
    using 3(1,2) fork_facts(10)[OF t 3(1) n(1,3)] by (auto simp: g_lt_def)
  show "g_lev g a c = min (g_lev g a b) (g_lev g b c)"
    using fork_lev[OF wf n(1,3) 3(1)] 1(3) 2(3) 3(3) by simp
  have p: "g_par g a c = (type (tgraph_nodes g x3) = ASYNC)"
    using fork_mhp[OF t _ _ _ _ 3(1)] st 3(2) lt by (simp add: left_is_async_def g_par_def)
  show "g_lev g a b \<le> g_lev g b c \<Longrightarrow> g_par g a c = g_par g a b"
    using p 1(3,4) 2(3) 3(4) by simp
  show "g_lev g b c < g_lev g a b \<Longrightarrow> g_par g a c = g_par g b c"
    using p 1(3) 2(3,4) 3(5) by simp
qed

lemma g_lt_total:
  assumes wf: "wf_graph g" and "step_node g a" "step_node g b" "a \<noteq> b"
  shows "g_lt g a b \<or> g_lt g b a"
proof -
  note t = wf_tree[OF wf]
  obtain l x y where f: "fork (tgraph_nodes g) (last_allocated_node g) a b l x y"
    using steps_fork[OF t] assms(2-4) by blast
  have "seq_num (tgraph_nodes g x) \<noteq> seq_num (tgraph_nodes g y)"
    using sibs_seq[OF t] f by (auto simp: fork_def)
  then show ?thesis using f fork_sym[OF f] unfolding g_lt_def by (meson linorder_neqE_nat)
qed

lemma g_hb_iff:
  assumes wf: "wf_graph g" and st: "step_node g a" "step_node g b" and ne: "a \<noteq> b"
  shows "g_hb g a b \<longleftrightarrow> g_lt g a b \<and> \<not> g_par g a b"
proof -
  note t = wf_tree[OF wf]
  have not_right: "\<not> g_hb g d c" if c: "step_node g c" "step_node g d" and l: "g_lt g c d" for c d
    using g_lt_fork[OF wf c l] right_not_hb_left[OF t] c by metis
  show ?thesis
  proof
    assume h: "g_hb g a b"
    then have "\<not> g_lt g b a" using not_right[OF st(2,1)] by blast
    with h ne show "g_lt g a b \<and> \<not> g_par g a b"
      using g_lt_total[OF wf st ne] by (auto simp: g_par_def mhp_def)
  next
    assume "g_lt g a b \<and> \<not> g_par g a b"
    with ne not_right[OF st] show "g_hb g a b" by (auto simp: g_par_def mhp_def)
  qed
qed

lemma g_par_sym: "g_par g a b = g_par g b a"
  using mhp_sym by (auto simp: g_par_def)

lemma g_lev_sym:
  assumes wf: "wf_graph g" and "step_node g a" "step_node g b"
  shows "g_lev g a b = g_lev g b a"
proof (cases "a = b")
  case False
  obtain l x y where f: "fork (tgraph_nodes g) (last_allocated_node g) a b l x y"
    using steps_fork[OF wf_tree[OF wf]] assms(2,3) False by blast
  show ?thesis using fork_lev[OF wf _ _ f] fork_lev[OF wf _ _ fork_sym[OF f]] assms(2,3) by simp
qed simp

interpretation dpst: series_parallel wf_graph step_node g_lt g_par g_hb g_lev
proof (unfold_locales, goal_cases)
  case (1 g a b)
  then show ?case by (rule g_lt_total)
next
  case (2 g a)
  then show ?case by (simp add: g_par_def)
next
  case (3 g a b)
  then show ?case by (rule g_par_sym)
next
  case (4 g a b)
  then show ?case by (rule g_lev_sym)
next
  case (5 g a b)
  then show ?case by (rule g_hb_iff)
next
  case (6 g a b c)
  then show ?case by (rule g_lt_three)
next
  case (7 g a b c)
  then show ?case by (rule g_lt_three)
next
  case (8 g a b c)
  then show ?case by (rule g_lt_three)
next
  case (9 g a b c)
  then show ?case by (rule g_lt_three)
qed

end
