(* ===== verification/Task_Ids.thy ===== *)
theory Task_Ids
  imports Graph_Queries
begin

text \<open>
  Why \<open>areParallel\<close> may answer \<open>false\<close> as soon as two steps carry the same task id.
  \<open>tasks_ok\<close> says how the handlers hand ids out: a step and a scope opened for a spawn take
  the id of their parent, an \<open>ASYNC\<close> node takes the id of a new task, and no task has two
  heads. It is kept by every handler as long as each spawn uses an id that no node has yet,
  which is what \<open>++task_id_ctr\<close> of \<open>t_debug_task.h\<close> provides. The steps of one task then
  never fork at an \<open>ASYNC\<close> child.
\<close>

definition task_head :: "(nat \<Rightarrow> AFTask) \<Rightarrow> nat \<Rightarrow> bool" where
  "task_head nds i \<longleftrightarrow> i = 1 \<or> taskId (nds i) \<noteq> taskId (nds (parent (nds i)))"

definition tasks_ok :: "(nat \<Rightarrow> AFTask) \<Rightarrow> nat \<Rightarrow> bool" where
  "tasks_ok nds n \<longleftrightarrow>
     (\<forall>i. 2 \<le> i \<and> i \<le> n \<and> type (nds i) = STEP \<longrightarrow> taskId (nds i) = taskId (nds (parent (nds i)))) \<and>
     (\<forall>i. 2 \<le> i \<and> i \<le> n \<and> type (nds i) = ASYNC \<longrightarrow> taskId (nds i) \<noteq> taskId (nds (parent (nds i)))) \<and>
     (\<forall>i j. node n i \<and> node n j \<and> task_head nds i \<and> task_head nds j \<and>
        taskId (nds i) = taskId (nds j) \<longrightarrow> i = j)"

lemma tasks_okD:
  assumes "tasks_ok nds n"
  shows tasks_step: "2 \<le> i \<Longrightarrow> i \<le> n \<Longrightarrow> type (nds i) = STEP \<Longrightarrow> taskId (nds i) = taskId (nds (parent (nds i)))"
    and tasks_async: "2 \<le> i \<Longrightarrow> i \<le> n \<Longrightarrow> type (nds i) = ASYNC \<Longrightarrow> taskId (nds i) \<noteq> taskId (nds (parent (nds i)))"
    and tasks_one_head: "node n i \<Longrightarrow> node n j \<Longrightarrow> task_head nds i \<Longrightarrow> task_head nds j \<Longrightarrow>
      taskId (nds i) = taskId (nds j) \<Longrightarrow> i = j"
  subgoal using assms unfolding tasks_ok_def by blast
  subgoal using assms unfolding tasks_ok_def by blast
  subgoal using assms unfolding tasks_ok_def by blast
  done

definition fresh_id :: "AFTaskGraph \<Rightarrow> nat \<Rightarrow> bool" where
  "fresh_id g k \<longleftrightarrow> (\<forall>i. node (last_allocated_node g) i \<longrightarrow> taskId (tgraph_nodes g i) \<noteq> k)"

abbreviation g_tasks_ok :: "AFTaskGraph \<Rightarrow> bool" where
  "g_tasks_ok g \<equiv> tasks_ok (tgraph_nodes g) (last_allocated_node g)"

section \<open>The nodes of one task hang together\<close>

lemma task_head_above:
  assumes t: "tree_ok nds n"
  shows "node n i \<Longrightarrow> \<exists>h. node n h \<and> task_head nds h \<and> under nds h i \<and>
    (\<forall>z. under nds h z \<and> under nds z i \<longrightarrow> taskId (nds z) = taskId (nds i))"
proof (induction i rule: less_induct)
  case (less i)
  show ?case
  proof (cases "task_head nds i")
    case True
    have "z = i" if "under nds i z" "under nds z i" for z
      using that under_antisym by blast
    with True less.prems show ?thesis by blast
  next
    case False
    then have i: "2 \<le> i" "taskId (nds i) = taskId (nds (parent (nds i)))"
      using less.prems by (auto simp: task_head_def node_def)
    note C = tree_child[OF t less.prems i(1)]
    from less.IH[OF C(3,2)] obtain h where h: "node n h" "task_head nds h"
      "under nds h (parent (nds i))"
      "\<And>z. under nds h z \<Longrightarrow> under nds z (parent (nds i)) \<Longrightarrow> taskId (nds z) = taskId (nds (parent (nds i)))"
      by blast
    have "under nds h i"
      by (rule under_trans[OF t less.prems h(3) under_parent[OF t less.prems i(1)]])
    moreover have "taskId (nds z) = taskId (nds i)" if "under nds h z" "under nds z i" for z
      using that h(4) i(2) under_step(1)[OF t less.prems that(2)] by (cases "z = i") auto
    ultimately show ?thesis using h(1,2) by blast
  qed
qed

lemma same_task_not_parallel:
  assumes t: "tree_ok nds n" and k: "tasks_ok nds n"
    and s: "node n s" "type (nds s) = STEP" and u: "node n u" "type (nds u) = STEP"
    and ne: "s \<noteq> u" and id: "taskId (nds s) = taskId (nds u)"
  shows "\<not> mhp nds n s u"
proof -
  obtain l x y where f: "fork nds n s u l x y" by (rule steps_fork[OF t s u ne])
  then have x: "node n x" "2 \<le> x" "parent (nds x) = l" "under nds x s"
    and y: "node n y" "2 \<le> y" "parent (nds y) = l" "under nds y u"
    by (auto simp: fork_def sibs_def node_def)
  note F = fork_facts[OF t f s(1) u(1)]
  obtain h where h: "node n h" "task_head nds h" "under nds h s"
    "\<And>z. under nds h z \<Longrightarrow> under nds z s \<Longrightarrow> taskId (nds z) = taskId (nds s)"
    using task_head_above[OF t s(1)] by blast
  obtain h' where h': "node n h'" "task_head nds h'" "under nds h' u"
    "\<And>z. under nds h' z \<Longrightarrow> under nds z u \<Longrightarrow> taskId (nds z) = taskId (nds u)"
    using task_head_above[OF t u(1)] by blast
  have "taskId (nds h) = taskId (nds h')" using h(4)[OF under_refl h(3)] h'(4)[OF under_refl h'(3)] id by simp
  then have "h' = h" using tasks_one_head[OF k h'(1) h(1) h'(2) h(2)] by simp
  then have hl: "under nds h l" using fork_lowest[OF t s(1) u(1) f h(3)] h'(3) by simp
  have not_async: "type (nds z) \<noteq> ASYNC"
    if z: "node n z" "2 \<le> z" "parent (nds z) = l" "under nds z s \<or> under nds z u" for z
  proof -
    have "under nds h z"
      using under_trans[OF t z(1) hl] under_parent[OF t z(1,2)] z(3) by simp
    then have "taskId (nds z) = taskId (nds s)"
      using h(4)[of z] h'(4)[of z] \<open>h' = h\<close> id z(4) by auto
    moreover have "taskId (nds l) = taskId (nds s)" using h(4)[OF hl F(2)] .
    ultimately show ?thesis using tasks_async[OF k z(2)] z(1,3) by (auto simp: node_def)
  qed
  have "\<not> left_is_async nds x y"
    using not_async[of x] not_async[of y] x y by (auto simp: left_is_async_def)
  with fork_mhp[OF t s u f] show ?thesis by simp
qed

section \<open>areParallel\<close>

lemma areParallel_steps:
  assumes wf: "wf_graph g" and k: "g_tasks_ok g" and top: "top_cur t g = Inr c"
    and c: "c \<noteq> 1" and r: "step_node g r"
    and id: "k' = taskId (tgraph_nodes g c)"
  obtains g' where
    "areParallel k' r t g = Inr (cur_step (tgraph_nodes g c) \<noteq> r \<and>
       g_mhp g (cur_step (tgraph_nodes g c)) r, g')"
    and "query_step g g'"
proof -
  let ?s = "cur_step (tgraph_nodes g c)"
  note tr = wf_tree[OF wf]
  have "live_scope g c" using wf top top_cur_live by (auto simp: wf_graph_def)
  then have c_node: "1 \<le> c" "c \<le> last_allocated_node g" and "?s \<noteq> 0"
    using c by (auto simp: live_scope_def scope_def)
  then have s: "step_node g ?s" and sp: "parent (tgraph_nodes g ?s) = c" "2 \<le> ?s"
    using wf by (auto simp: wf_graph_def core_ok_def step_ok_def node_def)
  have sid: "taskId (tgraph_nodes g ?s) = taskId (tgraph_nodes g c)"
    using tasks_step[OF k sp(2)] s sp(1) by (simp add: node_def)
  show thesis
  proof (cases "taskId (tgraph_nodes g c) = taskId (tgraph_nodes g r)")
    case True
    then have "areParallel k' r t g = Inr (False, g)"
      by (simp add: areParallel_def id)
    moreover have "?s = r \<or> \<not> g_mhp g ?s r"
      using same_task_not_parallel[OF tr k, of ?s r] s r sid True by auto
    ultimately show thesis using that query_step_refl[OF wf] by auto
  next
    case False
    then have ne: "?s \<noteq> r" using sid by auto
    obtain g' where "parallel ?s r g = Inr (g_mhp g ?s r, g')" and "query_step g g'"
      using parallel_steps[OF wf s r ne] by blast
    with False ne show thesis using that by (simp add: areParallel_def id top)
  qed
qed

section \<open>The handlers keep the ids apart\<close>

text \<open>
  A node linked below \<open>p\<close>: nothing is asked of it when it takes its parent's id (and is not an
  \<open>ASYNC\<close> node); otherwise its id must be new (and it is not a \<open>STEP\<close>).
\<close>

lemma tasks_ok_link:
  assumes t: "tree_ok nds n" and k: "tasks_ok nds n"
    and p: "1 \<le> p" "p \<le> n" and x: "parent x = p"
    and id: "taskId x = taskId (nds p) \<and> type x \<noteq> ASYNC \<or>
      (\<forall>i. node n i \<longrightarrow> taskId (nds i) \<noteq> taskId x) \<and> type x \<noteq> STEP"
    and N: "N = nds(Suc n := x, p := (nds p)\<lparr>num_children := m\<rparr>)"
  shows "tasks_ok N (Suc n)"
proof -
  note L = linked_nodes[OF p N]
  have tk: "taskId (N i) = taskId (nds i)" if "i \<le> n" for i using p that by (auto simp: N)
  have par: "parent (nds i) \<le> n" if "2 \<le> i" "i \<le> n" for i
    using t that by (auto simp: tree_ok_def)
  have head: "task_head N i = task_head nds i" if "1 \<le> i" "i \<le> n" for i
    using par[of i] that by (cases "i = 1") (auto simp: task_head_def L tk)
  have head_new: "task_head N (Suc n) \<Longrightarrow> \<forall>i. node n i \<longrightarrow> taskId (nds i) \<noteq> taskId x"
    using id p by (auto simp: task_head_def L tk x)
  show ?thesis
    unfolding tasks_ok_def[of N]
  proof (intro conjI allI impI, goal_cases)
    case (1 i)
    show ?case
    proof (cases "i = Suc n")
      case True
      with 1 id p show ?thesis by (auto simp: L tk x)
    next
      case False
      with 1 have i: "2 \<le> i" "i \<le> n" by auto
      with 1 tasks_step[OF k i] par[OF i] show ?thesis by (simp add: L tk)
    qed
  next
    case (2 i)
    show ?case
    proof (cases "i = Suc n")
      case True
      with 2 id p show ?thesis by (auto simp: L tk x node_def)
    next
      case False
      with 2 have i: "2 \<le> i" "i \<le> n" by auto
      with 2 tasks_async[OF k i] par[OF i] show ?thesis by (simp add: L tk)
    qed
  next
    case (3 i j)
    consider "i \<le> n" "j \<le> n" | "i = Suc n" "j = Suc n" | "i = Suc n" "j \<le> n" | "i \<le> n" "j = Suc n"
      using 3 by (auto simp: node_def le_Suc_eq)
    then show ?case
    proof cases
      case 1
      with 3 have "node n i" "node n j" "task_head nds i" "task_head nds j"
        "taskId (nds i) = taskId (nds j)"
        using head by (auto simp: node_def tk)
      then show ?thesis by (rule tasks_one_head[OF k])
    next
      case 3
      then show ?thesis using head_new \<open>node (Suc n) i \<and> _\<close> by (auto simp: node_def L tk)
    next
      case 4
      then show ?thesis using head_new \<open>node (Suc n) i \<and> _\<close> by (auto simp: node_def L tk)
    qed simp
  qed
qed

lemma link_child_tasks:
  assumes core: "core_ok g" and k: "g_tasks_ok g" and p: "scope g p"
    and l: "link_child ty tk p g = Inr (i, g')"
    and ok: "tk = taskId (tgraph_nodes g p) \<and> ty \<noteq> ASYNC \<or> fresh_id g tk \<and> ty \<noteq> STEP"
  shows "g_tasks_ok g'"
    and "\<And>k. k \<noteq> tk \<Longrightarrow> fresh_id g k \<Longrightarrow> fresh_id g' k"
    and "\<And>j. j \<le> last_allocated_node g \<Longrightarrow> taskId (tgraph_nodes g' j) = taskId (tgraph_nodes g j)"
    and "taskId (tgraph_nodes g' i) = tk"
proof -
  note d = link_child_InrD[OF l scopeD(2)[OF p]]
  from core have t: "tree_ok (tgraph_nodes g) (last_allocated_node g)" by (simp add: core_ok_def)
  show "g_tasks_ok g'"
    unfolding d(2) by (rule tasks_ok_link[OF t k scopeD(1,2)[OF p] _ _ d(4)])
      (use ok in \<open>auto simp: fresh_id_def\<close>)
  show "fresh_id g' k" if "k \<noteq> tk" "fresh_id g k" for k
    using that scopeD(1,2)[OF p] by (auto simp: fresh_id_def d node_def le_Suc_eq)
  show "taskId (tgraph_nodes g' j) = taskId (tgraph_nodes g j)" if "j \<le> last_allocated_node g" for j
    using that scopeD(2)[OF p] by (auto simp: d)
  show "taskId (tgraph_nodes g' i) = tk" using scopeD(2)[OF p] by (auto simp: d)
qed

lemma set_young_tasks [simp]:
  "tasks_ok (tgraph_nodes (set_young i t g)) n = tasks_ok (tgraph_nodes g) n"
  by (simp add: tasks_ok_def task_head_def)

lemma set_young_fresh [simp]: "fresh_id (set_young i t g) k = fresh_id g k"
  by (simp add: fresh_id_def)

lemma set_cur_step_tasks [simp]:
  "tasks_ok (tgraph_nodes (set_cur_step i s g)) n = tasks_ok (tgraph_nodes g) n"
  by (simp add: tasks_ok_def task_head_def)

lemma add_step_tasks:
  assumes "core_ok g" and "g_tasks_ok g" and "scope g p" and "add_step p g = Inr g'"
  shows "g_tasks_ok g'"
proof -
  from assms(4) obtain s g1 where l: "link_child STEP (taskId (tgraph_nodes g p)) p g = Inr (s, g1)"
    and g': "g' = set_cur_step p s g1"
    by (auto simp: add_step_def bind_r_Inr_iff)
  have "g_tasks_ok g1" by (rule link_child_tasks(1)[OF assms(1-3) l]) simp
  then show ?thesis by (simp add: g')
qed

lemma spawn_scope_tasks:
  assumes core: "core_ok g" and k: "g_tasks_ok g" and c: "scope g c" and fr: "fresh_id g tk"
    and s: "spawn_scope t tk c g = Inr (c', n, g')"
  shows "g_tasks_ok g'"
proof (cases "checkForStep (tgraph_nodes g c)")
  case True
  with s obtain g1 where l: "link_child ASYNC tk c g = Inr (n, g1)"
    and e: "g' = set_young c ASYNC g1"
    by (auto simp: spawn_scope_def bind_r_Inr_iff)
  show ?thesis using link_child_tasks(1)[OF core k c l] fr by (simp add: e)
next
  case False
  with s obtain f g1 g2 where
    l1: "link_child FINISH (taskId (tgraph_nodes g c)) c g = Inr (f, g1)" and
    l2: "link_child ASYNC tk f (set_young c FINISH g1) = Inr (n, g2)" and
    e: "g' = push_cur t f (set_young f ASYNC g2)"
    by (auto simp: spawn_scope_def bind_r_Inr_iff assert_r_Inr_iff Let_def)
  note L = link_child_scope[OF core c l1] and T = link_child_tasks[OF core k c l1]
  have "tk \<noteq> taskId (tgraph_nodes g c)"
    using fr scopeD(1,2)[OF c] by (auto simp: fresh_id_def node_def)
  then have "fresh_id g1 tk" using T(2) fr by simp
  then have "g_tasks_ok g2"
    using link_child_tasks(1)[OF _ _ _ l2] L T(1) by (simp add: set_young_core)
  then have "g_tasks_ok (set_young f ASYNC g2)" by simp
  then show ?thesis by (simp only: e push_cur_fields)
qed

lemma CaptureSetTaskId_tasks:
  assumes core: "core_ok g" and sc: "scopes_ok g" and k: "g_tasks_ok g" and fr: "fresh_id g tk"
    and s: "CaptureSetTaskId t tk b g = Inr g'"
  shows "g_tasks_ok g'"
proof (cases "b = 0")
  case False
  with s obtain c c' n g1 g2 g3 where
    top: "top_cur t g = Inr c" and s1: "spawn_scope t tk c g = Inr (c', n, g1)" and
    a1: "add_step n g1 = Inr g2" and a2: "add_step c' g2 = Inr g3" and
    g': "g' = g3\<lparr>temp_cur_map := map_insert (temp_cur_map g3) tk n\<rparr>"
    by (auto simp: CaptureSetTaskId_def CaptureSpawnOnly_def bind_r_Inr_iff)
  have c: "scope g c" by (rule live_scopeD[OF top_cur_live[OF sc top]])
  note S = spawn_scope_InrD[OF core c s1]
  note A = add_step_InrD[OF a1 S(1) S(4)]
  have "g_tasks_ok g2"
    by (rule add_step_tasks[OF S(1) spawn_scope_tasks[OF core k c fr s1] S(4) a1])
  then have "g_tasks_ok g3"
    by (rule add_step_tasks[OF A(1) _ grows_scope[OF A(2) S(3)] a2])
  then show ?thesis by (simp add: g')
next
  case True
  with s obtain c f g1 g2 where
    top: "top_cur t g = Inr c" and l: "link_child FINISH tk c g = Inr (f, g1)" and
    a: "add_step f (set_young c FINISH g1) = Inr g2" and
    g': "g' = g2\<lparr>temp_cur_map := map_insert (temp_cur_map g2) tk f\<rparr>"
    by (auto simp: CaptureSetTaskId_def CaptureSpawnAndWait_def bind_r_Inr_iff)
  have c: "scope g c" by (rule live_scopeD[OF top_cur_live[OF sc top]])
  note L = link_child_scope[OF core c l]
  have "g_tasks_ok g1" using link_child_tasks(1)[OF core k c l] fr by simp
  then have "g_tasks_ok g2"
    using add_step_tasks[OF _ _ _ a] L by (simp add: set_young_core)
  then show ?thesis by (simp add: g')
qed

lemma nodes_only_tasks:
  "tgraph_nodes g' = tgraph_nodes g \<Longrightarrow> last_allocated_node g' = last_allocated_node g \<Longrightarrow>
    g_tasks_ok g \<Longrightarrow> g_tasks_ok g'"
  by simp

lemma CaptureExecute_tasks: "g_tasks_ok g \<Longrightarrow> CaptureExecute t k g = Inr g' \<Longrightarrow> g_tasks_ok g'"
  by (erule nodes_only_tasks[rotated 2])
    (auto simp: CaptureExecute_def bind_r_Inr_iff assert_r_Inr_iff Let_def)

lemma CaptureReturn_tasks: "g_tasks_ok g \<Longrightarrow> CaptureReturn t g = Inr g' \<Longrightarrow> g_tasks_ok g'"
  by (erule nodes_only_tasks[rotated 2])
    (auto simp: CaptureReturn_def bind_r_Inr_iff assert_r_Inr_iff Let_def)

lemma CaptureWait_tasks:
  "core_ok g \<Longrightarrow> scopes_ok g \<Longrightarrow> g_tasks_ok g \<Longrightarrow> CaptureWait t g = Inr g' \<Longrightarrow> g_tasks_ok g'"
  by (auto simp: CaptureWait_def bind_r_Inr_iff
      intro: add_step_tasks dest: top_cur_live live_scopeD)

lemma CaptureWaitOnly_tasks:
  assumes core: "core_ok g" and sc: "scopes_ok g" and k: "g_tasks_ok g"
    and s: "CaptureWaitOnly t g = Inr g'"
  shows "g_tasks_ok g'"
proof -
  from s obtain st c x where st: "cur g t = x # st" and
    top: "top_cur t (g\<lparr>cur := (cur g)(t := st)\<rparr>) = Inr c" and
    a: "add_step c (g\<lparr>cur := (cur g)(t := st)\<rparr>) = Inr g'"
    by (auto simp: CaptureWaitOnly_def bind_r_Inr_iff assert_r_Inr_iff Let_def)
  let ?h = "g\<lparr>cur := (cur g)(t := st)\<rparr>"
  from top have "c \<in> set (cur g t)" using st by (auto simp: top_cur_def)
  then have "scope g c" using sc by (auto simp: scopes_ok_def live_scope_def)
  then have "scope ?h c" by (simp add: scope_def)
  moreover have "core_ok ?h" using core by (simp add: core_ok_def)
  moreover have "g_tasks_ok ?h" using k by simp
  ultimately show ?thesis using add_step_tasks[OF _ _ _ a] by blast
qed

section \<open>Ids not given out stay unused\<close>

lemma link_child_fresh:
  assumes p: "scope g p" and l: "link_child ty tk p g = Inr (i, g')" and "k \<noteq> tk" "fresh_id g k"
  shows "fresh_id g' k"
proof -
  note d = link_child_InrD[OF l scopeD(2)[OF p]]
  show ?thesis using assms(3,4) scopeD(1,2)[OF p] by (auto simp: fresh_id_def d node_def le_Suc_eq)
qed

lemma fresh_id_scope: "fresh_id g k \<Longrightarrow> scope g p \<Longrightarrow> k \<noteq> taskId (tgraph_nodes g p)"
  by (auto simp: fresh_id_def scope_def node_def)

lemma fresh_id_fields:
  "tgraph_nodes g' = tgraph_nodes g \<Longrightarrow> last_allocated_node g' = last_allocated_node g \<Longrightarrow>
    fresh_id g' = fresh_id g"
  by (simp add: fresh_id_def[abs_def])

lemma set_cur_step_fresh [simp]: "fresh_id (set_cur_step i s g) k = fresh_id g k"
  by (simp add: fresh_id_def)

lemma add_step_fresh:
  assumes p: "scope g p" and a: "add_step p g = Inr g'" and f: "fresh_id g k"
  shows "fresh_id g' k"
proof -
  from a obtain s g1 where l: "link_child STEP (taskId (tgraph_nodes g p)) p g = Inr (s, g1)"
    and g': "g' = set_cur_step p s g1"
    by (auto simp: add_step_def bind_r_Inr_iff)
  show ?thesis using link_child_fresh[OF p l fresh_id_scope[OF f p] f] by (simp add: g')
qed

lemma spawn_scope_fresh:
  assumes core: "core_ok g" and c: "scope g c" and s: "spawn_scope t tk c g = Inr (c', n, g')"
    and k: "k \<noteq> tk" and f: "fresh_id g k"
  shows "fresh_id g' k"
proof (cases "checkForStep (tgraph_nodes g c)")
  case True
  with s obtain g1 where l: "link_child ASYNC tk c g = Inr (n, g1)" and e: "g' = set_young c ASYNC g1"
    by (auto simp: spawn_scope_def bind_r_Inr_iff)
  show ?thesis using link_child_fresh[OF c l k f] by (simp add: e)
next
  case False
  with s obtain fi g1 g2 where
    l1: "link_child FINISH (taskId (tgraph_nodes g c)) c g = Inr (fi, g1)" and
    l2: "link_child ASYNC tk fi (set_young c FINISH g1) = Inr (n, g2)" and
    e: "g' = push_cur t fi (set_young fi ASYNC g2)"
    by (auto simp: spawn_scope_def bind_r_Inr_iff assert_r_Inr_iff Let_def)
  have "scope g1 fi" using link_child_scope[OF core c l1] by simp
  moreover have "fresh_id g1 k" by (rule link_child_fresh[OF c l1 fresh_id_scope[OF f c] f])
  ultimately have "fresh_id g2 k" using link_child_fresh[OF _ l2 k] by simp
  moreover have "fresh_id g' = fresh_id (set_young fi ASYNC g2)"
    unfolding e by (rule fresh_id_fields) simp_all
  ultimately show ?thesis by simp
qed

lemma CaptureSetTaskId_fresh:
  assumes core: "core_ok g" and sc: "scopes_ok g" and s: "CaptureSetTaskId t tk b g = Inr g'"
    and k: "k \<noteq> tk" and f: "fresh_id g k"
  shows "fresh_id g' k"
proof (cases "b = 0")
  case False
  with s obtain c c' n g1 g2 g3 where
    top: "top_cur t g = Inr c" and s1: "spawn_scope t tk c g = Inr (c', n, g1)" and
    a1: "add_step n g1 = Inr g2" and a2: "add_step c' g2 = Inr g3" and
    g': "g' = g3\<lparr>temp_cur_map := map_insert (temp_cur_map g3) tk n\<rparr>"
    by (auto simp: CaptureSetTaskId_def CaptureSpawnOnly_def bind_r_Inr_iff)
  have c: "scope g c" by (rule live_scopeD[OF top_cur_live[OF sc top]])
  note S = spawn_scope_InrD[OF core c s1]
  note A = add_step_InrD[OF a1 S(1) S(4)]
  have "fresh_id g2 k" by (rule add_step_fresh[OF S(4) a1 spawn_scope_fresh[OF core c s1 k f]])
  then have "fresh_id g3 k" by (rule add_step_fresh[OF grows_scope[OF A(2) S(3)] a2])
  moreover have "fresh_id g' = fresh_id g3" unfolding g' by (rule fresh_id_fields) simp_all
  ultimately show ?thesis by simp
next
  case True
  with s obtain c fi g1 g2 where
    top: "top_cur t g = Inr c" and l: "link_child FINISH tk c g = Inr (fi, g1)" and
    a: "add_step fi (set_young c FINISH g1) = Inr g2" and
    g': "g' = g2\<lparr>temp_cur_map := map_insert (temp_cur_map g2) tk fi\<rparr>"
    by (auto simp: CaptureSetTaskId_def CaptureSpawnAndWait_def bind_r_Inr_iff)
  have c: "scope g c" by (rule live_scopeD[OF top_cur_live[OF sc top]])
  have "scope (set_young c FINISH g1) fi" using link_child_scope[OF core c l] by simp
  then have "fresh_id g2 k" by (rule add_step_fresh[OF _ a]) (simp add: link_child_fresh[OF c l k f])
  moreover have "fresh_id g' = fresh_id g2" unfolding g' by (rule fresh_id_fields) simp_all
  ultimately show ?thesis by simp
qed

lemma CaptureExecute_fresh: "CaptureExecute t tk g = Inr g' \<Longrightarrow> fresh_id g' = fresh_id g"
  by (rule fresh_id_fields) (auto simp: CaptureExecute_def bind_r_Inr_iff assert_r_Inr_iff Let_def)

lemma CaptureReturn_fresh: "CaptureReturn t g = Inr g' \<Longrightarrow> fresh_id g' = fresh_id g"
  by (rule fresh_id_fields) (auto simp: CaptureReturn_def bind_r_Inr_iff assert_r_Inr_iff Let_def)

lemma CaptureWaitOnly_fresh:
  assumes sc: "scopes_ok g" and s: "CaptureWaitOnly t g = Inr g'" and f: "fresh_id g k"
  shows "fresh_id g' k"
proof -
  from s obtain st c x where st: "cur g t = x # st" and
    top: "top_cur t (g\<lparr>cur := (cur g)(t := st)\<rparr>) = Inr c" and
    a: "add_step c (g\<lparr>cur := (cur g)(t := st)\<rparr>) = Inr g'"
    by (auto simp: CaptureWaitOnly_def bind_r_Inr_iff assert_r_Inr_iff Let_def)
  let ?h = "g\<lparr>cur := (cur g)(t := st)\<rparr>"
  from top have "c \<in> set (cur g t)" using st by (auto simp: top_cur_def)
  then have "scope g c" using sc by (auto simp: scopes_ok_def live_scope_def)
  then have "scope ?h c" by (simp add: scope_def)
  moreover have "fresh_id ?h k" using f by (simp add: fresh_id_def)
  ultimately show ?thesis using add_step_fresh[OF _ a] by blast
qed

end
