(* ===== verification/Lockset.thy ===== *)
theory Lockset
  imports Task_Nodes
begin

text \<open>
  Lock sets (\<open>Lockset_data.H\<close>, \<open>Lockset_data.cpp\<close>). A lock set js a 64-bit mask in which
  the bit of every held lock is off; the bits are handed out in the order in which locks
  are first seen, from the static \<open>lock_ticker\<close> and \<open>lockid_map\<close>. \<open>off_bits\<close> reads a mask
  as a set of lock numbers: taking and dropping a lock inserts and removes a number, and
  the detector's test \<open>((~a) & (~b)) == 0\<close> is disjointness.
\<close>

unbundle bit_operations_syntax

type_synonym addr = "64 word"
type_synonym mask = "64 word"

section \<open>The code\<close>

record lock_table =
  lock_ticker :: nat
  lockid_map :: "addr \<rightharpoonup> mask"

record Lockset_data =
  lockset :: mask
  locks :: "mask list"

definition new_lock_table :: lock_table where
  "new_lock_table = \<lparr>lock_ticker = 0, lockid_map = Map.empty\<rparr>"

definition new_Lockset_data :: Lockset_data where
  "new_Lockset_data = \<lparr>lockset = 0xffffffffffffffff, locks = []\<rparr>"

definition createLockset :: "Lockset_data \<Rightarrow> mask" where
  "createLockset d = lockset d"

definition addLockToStack :: "mask \<Rightarrow> Lockset_data \<Rightarrow> Lockset_data" where
  "addLockToStack lockId d = d\<lparr>locks := stack_push lockId (locks d)\<rparr>"

text \<open>
  \<open>(size_t)1 << lock_ticker\<close> is undefined from 64 locks on, which is the fault
  \<open>ShiftTooFar\<close>. The function holds \<open>lockmap_lock\<close> throughout, so it is one step.
\<close>

definition getLockId :: "addr \<Rightarrow> lock_table \<Rightarrow> (mask \<times> lock_table) result" where
  "getLockId lock_held t =
     (case lockid_map t lock_held of
        None \<Rightarrow>
          assert_r (lock_ticker t < 64) ShiftTooFar
            (let lockId = NOT (push_bit (lock_ticker t) 1) in
             Inr (lockId, t\<lparr>lock_ticker := lock_ticker t + 1,
                            lockid_map := map_insert (lockid_map t) lock_held lockId\<rparr>))
      | Some lockId \<Rightarrow> Inr (lockId, t))"

definition addLockToLockset ::
    "addr \<Rightarrow> Lockset_data \<Rightarrow> lock_table \<Rightarrow> (Lockset_data \<times> lock_table) result" where
  "addLockToLockset lock_held d t =
     bind_r (getLockId lock_held t) (\<lambda>(lockId, t1).
       let d1 = addLockToStack lockId d
       in Inr (d1\<lparr>lockset := lockset d1 AND lockId\<rparr>, t1))"

definition removeLockFromLockset :: "Lockset_data \<Rightarrow> Lockset_data result" where
  "removeLockFromLockset d =
     bind_r (stack_top (locks d)) (\<lambda>lockId.
     let d1 = d\<lparr>lockset := lockset d OR NOT lockId\<rparr> in
     bind_r (stack_pop (locks d1)) (\<lambda>rest. Inr (d1\<lparr>locks := rest\<rparr>)))"

text \<open>
  The two loops at the head of \<open>RecordAccess\<close>, which take the lock set of the enclosing
  region to that of one access: locks acquired since, then locks released since.
\<close>

fun acquire_all :: "addr list \<Rightarrow> mask \<Rightarrow> lock_table \<Rightarrow> (mask \<times> lock_table) result" where
  "acquire_all [] w t = Inr (w, t)"
| "acquire_all (a # as) w t =
     bind_r (getLockId a t) (\<lambda>(i, t1). acquire_all as (w AND i) t1)"

fun release_all :: "addr list \<Rightarrow> mask \<Rightarrow> lock_table \<Rightarrow> (mask \<times> lock_table) result" where
  "release_all [] w t = Inr (w, t)"
| "release_all (a # as) w t =
     bind_r (getLockId a t) (\<lambda>(i, t1). release_all as (w OR NOT i) t1)"

section \<open>Masks as sets of lock numbers\<close>

definition lock_bit :: "nat \<Rightarrow> mask" where
  "lock_bit n = NOT (push_bit n 1)"

definition off_bits :: "mask \<Rightarrow> nat set" where
  "off_bits w = {n. n < 64 \<and> \<not> bit w n}"

lemma off_bits_iff: "n \<in> off_bits w \<longleftrightarrow> n < 64 \<and> \<not> bit w n"
  by (simp add: off_bits_def)

lemma off_bits_all_ones [simp]: "off_bits (- 1) = {}"
  by (auto simp: off_bits_def)

lemma off_bits_full: "off_bits 0xffffffffffffffff = {}"
proof -
  have "(0xffffffffffffffff :: mask) = - 1" by simp
  then show ?thesis by (simp only: off_bits_all_ones)
qed

lemma off_bits_and [simp]: "off_bits (a AND b) = off_bits a \<union> off_bits b"
  by (auto simp: off_bits_def bit_and_iff)

lemma off_bits_or [simp]: "off_bits (a OR b) = off_bits a \<inter> off_bits b"
  by (auto simp: off_bits_def bit_or_iff)

lemma off_bits_not: "off_bits (NOT a) = {..<64} - off_bits a"
  by (auto simp: off_bits_def bit_not_iff)

lemma off_bits_lt: "off_bits w \<subseteq> {..<64}"
  by (auto simp: off_bits_def)

lemma off_bits_lock_bit [simp]: "n < 64 \<Longrightarrow> off_bits (lock_bit n) = {n}"
  by (auto simp: off_bits_def lock_bit_def bit_not_iff bit_exp_iff)

lemma off_bits_drop: "off_bits (a OR NOT b) = off_bits a - off_bits b"
  by (auto simp: off_bits_not dest: subsetD[OF off_bits_lt])

lemma off_bits_inject: "off_bits a = off_bits b \<longleftrightarrow> a = b"
proof
  assume e: "off_bits a = off_bits b"
  show "a = b"
  proof (rule bit_word_eqI)
    fix n
    assume "n < LENGTH(64)"
    then show "bit a n = bit b n"
      using e[THEN eqset_imp_iff, of n] by (simp add: off_bits_iff)
  qed
qed simp

lemma zero_mask_iff: "w = 0 \<longleftrightarrow> off_bits w = {..<64}"
  using off_bits_inject[of w 0] by (auto simp: off_bits_def)

definition disjoint_masks :: "mask \<Rightarrow> mask \<Rightarrow> bool" where
  "disjoint_masks a b \<longleftrightarrow> (NOT a) AND (NOT b) = 0"

lemma disjoint_masks_iff: "disjoint_masks a b \<longleftrightarrow> off_bits a \<inter> off_bits b = {}"
proof -
  have "(NOT a) AND (NOT b) = 0 \<longleftrightarrow> off_bits (NOT (a OR b)) = {..<64}"
    by (simp add: zero_mask_iff off_bits_not)
  also have "\<dots> \<longleftrightarrow> off_bits a \<inter> off_bits b = {}"
    using off_bits_lt[of a] by (auto simp: off_bits_not)
  finally show ?thesis by (simp add: disjoint_masks_def)
qed

lemma disjoint_masks_sym: "disjoint_masks a b = disjoint_masks b a"
  by (auto simp: disjoint_masks_iff)

section \<open>Handing out tickets\<close>

text \<open>
  \<open>getLockId\<close> and \<open>get_cur_tid\<close> have one contract: a key that has a ticket keeps it, a new
  key gets one that no other key has.
\<close>

locale tickets =
  fixes lookup :: "'s \<Rightarrow> 'k \<Rightarrow> 'v option"
    and take_ticket :: "'k \<Rightarrow> 's \<Rightarrow> ('v \<times> 's) result"
    and ok :: "'s \<Rightarrow> bool"
  assumes known: "lookup s k = Some v \<Longrightarrow> take_ticket k s = Inr (v, s)"
    and fresh_lookup: "ok s \<Longrightarrow> lookup s k = None \<Longrightarrow> take_ticket k s = Inr (v, s') \<Longrightarrow>
      lookup s' = (lookup s)(k \<mapsto> v)"
    and fresh_new: "ok s \<Longrightarrow> lookup s k = None \<Longrightarrow> take_ticket k s = Inr (v, s') \<Longrightarrow>
      v \<notin> ran (lookup s)"
    and fresh_ok: "ok s \<Longrightarrow> lookup s k = None \<Longrightarrow> take_ticket k s = Inr (v, s') \<Longrightarrow> ok s'"
begin

lemma ticket_ok: "ok s \<Longrightarrow> take_ticket k s = Inr (v, s') \<Longrightarrow> ok s'"
  by (cases "lookup s k") (auto simp: known dest: fresh_ok)

lemma ticket_of: "ok s \<Longrightarrow> take_ticket k s = Inr (v, s') \<Longrightarrow> lookup s' k = Some v"
  by (cases "lookup s k") (auto simp: known dest: fresh_lookup)

lemma ticket_kept:
  "ok s \<Longrightarrow> take_ticket k s = Inr (v, s') \<Longrightarrow> lookup s j = Some w \<Longrightarrow> lookup s' j = Some w"
  using known[of s k] fresh_lookup[of s k v s'] by (cases "lookup s k") auto

lemma ticket_again:
  "ok s \<Longrightarrow> take_ticket k s = Inr (v, s') \<Longrightarrow> take_ticket k s' = Inr (v, s')"
  using ticket_of known by blast

lemma ticket_unique:
  assumes "ok s" and "inj_on (lookup s) (dom (lookup s))" and "take_ticket k s = Inr (v, s')"
  shows "inj_on (lookup s') (dom (lookup s'))"
proof (cases "lookup s k")
  case None
  note l = fresh_lookup[OF assms(1) None assms(3)] and n = fresh_new[OF assms(1) None assms(3)]
  show ?thesis
  proof (rule inj_onI)
    fix x y
    assume "x \<in> dom (lookup s')" "y \<in> dom (lookup s')" "lookup s' x = lookup s' y"
    with l n assms(2) None show "x = y"
      by (auto simp: ran_def inj_on_def split: if_splits)
  qed
qed (use assms known in auto)

end

section \<open>The lock table\<close>

text \<open>The locks seen so far hold the bits below \<open>lock_ticker\<close>, one each.\<close>

definition lock_table_ok :: "lock_table \<Rightarrow> bool" where
  "lock_table_ok t \<longleftrightarrow> lock_ticker t \<le> 64 \<and>
     ran (lockid_map t) = lock_bit ` {..<lock_ticker t}"

definition lock_code :: "lock_table \<Rightarrow> bool" where
  "lock_code t \<longleftrightarrow> inj_on (lockid_map t) (dom (lockid_map t))"

lemma new_lock_table_ok: "lock_table_ok new_lock_table" "lock_code new_lock_table"
  by (auto simp: lock_table_ok_def lock_code_def new_lock_table_def)

lemma lock_bit_inject: "m < 64 \<Longrightarrow> n < 64 \<Longrightarrow> lock_bit m = lock_bit n \<longleftrightarrow> m = n"
  by (metis off_bits_lock_bit singleton_inject)

lemma getLockId_new:
  assumes "lockid_map t a = None" and "getLockId a t = Inr (i, t')"
  shows "lock_ticker t < 64" "i = lock_bit (lock_ticker t)" "lock_ticker t' = Suc (lock_ticker t)"
    "lockid_map t' = (lockid_map t)(a \<mapsto> i)"
  using assms by (auto simp: getLockId_def lock_bit_def assert_r_Inr_iff Let_def map_insert_def)

interpretation lock_tickets: tickets lockid_map getLockId lock_table_ok
proof (unfold_locales, goal_cases)
  case (1 s k v)
  then show ?case by (simp add: getLockId_def)
next
  case (2 s k v s')
  then show ?case using getLockId_new(4) by blast
next
  case (3 s k v s')
  note n = getLockId_new[OF 3(2,3)]
  from n(1) have "v \<notin> lock_bit ` {..<lock_ticker s}" unfolding n(2)
    by (auto simp: lock_bit_inject)
  with 3(1) show ?case by (simp add: lock_table_ok_def)
next
  case (4 s k v s')
  note n = getLockId_new[OF 4(2,3)]
  have "ran (lockid_map s') = insert v (ran (lockid_map s))"
    using 4(2) n(4) by simp
  with 4(1) n show ?case by (simp add: lock_table_ok_def lessThan_Suc)
qed

text \<open>The locks a mask stands for.\<close>

definition locks_in :: "lock_table \<Rightarrow> mask \<Rightarrow> addr set" where
  "locks_in t w = {a. \<exists>i. lockid_map t a = Some i \<and> off_bits i \<subseteq> off_bits w}"

definition mask_ok :: "lock_table \<Rightarrow> mask \<Rightarrow> bool" where
  "mask_ok t w \<longleftrightarrow> off_bits w \<subseteq> {..<lock_ticker t}"

lemma lock_id_bit:
  assumes "lock_table_ok t" and "lockid_map t a = Some i"
  obtains n where "n < lock_ticker t" and "n < 64" and "i = lock_bit n"
proof -
  from assms(2) have "i \<in> ran (lockid_map t)" by (auto simp: ran_def)
  with assms(1) show thesis using that by (force simp: lock_table_ok_def)
qed

lemma bit_lock:
  assumes "lock_table_ok t" and "n < lock_ticker t"
  obtains a where "lockid_map t a = Some (lock_bit n)"
proof -
  from assms have "lock_bit n \<in> ran (lockid_map t)" by (simp add: lock_table_ok_def)
  then show thesis using that by (auto simp: ran_def)
qed

lemma disjoint_masks_locks:
  assumes t: "lock_table_ok t" and w: "mask_ok t v" "mask_ok t w"
  shows "disjoint_masks v w \<longleftrightarrow> locks_in t v \<inter> locks_in t w = {}"
proof
  assume "disjoint_masks v w"
  then have d: "off_bits v \<inter> off_bits w = {}" by (simp add: disjoint_masks_iff)
  show "locks_in t v \<inter> locks_in t w = {}"
  proof (rule ccontr)
    assume "locks_in t v \<inter> locks_in t w \<noteq> {}"
    then obtain a i where a: "lockid_map t a = Some i" "off_bits i \<subseteq> off_bits v" "off_bits i \<subseteq> off_bits w"
      by (auto simp: locks_in_def)
    obtain n where "n < 64" "i = lock_bit n" using lock_id_bit[OF t a(1)] .
    with a d show False by auto
  qed
next
  assume l: "locks_in t v \<inter> locks_in t w = {}"
  show "disjoint_masks v w"
    unfolding disjoint_masks_iff
  proof (rule ccontr)
    assume "off_bits v \<inter> off_bits w \<noteq> {}"
    then obtain n where n: "n \<in> off_bits v" "n \<in> off_bits w" by blast
    with w have "n < lock_ticker t" "n < 64" by (auto simp: mask_ok_def off_bits_iff)
    then obtain a where "lockid_map t a = Some (lock_bit n)" using bit_lock[OF t] by blast
    with n \<open>n < 64\<close> have "a \<in> locks_in t v \<inter> locks_in t w" by (auto simp: locks_in_def)
    with l show False by blast
  qed
qed

section \<open>What a task holds\<close>

text \<open>
  \<open>holds t d h\<close>: the lock set \<open>d\<close> of a task stands for the locks \<open>h\<close>, the one taken last
  in front. It is stable when other tasks bring new locks into the table.
\<close>

definition table_wf :: "lock_table \<Rightarrow> bool" where
  "table_wf t \<longleftrightarrow> lock_table_ok t \<and> lock_code t"

definition extends :: "lock_table \<Rightarrow> lock_table \<Rightarrow> bool" where
  "extends t t' \<longleftrightarrow> lockid_map t \<subseteq>\<^sub>m lockid_map t' \<and> lock_ticker t \<le> lock_ticker t'"

definition holds :: "lock_table \<Rightarrow> Lockset_data \<Rightarrow> addr list \<Rightarrow> bool" where
  "holds t d h \<longleftrightarrow> distinct h \<and> list_all2 (\<lambda>a i. lockid_map t a = Some i) h (locks d) \<and>
     off_bits (lockset d) = (\<Union>i\<in>set (locks d). off_bits i)"

lemma extends_refl [simp]: "extends t t"
  by (simp add: extends_def)

lemma extends_trans: "extends a b \<Longrightarrow> extends b c \<Longrightarrow> extends a c"
  unfolding extends_def using map_le_trans by force

lemma extends_lookup: "extends t t' \<Longrightarrow> lockid_map t a = Some i \<Longrightarrow> lockid_map t' a = Some i"
  by (force simp: extends_def map_le_def dom_def)

lemma getLockId_wf:
  assumes t: "table_wf t" and g: "getLockId a t = Inr (i, t')"
  shows "table_wf t'" "extends t t'" "lockid_map t' a = Some i"
proof -
  from t have o: "lock_table_ok t" and c: "lock_code t" by (simp_all add: table_wf_def)
  show "table_wf t'"
    using lock_tickets.ticket_ok[OF o g] lock_tickets.ticket_unique[OF o _ g] c
    by (simp add: table_wf_def lock_code_def)
  show "lockid_map t' a = Some i" by (rule lock_tickets.ticket_of[OF o g])
  show "extends t t'"
  proof (cases "lockid_map t a")
    case None
    with getLockId_new[OF None g] show ?thesis by (auto simp: extends_def map_le_def dom_def)
  next
    case (Some j)
    with g show ?thesis by (simp add: getLockId_def)
  qed
qed

lemma getLockId_succeeds:
  assumes "lock_ticker t < 64 \<or> a \<in> dom (lockid_map t)"
  obtains i t' where "getLockId a t = Inr (i, t')"
  using assms that by (cases "lockid_map t a") (auto simp: getLockId_def Let_def)

lemma holds_extends: "holds t d h \<Longrightarrow> extends t t' \<Longrightarrow> holds t' d h"
  unfolding holds_def by (auto intro: list_all2_mono extends_lookup)

lemma new_Lockset_holds: "holds t new_Lockset_data []"
  by (simp add: holds_def new_Lockset_data_def off_bits_full)

lemma mask_ok_extends: "mask_ok t w \<Longrightarrow> extends t t' \<Longrightarrow> mask_ok t' w"
  by (auto simp: mask_ok_def extends_def)

lemma locks_in_iff:
  assumes "table_wf t" and "lockid_map t a = Some i"
  shows "a \<in> locks_in t w \<longleftrightarrow> off_bits i \<inter> off_bits w \<noteq> {}"
proof -
  obtain n where "n < 64" "i = lock_bit n"
    using lock_id_bit assms by (metis table_wf_def)
  with assms(2) show ?thesis by (auto simp: locks_in_def)
qed

lemma same_lock:
  assumes t: "table_wf t" and a: "lockid_map t a = Some i" and b: "lockid_map t b = Some j"
    and n: "off_bits i \<inter> off_bits j \<noteq> {}"
  shows "a = b"
proof -
  from t have o: "lock_table_ok t" by (simp add: table_wf_def)
  obtain m where m: "m < 64" "i = lock_bit m" using lock_id_bit[OF o a] .
  obtain k where k: "k < 64" "j = lock_bit k" using lock_id_bit[OF o b] .
  from n m k have "i = j" by simp
  moreover have "inj_on (lockid_map t) (dom (lockid_map t))"
    using t by (simp add: table_wf_def lock_code_def)
  ultimately show ?thesis using a b by (simp add: inj_on_def dom_def)
qed

lemma holds_locks:
  assumes t: "table_wf t" and h: "holds t d h"
  shows "locks_in t (lockset d) = set h" and "mask_ok t (lockset d)"
proof -
  from h have l: "list_all2 (\<lambda>a i. lockid_map t a = Some i) h (locks d)"
    and o: "off_bits (lockset d) = (\<Union>i\<in>set (locks d). off_bits i)" by (auto simp: holds_def)
  have fwd: "\<exists>i\<in>set (locks d). lockid_map t a = Some i" if "a \<in> set h" for a
    using l that by (induction rule: list_all2_induct) auto
  have bwd: "\<exists>a\<in>set h. lockid_map t a = Some i" if "i \<in> set (locks d)" for i
    using l that by (induction rule: list_all2_induct) auto
  show "locks_in t (lockset d) = set h"
  proof (intro equalityI subsetI)
    fix a
    assume a: "a \<in> locks_in t (lockset d)"
    then obtain i where i: "lockid_map t a = Some i" by (auto simp: locks_in_def)
    with a t have "off_bits i \<inter> off_bits (lockset d) \<noteq> {}" by (simp add: locks_in_iff)
    then obtain j where j: "j \<in> set (locks d)" "off_bits i \<inter> off_bits j \<noteq> {}" using o by auto
    from bwd[OF j(1)] obtain b where "b \<in> set h" "lockid_map t b = Some j" by blast
    with same_lock[OF t i _ j(2)] show "a \<in> set h" by blast
  next
    fix a
    assume "a \<in> set h"
    from fwd[OF this] obtain i where "i \<in> set (locks d)" "lockid_map t a = Some i" by blast
    with o show "a \<in> locks_in t (lockset d)" by (auto simp: locks_in_def)
  qed
  show "mask_ok t (lockset d)"
    unfolding mask_ok_def o
  proof (intro UN_least)
    fix i
    assume "i \<in> set (locks d)"
    from bwd[OF this] obtain a where "lockid_map t a = Some i" by blast
    then obtain n where "n < lock_ticker t" "n < 64" "i = lock_bit n"
      using lock_id_bit t by (metis table_wf_def)
    then show "off_bits i \<subseteq> {..<lock_ticker t}" by simp
  qed
qed

lemma addLock_holds:
  assumes t: "table_wf t" and h: "holds t d h" and a: "a \<notin> set h"
    and s: "addLockToLockset a d t = Inr (d', t')"
  shows "holds t' d' (a # h)" "table_wf t'" "extends t t'"
proof -
  from s obtain i where g: "getLockId a t = Inr (i, t')"
    and d: "locks d' = i # locks d" "lockset d' = lockset d AND i"
    by (auto simp: addLockToLockset_def addLockToStack_def stack_push_def bind_r_Inr_iff Let_def)
  note w = getLockId_wf[OF t g]
  show "table_wf t'" "extends t t'" by (fact w)+
  show "holds t' d' (a # h)"
    using holds_extends[OF h w(2)] a w(3) by (auto simp: holds_def d)
qed

lemma holds_unique:
  assumes "holds t d h" and "holds t d' h"
  shows "lockset d = lockset d'" "locks d = locks d'"
proof -
  have u: "list_all2 (\<lambda>a i. lockid_map t a = Some i) h xs \<Longrightarrow>
      list_all2 (\<lambda>a i. lockid_map t a = Some i) h ys \<Longrightarrow> xs = ys" for xs ys
    by (induction h arbitrary: xs ys) (auto simp: list_all2_Cons1)
  show l: "locks d = locks d'" using assms u by (auto simp: holds_def)
  have "off_bits (lockset d) = off_bits (lockset d')"
    using assms unfolding holds_def l by simp
  then show "lockset d = lockset d'" by (simp only: off_bits_inject)
qed

lemma removeLock_holds:
  assumes t: "table_wf t" and h: "holds t d (a # h)"
  obtains d' where "removeLockFromLockset d = Inr d'" and "holds t d' h"
proof -
  from h obtain i js where i: "locks d = i # js" "lockid_map t a = Some i"
    and l: "list_all2 (\<lambda>a i. lockid_map t a = Some i) h js"
    and a: "a \<notin> set h" "distinct h"
    and o: "off_bits (lockset d) = off_bits i \<union> (\<Union>i\<in>set js. off_bits i)"
    by (auto simp: holds_def list_all2_Cons1)
  have "off_bits i \<inter> off_bits j = {}" if "j \<in> set js" for j
  proof (rule ccontr)
    assume n: "off_bits i \<inter> off_bits j \<noteq> {}"
    from l that obtain b where "b \<in> set h" "lockid_map t b = Some j"
      by (induction rule: list_all2_induct) auto
    with same_lock[OF t i(2) _ n] a show False by blast
  qed
  then have "off_bits (lockset d OR NOT i) = (\<Union>i\<in>set js. off_bits i)"
    unfolding off_bits_drop o by blast
  then have "holds t (d\<lparr>lockset := lockset d OR NOT i, locks := js\<rparr>) h"
    using l a by (simp add: holds_def)
  moreover have "removeLockFromLockset d = Inr (d\<lparr>lockset := lockset d OR NOT i, locks := js\<rparr>)"
    by (simp add: removeLockFromLockset_def i(1))
  ultimately show thesis by (rule that[rotated])
qed

section \<open>The lock set of one access\<close>

lemma acquire_all_locks:
  "acquire_all as w t = Inr (w', t') \<Longrightarrow> table_wf t \<Longrightarrow> mask_ok t w \<Longrightarrow>
    table_wf t' \<and> extends t t' \<and> mask_ok t' w' \<and> locks_in t' w' = locks_in t' w \<union> set as"
proof (induction "as" arbitrary: w t)
  case (Cons a as)
  then obtain i t1 where g: "getLockId a t = Inr (i, t1)"
    and r: "acquire_all as (w AND i) t1 = Inr (w', t')"
    by (auto simp: bind_r_Inr_iff)
  note G = getLockId_wf[OF Cons.prems(2) g]
  have "off_bits i \<subseteq> {..<lock_ticker t1}"
    using lock_id_bit G(1,3) by (metis table_wf_def off_bits_lock_bit lessThan_iff subsetI singletonD)
  then have "mask_ok t1 (w AND i)"
    using mask_ok_extends[OF Cons.prems(3) G(2)] by (simp add: mask_ok_def)
  from Cons.IH[OF r G(1) this] have t': "table_wf t'" "extends t1 t'" "mask_ok t' w'"
    and l: "locks_in t' w' = locks_in t' (w AND i) \<union> set as" by auto
  have ai: "lockid_map t' a = Some i" by (rule extends_lookup[OF t'(2) G(3)])
  have "b \<in> locks_in t' (w AND i) \<longleftrightarrow> b \<in> locks_in t' w \<or> b = a" for b
  proof (cases "lockid_map t' b")
    case (Some j)
    obtain n where n: "n < 64" "i = lock_bit n"
      using lock_id_bit t'(1) ai by (metis table_wf_def)
    have "off_bits j \<inter> off_bits i \<noteq> {} \<longleftrightarrow> b = a"
      using same_lock[OF t'(1) Some ai] Some ai n by auto
    then show ?thesis using locks_in_iff[OF t'(1) Some] by auto
  qed (use ai in \<open>auto simp: locks_in_def\<close>)
  with l t' extends_trans[OF G(2) t'(2)] show ?case by auto
qed simp

lemma release_all_locks:
  "release_all as w t = Inr (w', t') \<Longrightarrow> table_wf t \<Longrightarrow> mask_ok t w \<Longrightarrow>
    table_wf t' \<and> extends t t' \<and> mask_ok t' w' \<and> locks_in t' w' = locks_in t' w - set as"
proof (induction "as" arbitrary: w t)
  case (Cons a as)
  then obtain i t1 where g: "getLockId a t = Inr (i, t1)"
    and r: "release_all as (w OR NOT i) t1 = Inr (w', t')"
    by (auto simp: bind_r_Inr_iff)
  note G = getLockId_wf[OF Cons.prems(2) g]
  have "mask_ok t1 (w OR NOT i)"
    using mask_ok_extends[OF Cons.prems(3) G(2)] by (auto simp: mask_ok_def off_bits_drop)
  from Cons.IH[OF r G(1) this] have t': "table_wf t'" "extends t1 t'" "mask_ok t' w'"
    and l: "locks_in t' w' = locks_in t' (w OR NOT i) - set as" by auto
  have ai: "lockid_map t' a = Some i" by (rule extends_lookup[OF t'(2) G(3)])
  have "b \<in> locks_in t' (w OR NOT i) \<longleftrightarrow> b \<in> locks_in t' w \<and> b \<noteq> a" for b
  proof (cases "lockid_map t' b")
    case (Some j)
    obtain n where n: "n < 64" "i = lock_bit n"
      using lock_id_bit t'(1) ai by (metis table_wf_def)
    obtain m where m: "m < 64" "j = lock_bit m"
      using lock_id_bit t'(1) Some by (metis table_wf_def)
    have "off_bits j \<inter> off_bits i \<noteq> {} \<longleftrightarrow> b = a"
      using same_lock[OF t'(1) Some ai] Some ai n by auto
    then show ?thesis using Some m n by (auto simp: locks_in_def off_bits_drop simp del: off_bits_or)
  qed (auto simp: locks_in_def)
  with l t' extends_trans[OF G(2) t'(2)] show ?case by auto
qed simp

end
