(* ===== verification/Detector.thy ===== *)
theory Detector
  imports Two_Slots Task_Ids Lockset
begin

text \<open>
  The race detector of \<open>tdebug-lib\<close> (\<open>DR_Detector.H\<close>, \<open>DR_Detector.cpp\<close>,
  \<open>Address_data.H\<close>): the shadow memory, the per-thread lock sets, the table of violations,
  and \<open>RecordAccess\<close>, which checks one access against the access history of its shadow cell
  and then adds it to that history.

  An access runs from \<open>PIN_GetLock(&dr_address_data->addr_lock)\<close> to the matching release;
  it is one transition here. The pointers of a history entry are node indices, \<open>None\<close> being
  \<open>NULL\<close>.
\<close>

section \<open>Data\<close>

definition NUM_FIXED_ENTRIES :: nat where
  "NUM_FIXED_ENTRIES = 3"

definition SS_PRIMARY_TABLE_ENTRIES :: nat where
  "SS_PRIMARY_TABLE_ENTRIES = 1024"

definition SS_SEC_TABLE_ENTRIES :: nat where
  "SS_SEC_TABLE_ENTRIES = 4 * 1024 * 1024"

record Address_data =
  a_lockset :: mask
  w1_task :: "nat option"
  w2_task :: "nat option"
  r1_task :: "nat option"
  r2_task :: "nat option"

record violation_data =
  v_task :: nat
  v_access :: AccessType

record violation =
  a1 :: violation_data
  a2 :: violation_data

record Dr_Address_Data =
  f_entries :: "Address_data list"
  access_list :: "Address_data list option"

text \<open>
  \<open>page_mapped i\<close> is the answer of the \<open>mmap\<close> that would make secondary table \<open>i\<close>. The
  code does not look at it: a failed one is a wild pointer, read at once.
\<close>

record detector =
  taskGraph :: AFTaskGraph
  lock_tab :: lock_table
  thd_lockset :: "nat \<Rightarrow> Lockset_data list"
  shadow_space :: "nat \<Rightarrow> (nat \<Rightarrow> Dr_Address_Data) option"
  page_mapped :: "nat \<Rightarrow> bool"
  all_violations :: "addr \<rightharpoonup> violation"

text \<open>The zero-filled memory of a fresh secondary table.\<close>

definition zero_entry :: Address_data where
  "zero_entry = \<lparr>a_lockset = 0, w1_task = None, w2_task = None, r1_task = None, r2_task = None\<rparr>"

definition zero_cell :: Dr_Address_Data where
  "zero_cell = \<lparr>f_entries = replicate NUM_FIXED_ENTRIES zero_entry, access_list = None\<rparr>"

definition TD_Activate ::
    "bool \<Rightarrow> bool \<Rightarrow> bool \<Rightarrow> nat \<Rightarrow> (nat \<Rightarrow> nat list) \<Rightarrow> (nat \<Rightarrow> bool) \<Rightarrow> detector result" where
  "TD_Activate graph_mmap_ok malloc_ok shadow_mmap_ok base tids pages =
     bind_r (new_AFTaskGraph graph_mmap_ok malloc_ok base tids) (\<lambda>g.
       assert_r shadow_mmap_ok AssertFail
         (Inr \<lparr>taskGraph = g, lock_tab = new_lock_table,
               thd_lockset = (\<lambda>_. [])(0 := [new_Lockset_data]),
               shadow_space = (\<lambda>_. None), page_mapped = pages, all_violations = Map.empty\<rparr>))"

section \<open>Lock sets of the running tasks\<close>

definition CaptureLockAcquire :: "nat \<Rightarrow> addr \<Rightarrow> detector \<Rightarrow> detector result" where
  "CaptureLockAcquire threadid lock_addr d =
     thread_slot threadid
       (case thd_lockset d threadid of
          [] \<Rightarrow> Inl EmptyStack
        | curLockset # rest \<Rightarrow>
            bind_r (addLockToLockset lock_addr curLockset (lock_tab d)) (\<lambda>(ls, t).
              Inr (d\<lparr>thd_lockset := (thd_lockset d)(threadid := ls # rest), lock_tab := t\<rparr>)))"

definition CaptureLockRelease :: "nat \<Rightarrow> addr \<Rightarrow> detector \<Rightarrow> detector result" where
  "CaptureLockRelease threadid lock_addr d =
     thread_slot threadid
       (case thd_lockset d threadid of
          [] \<Rightarrow> Inl EmptyStack
        | curLockset # rest \<Rightarrow>
            bind_r (removeLockFromLockset curLockset) (\<lambda>ls.
              Inr (d\<lparr>thd_lockset := (thd_lockset d)(threadid := ls # rest)\<rparr>)))"

text \<open>The free functions \<open>CaptureExecute\<close> and \<open>CaptureReturn\<close> of \<open>DR_Detector.cpp\<close>.\<close>

definition DR_CaptureExecute :: "nat \<Rightarrow> detector \<Rightarrow> detector result" where
  "DR_CaptureExecute threadid d =
     thread_slot threadid
       (Inr (d\<lparr>thd_lockset := (thd_lockset d)(threadid :=
          stack_push new_Lockset_data (thd_lockset d threadid))\<rparr>))"

definition DR_CaptureReturn :: "nat \<Rightarrow> detector \<Rightarrow> detector result" where
  "DR_CaptureReturn threadid d =
     thread_slot threadid
       (bind_r (stack_top (thd_lockset d threadid)) (\<lambda>curLockset.
        bind_r (stack_pop (thd_lockset d threadid)) (\<lambda>rest.
          Inr (d\<lparr>thd_lockset := (thd_lockset d)(threadid := rest)\<rparr>))))"

section \<open>Shadow memory\<close>

definition primary_index :: "addr \<Rightarrow> nat" where
  "primary_index addr = unat (drop_bit 22 addr AND 0x3ff)"

definition cell_offset :: "addr \<Rightarrow> nat" where
  "cell_offset addr = unat (addr AND 0x3fffff)"

definition open_page :: "addr \<Rightarrow> detector \<Rightarrow> ((nat \<Rightarrow> Dr_Address_Data) \<times> detector) result" where
  "open_page addr d =
     (case shadow_space d (primary_index addr) of
        Some page \<Rightarrow> Inr (page, d)
      | None \<Rightarrow>
          assert_r (page_mapped d (primary_index addr)) NullDeref
            (let page = (\<lambda>_. zero_cell) in
             Inr (page, d\<lparr>shadow_space := (shadow_space d)(primary_index addr := Some page)\<rparr>)))"

definition store_cell :: "addr \<Rightarrow> Dr_Address_Data \<Rightarrow> detector \<Rightarrow> detector" where
  "store_cell addr c d =
     d\<lparr>shadow_space := (shadow_space d)(primary_index addr :=
        map_option (\<lambda>page. page(cell_offset addr := c)) (shadow_space d (primary_index addr)))\<rparr>"

section \<open>Checking an access against an entry\<close>

definition exceptions :: "nat \<Rightarrow> addr \<Rightarrow> detector \<Rightarrow> bool result" where
  "exceptions threadid addr d =
     thread_slot threadid
       (case tidToTaskIdMap (taskGraph d) threadid of
          [] \<Rightarrow> Inr True
        | k # _ \<Rightarrow> Inr (k = 0 \<or> thd_lockset d threadid = [] \<or> all_violations d addr \<noteq> None))"

text \<open>\<open>areParallel(tidToTaskIdMap[threadid].top(), remote, threadid)\<close>.\<close>

definition races_with :: "nat \<Rightarrow> nat \<Rightarrow> AFTaskGraph \<Rightarrow> (bool \<times> AFTaskGraph) result" where
  "races_with threadid remote g =
     bind_r (stack_top (tidToTaskIdMap g threadid)) (\<lambda>k. areParallel k remote threadid g)"

definition check_slot ::
    "nat \<Rightarrow> violation_data \<Rightarrow> nat option \<Rightarrow> AccessType \<Rightarrow> AFTaskGraph
       \<Rightarrow> (violation option \<times> AFTaskGraph) result" where
  "check_slot threadid acc p prior g =
     (case p of
        None \<Rightarrow> Inr (None, g)
      | Some r \<Rightarrow> bind_r (races_with threadid r g) (\<lambda>(b, g1).
          Inr (if b then Some \<lparr>a1 = acc, a2 = \<lparr>v_task = r, v_access = prior\<rparr>\<rparr> else None, g1)))"

definition or_else ::
    "(violation option \<times> AFTaskGraph) result \<Rightarrow>
     (AFTaskGraph \<Rightarrow> (violation option \<times> AFTaskGraph) result) \<Rightarrow>
     (violation option \<times> AFTaskGraph) result" where
  "or_else m f = bind_r m (\<lambda>(v, g). case v of None \<Rightarrow> f g | Some _ \<Rightarrow> Inr (v, g))"

definition check_entry ::
    "nat \<Rightarrow> violation_data \<Rightarrow> Address_data \<Rightarrow> AFTaskGraph \<Rightarrow> (violation option \<times> AFTaskGraph) result" where
  "check_entry threadid acc e g =
     or_else (check_slot threadid acc (w1_task e) WRITE g) (\<lambda>g.
     or_else (check_slot threadid acc (w2_task e) WRITE g) (\<lambda>g.
       if v_access acc = WRITE then
         or_else (check_slot threadid acc (r1_task e) READ g) (\<lambda>g.
           check_slot threadid acc (r2_task e) READ g)
       else Inr (None, g)))"

text \<open>
  The loop over the fixed entries: it stops at the first unused one (lock set 0), which the
  access may take, and at the first race; the entry with the access's own lock set is
  remembered. The test \<open>race_detected && f_insert_index != -1\<close> at its head never holds,
  every race having left the loop.
\<close>

fun scan_fixed ::
    "nat \<Rightarrow> violation_data \<Rightarrow> mask \<Rightarrow> nat \<Rightarrow> Address_data list \<Rightarrow> nat option \<Rightarrow> AFTaskGraph
       \<Rightarrow> (violation option \<times> nat option \<times> AFTaskGraph) result" where
  "scan_fixed threadid acc curLockset i [] ins g = Inr (None, ins, g)"
| "scan_fixed threadid acc curLockset i (e # es) ins g =
     (if ins = None \<and> a_lockset e = 0 then Inr (None, Some i, g)
      else bind_r (if a_lockset e \<noteq> 0 \<and> disjoint_masks curLockset (a_lockset e)
                   then check_entry threadid acc e g else Inr (None, g)) (\<lambda>(v, g1).
        case v of
          Some _ \<Rightarrow> Inr (v, ins, g1)
        | None \<Rightarrow> scan_fixed threadid acc curLockset (Suc i) es
            (if a_lockset e \<noteq> 0 \<and> curLockset = a_lockset e then Some i else ins) g1))"

fun scan_list ::
    "nat \<Rightarrow> violation_data \<Rightarrow> mask \<Rightarrow> nat \<Rightarrow> Address_data list \<Rightarrow> nat option \<Rightarrow> AFTaskGraph
       \<Rightarrow> (violation option \<times> nat option \<times> AFTaskGraph) result" where
  "scan_list threadid acc curLockset i [] ins g = Inr (None, ins, g)"
| "scan_list threadid acc curLockset i (e # es) ins g =
     bind_r (if disjoint_masks curLockset (a_lockset e)
             then check_entry threadid acc e g else Inr (None, g)) (\<lambda>(v, g1).
       case v of
         Some _ \<Rightarrow> Inr (v, ins, g1)
       | None \<Rightarrow> scan_list threadid acc curLockset (Suc i) es
           (if curLockset = a_lockset e then Some i else ins) g1)"

section \<open>Adding an access to the history\<close>

definition par_flag :: "nat \<Rightarrow> nat option \<Rightarrow> AFTaskGraph \<Rightarrow> (bool \<times> AFTaskGraph) result" where
  "par_flag threadid p g = (case p of None \<Rightarrow> Inr (False, g) | Some r \<Rightarrow> races_with threadid r g)"

text \<open>
  The two slots of one kind of access (\<open>w1_task\<close>, \<open>w2_task\<close>, or \<open>r1_task\<close>, \<open>r2_task\<close>: the
  code repeats the same statements for each).
\<close>

definition update_slots ::
    "nat \<Rightarrow> nat \<Rightarrow> nat option \<times> nat option \<Rightarrow> AFTaskGraph
       \<Rightarrow> ((nat option \<times> nat option) \<times> AFTaskGraph) result" where
  "update_slots threadid curStepNode = (\<lambda>(t1, t2) g.
     bind_r (par_flag threadid t1 g) (\<lambda>(par1, g1).
     bind_r (par_flag threadid t2 g1) (\<lambda>(par2, g2).
       if (t1 = None \<and> t2 = None) \<or> (t1 = None \<and> \<not> par2) \<or> (t2 = None \<and> \<not> par1) \<or>
          (\<not> par1 \<and> \<not> par2)
       then Inr ((Some curStepNode, None), g2)
       else if par1 \<and> par2 then
         bind_r (deref_r t1) (\<lambda>x. bind_r (deref_r t2) (\<lambda>y.
         bind_r (LCA x y g2) (\<lambda>lca12.
         bind_r (LCA x curStepNode g2) (\<lambda>lca1s.
           if depth (tgraph_nodes g2 lca1s) < depth (tgraph_nodes g2 lca12)
           then Inr ((Some curStepNode, t2), g2) else Inr ((t1, t2), g2)))))
       else if t2 = None \<and> par1 then Inr ((t1, Some curStepNode), g2)
       else Inr ((t1, t2), g2))))"

definition update_entry ::
    "nat \<Rightarrow> violation_data \<Rightarrow> Address_data \<Rightarrow> AFTaskGraph \<Rightarrow> (Address_data \<times> AFTaskGraph) result" where
  "update_entry threadid acc e g =
     (if v_access acc = WRITE then
        bind_r (update_slots threadid (v_task acc) (w1_task e, w2_task e) g) (\<lambda>((w1, w2), g1).
          Inr (e\<lparr>w1_task := w1, w2_task := w2\<rparr>, g1))
      else
        bind_r (update_slots threadid (v_task acc) (r1_task e, r2_task e) g) (\<lambda>((r1, r2), g1).
          Inr (e\<lparr>r1_task := r1, r2_task := r2\<rparr>, g1)))"

definition first_access :: "violation_data \<Rightarrow> mask \<Rightarrow> Address_data \<Rightarrow> Address_data" where
  "first_access acc curLockset e =
     (let e1 = e\<lparr>a_lockset := curLockset\<rparr> in
      if v_access acc = READ then e1\<lparr>r1_task := Some (v_task acc)\<rparr>
      else e1\<lparr>w1_task := Some (v_task acc)\<rparr>)"

text \<open>
  \<open>junk\<close> is what the stack holds where \<open>struct Address_data address_data;\<close> is declared: the
  code sets the lock set and one pointer of it and copies all five fields into the list.
\<close>

definition insert_access ::
    "nat \<Rightarrow> violation_data \<Rightarrow> mask \<Rightarrow> Address_data \<Rightarrow> nat option \<Rightarrow> nat option \<Rightarrow> Dr_Address_Data
       \<Rightarrow> AFTaskGraph \<Rightarrow> (Dr_Address_Data \<times> AFTaskGraph) result" where
  "insert_access threadid acc curLockset junk f_insert_index insert_index c g =
     (case f_insert_index of
        Some i \<Rightarrow>
          let f_entry = f_entries c ! i in
          if a_lockset f_entry = 0
          then Inr (c\<lparr>f_entries := (f_entries c)[i := first_access acc curLockset f_entry]\<rparr>, g)
          else bind_r (update_entry threadid acc f_entry g) (\<lambda>(e, g1).
                 Inr (c\<lparr>f_entries := (f_entries c)[i := e]\<rparr>, g1))
      | None \<Rightarrow>
          let al = (case access_list c of None \<Rightarrow> [] | Some al \<Rightarrow> al) in
          (case insert_index of
             None \<Rightarrow> Inr (c\<lparr>access_list := Some (al @ [first_access acc curLockset junk])\<rparr>, g)
           | Some j \<Rightarrow>
               assert_r (j < length al) OutOfBounds
                 (bind_r (update_entry threadid acc (al ! j) g) (\<lambda>(e, g1).
                   Inr (c\<lparr>access_list := Some (al[j := e])\<rparr>, g1)))))"

section \<open>\<open>RecordAccess\<close>\<close>

definition report_race :: "addr \<Rightarrow> violation \<Rightarrow> AFTaskGraph \<Rightarrow> detector \<Rightarrow> detector" where
  "report_race addr v g d =
     d\<lparr>taskGraph := g, all_violations := map_insert (all_violations d) addr v\<rparr>"

definition access_history ::
    "nat \<Rightarrow> addr \<Rightarrow> mask \<Rightarrow> violation_data \<Rightarrow> Address_data \<Rightarrow> detector \<Rightarrow> detector result" where
  "access_history threadid addr curLockset acc junk d =
     bind_r (open_page addr d) (\<lambda>(page, d1).
       let c = page (cell_offset addr) in
       bind_r (scan_fixed threadid acc curLockset 0 (f_entries c) None (taskGraph d1)) (\<lambda>(v, fi, g1).
       case v of
         Some race \<Rightarrow> Inr (report_race addr race g1 d1)
       | None \<Rightarrow>
           bind_r (scan_list threadid acc curLockset 0
             (case access_list c of None \<Rightarrow> [] | Some al \<Rightarrow> al) None g1) (\<lambda>(v, li, g2).
           case v of
             Some race \<Rightarrow> Inr (report_race addr race g2 d1)
           | None \<Rightarrow>
               bind_r (insert_access threadid acc curLockset junk fi li c g2) (\<lambda>(c', g3).
                 Inr (store_cell addr c' (d1\<lparr>taskGraph := g3\<rparr>))))))"

definition RecordAccess ::
    "nat \<Rightarrow> addr \<Rightarrow> addr list \<Rightarrow> addr list \<Rightarrow> AccessType \<Rightarrow> Address_data \<Rightarrow> detector \<Rightarrow> detector result" where
  "RecordAccess threadid addr locks_acq locks_rel accessType junk d =
     bind_r (exceptions threadid addr d) (\<lambda>skip.
       if skip then Inr d
       else
         bind_r (stack_top (thd_lockset d threadid)) (\<lambda>ls.
         bind_r (acquire_all locks_acq (createLockset ls) (lock_tab d)) (\<lambda>(w, t1).
         bind_r (release_all locks_rel w t1) (\<lambda>(curLockset, t2).
         bind_r (getCurTask threadid (taskGraph d)) (\<lambda>curStepNode.
           access_history threadid addr curLockset
             \<lparr>v_task = curStepNode, v_access = accessType\<rparr> junk (d\<lparr>lock_tab := t2\<rparr>))))))"

end
