(* ===== verification/Detector_Checks.thy ===== *)
theory Detector_Checks
  imports Detector
begin

text \<open>
  The loops of the detector as pure functions. For a thread that runs a task (\<open>running\<close>) every
  query of the task graph is answered by the relation \<open>g_par\<close>, so that checking an access
  against a list of entries is \<open>first_race\<close>, replacing the remembered steps is \<open>next_slots\<close>,
  and nothing of the graph changes but its memo table.
\<close>

definition running :: "nat \<Rightarrow> nat \<Rightarrow> AFTaskGraph \<Rightarrow> bool" where
  "running t s g \<longleftrightarrow> wf_graph g \<and> g_tasks_ok g \<and>
     (\<exists>c ks. top_cur t g = Inr c \<and> c \<noteq> 1 \<and> s = cur_step (tgraph_nodes g c) \<and>
        tidToTaskIdMap g t = taskId (tgraph_nodes g c) # ks)"

lemma query_step_same:
  assumes "query_step g g'"
  shows "g_par g' = g_par g" "g_lev g' = g_lev g" "g_hb g' = g_hb g"
    "step_node g' r = step_node g r" "running t s g \<Longrightarrow> running t s g'"
proof -
  note F = query_step_fields[OF assms]
  show "g_par g' = g_par g" by (simp add: g_par_def[abs_def] F)
  show "g_lev g' = g_lev g" unfolding g_lev_def[abs_def] F(2) by (rule refl)
  show "g_hb g' = g_hb g" "step_node g' r = step_node g r" by (simp_all add: F)
  show "running t s g \<Longrightarrow> running t s g'"
    using F(1) by (simp add: running_def top_cur_def F)
qed

lemma running_step:
  assumes "running t s g"
  shows "step_node g s" "getCurTask t g = Inr s" "wf_graph g"
proof -
  from assms obtain c where wf: "wf_graph g" and top: "top_cur t g = Inr c" and c: "c \<noteq> 1"
    and s: "s = cur_step (tgraph_nodes g c)" by (auto simp: running_def)
  show "getCurTask t g = Inr s" by (simp add: getCurTask_def top s)
  show "wf_graph g" by (fact wf)
  have "live_scope g c" using wf top top_cur_live by (auto simp: wf_graph_def)
  then have "1 \<le> c" "c \<le> last_allocated_node g" "cur_step (tgraph_nodes g c) \<noteq> 0"
    using c by (auto simp: live_scope_def scope_def)
  then show "step_node g s"
    using wf s by (auto simp: wf_graph_def core_ok_def step_ok_def node_def)
qed

lemma races_with_par:
  assumes "running t s g" and r: "step_node g r"
  obtains g' where "races_with t r g = Inr (g_par g s r, g')" and "query_step g g'"
proof -
  from assms(1) obtain c ks where wf: "wf_graph g" and k: "g_tasks_ok g"
    and top: "top_cur t g = Inr c" and c: "c \<noteq> 1" and s: "s = cur_step (tgraph_nodes g c)"
    and ks: "tidToTaskIdMap g t = taskId (tgraph_nodes g c) # ks"
    by (auto simp: running_def)
  obtain g' where "areParallel (taskId (tgraph_nodes g c)) r t g =
      Inr (cur_step (tgraph_nodes g c) \<noteq> r \<and> g_mhp g (cur_step (tgraph_nodes g c)) r, g')"
    and "query_step g g'"
    using areParallel_steps[OF wf k top c r refl] by blast
  then show thesis using that s by (simp add: races_with_def ks g_par_def)
qed

section \<open>Checks\<close>

definition slot_steps :: "Address_data \<Rightarrow> nat set" where
  "slot_steps e = set_option (w1_task e) \<union> set_option (w2_task e) \<union>
     set_option (r1_task e) \<union> set_option (r2_task e)"

definition entry_race ::
    "(nat \<Rightarrow> nat \<Rightarrow> bool) \<Rightarrow> violation_data \<Rightarrow> Address_data \<Rightarrow> violation option" where
  "entry_race par acc e =
     (let found = (\<lambda>p ty. Some \<lparr>a1 = acc, a2 = \<lparr>v_task = the p, v_access = ty\<rparr>\<rparr>);
          hit = par_opt par (v_task acc)
      in if hit (w1_task e) then found (w1_task e) WRITE
         else if hit (w2_task e) then found (w2_task e) WRITE
         else if v_access acc = WRITE \<and> hit (r1_task e) then found (r1_task e) READ
         else if v_access acc = WRITE \<and> hit (r2_task e) then found (r2_task e) READ
         else None)"

fun first_race ::
    "(nat \<Rightarrow> nat \<Rightarrow> bool) \<Rightarrow> violation_data \<Rightarrow> mask \<Rightarrow> Address_data list \<Rightarrow> violation option" where
  "first_race par acc w [] = None"
| "first_race par acc w (e # es) =
     (case (if disjoint_masks w (a_lockset e) then entry_race par acc e else None) of
        Some v \<Rightarrow> Some v
      | None \<Rightarrow> first_race par acc w es)"

fun mask_pos :: "mask \<Rightarrow> nat \<Rightarrow> Address_data list \<Rightarrow> nat option" where
  "mask_pos w i [] = None"
| "mask_pos w i (e # es) = (if a_lockset e = w then Some i else mask_pos w (Suc i) es)"

lemma check_slot_par:
  assumes "running t (v_task acc) g" and "\<forall>r\<in>set_option p. step_node g r"
  obtains g' where "check_slot t acc p ty g =
      Inr (if par_opt (g_par g) (v_task acc) p
           then Some \<lparr>a1 = acc, a2 = \<lparr>v_task = the p, v_access = ty\<rparr>\<rparr> else None, g')"
    and "query_step g g'"
proof (cases p)
  case None
  then show thesis using that[of g] query_step_refl running_step(3)[OF assms(1)]
    by (simp add: check_slot_def)
next
  case (Some r)
  with assms obtain g' where "races_with t r g = Inr (g_par g (v_task acc) r, g')" "query_step g g'"
    using races_with_par by (metis option.set_intros)
  with Some show thesis using that by (simp add: check_slot_def)
qed

lemma or_else_par:
  assumes "m = Inr (v, g1)" and "query_step g g1"
    and "\<And>g1. query_step g g1 \<Longrightarrow> \<exists>g2. f g1 = Inr (w, g2) \<and> query_step g g2"
  shows "\<exists>g2. or_else m f = Inr (case v of None \<Rightarrow> w | Some _ \<Rightarrow> v, g2) \<and> query_step g g2"
  using assms by (cases v) (auto simp: or_else_def)

lemma check_slot_ex:
  assumes "running t (v_task acc) g" and "query_step g g1" and "set_option p \<subseteq> slot_steps e"
    and "\<forall>r\<in>slot_steps e. step_node g r"
  shows "\<exists>g2. check_slot t acc p ty g1 =
      Inr (if par_opt (g_par g) (v_task acc) p
           then Some \<lparr>a1 = acc, a2 = \<lparr>v_task = the p, v_access = ty\<rparr>\<rparr> else None, g2) \<and> query_step g g2"
proof -
  note q = query_step_same[OF assms(2)]
  have "\<forall>r\<in>set_option p. step_node g1 r" using q(4) assms(3,4) by blast
  then obtain g2 where "check_slot t acc p ty g1 =
      Inr (if par_opt (g_par g1) (v_task acc) p
           then Some \<lparr>a1 = acc, a2 = \<lparr>v_task = the p, v_access = ty\<rparr>\<rparr> else None, g2)"
    and "query_step g1 g2"
    using check_slot_par[OF q(5)[OF assms(1)]] by metis
  then show ?thesis using query_step_trans[OF assms(2)] q(1) by auto
qed

lemma check_entry_par:
  assumes run: "running t (v_task acc) g" and st: "\<forall>r\<in>slot_steps e. step_node g r"
  obtains g' where "check_entry t acc e g = Inr (entry_race (g_par g) acc e, g')"
    and "query_step g g'"
proof -
  note slot = check_slot_ex[OF run _ _ st]
  have sub: "set_option (w1_task e) \<subseteq> slot_steps e" "set_option (w2_task e) \<subseteq> slot_steps e"
    "set_option (r1_task e) \<subseteq> slot_steps e" "set_option (r2_task e) \<subseteq> slot_steps e"
    by (auto simp: slot_steps_def)
  let ?S = "\<lambda>p ty. if par_opt (g_par g) (v_task acc) p
    then Some \<lparr>a1 = acc, a2 = \<lparr>v_task = the p, v_access = ty\<rparr>\<rparr> else None"
  let ?or = "\<lambda>v w. case v of None \<Rightarrow> w | Some _ \<Rightarrow> v"
  let ?R = "if v_access acc = WRITE then ?or (?S (r1_task e) READ) (?S (r2_task e) READ) else None"
  have rds: "\<exists>g2. (if v_access acc = WRITE then
         or_else (check_slot t acc (r1_task e) READ g1) (\<lambda>g. check_slot t acc (r2_task e) READ g)
       else Inr (None, g1)) = Inr (?R, g2) \<and> query_step g g2" if q1: "query_step g g1" for g1
  proof (cases "v_access acc = WRITE")
    case True
    obtain h where h: "check_slot t acc (r1_task e) READ g1 = Inr (?S (r1_task e) READ, h)"
      "query_step g h" using slot[OF q1 sub(3)] by blast
    show ?thesis
      using or_else_par[OF h, of "check_slot t acc (r2_task e) READ" "?S (r2_task e) READ"]
        slot[OF _ sub(4)] True by simp
  next
    case False
    with q1 show ?thesis by auto
  qed
  let ?C = "\<lambda>g1. if v_access acc = WRITE then
         or_else (check_slot t acc (r1_task e) READ g1) (\<lambda>g. check_slot t acc (r2_task e) READ g)
       else Inr (None, g1)"
  have w2: "\<exists>g2. or_else (check_slot t acc (w2_task e) WRITE g1) ?C =
      Inr (?or (?S (w2_task e) WRITE) ?R, g2) \<and> query_step g g2" if q1: "query_step g g1" for g1
  proof -
    obtain h where h: "check_slot t acc (w2_task e) WRITE g1 = Inr (?S (w2_task e) WRITE, h)"
      "query_step g h" using slot[OF q1 sub(2)] by blast
    show ?thesis by (rule or_else_par[OF h rds])
  qed
  obtain h where h: "check_slot t acc (w1_task e) WRITE g = Inr (?S (w1_task e) WRITE, h)"
    "query_step g h"
    using slot[OF query_step_refl[OF running_step(3)[OF run]] sub(1)] by blast
  have "\<exists>g2. check_entry t acc e g =
      Inr (?or (?S (w1_task e) WRITE) (?or (?S (w2_task e) WRITE) ?R), g2) \<and> query_step g g2"
    unfolding check_entry_def by (rule or_else_par[OF h w2])
  moreover have "?or (?S (w1_task e) WRITE) (?or (?S (w2_task e) WRITE) ?R) =
      entry_race (g_par g) acc e"
    by (simp add: entry_race_def Let_def)
  ultimately show thesis using that by auto
qed

lemma guarded_check:
  assumes run: "running t (v_task acc) g" and st: "\<forall>r\<in>slot_steps e. step_node g r"
  obtains g' where "(if b then check_entry t acc e g else Inr (None, g)) =
      Inr (if b then entry_race (g_par g) acc e else None, g')" and "query_step g g'"
proof (cases b)
  case True
  obtain g' where "check_entry t acc e g = Inr (entry_race (g_par g) acc e, g')"
    and "query_step g g'" by (rule check_entry_par[OF assms])
  with True show thesis using that by simp
next
  case False
  then show thesis using that query_step_refl[OF running_step(3)[OF run]] by simp
qed

lemma scan_list_par:
  assumes "running t (v_task acc) g" and "\<forall>e\<in>set es. \<forall>r\<in>slot_steps e. step_node g r"
    and "distinct (map a_lockset es)"
  shows "\<exists>ins' g'. scan_list t acc w i es ins g = Inr (first_race (g_par g) acc w es, ins', g') \<and>
    query_step g g' \<and> (first_race (g_par g) acc w es = None \<longrightarrow>
      ins' = (if mask_pos w i es = None then ins else mask_pos w i es))"
  using assms
proof (induction es arbitrary: i ins g)
  case Nil
  then show ?case using query_step_refl running_step(3) by auto
next
  case (Cons e es)
  let ?v = "if disjoint_masks w (a_lockset e) then entry_race (g_par g) acc e else None"
  from Cons.prems(2) have st: "\<forall>r\<in>slot_steps e. step_node g r" by simp
  obtain g1 where c: "(if disjoint_masks w (a_lockset e) then check_entry t acc e g
      else Inr (None, g)) = Inr (?v, g1)" and q: "query_step g g1"
    by (rule guarded_check[OF Cons.prems(1) st])
  note Q = query_step_same[OF q]
  show ?case
  proof (cases ?v)
    case (Some v)
    then show ?thesis using q by (simp only: scan_list.simps first_race.simps c bind_r_simps) auto
  next
    case None
    let ?ins = "if w = a_lockset e then Some i else ins"
    obtain ins' g' where r: "scan_list t acc w (Suc i) es ?ins g1 =
        Inr (first_race (g_par g) acc w es, ins', g')" "query_step g1 g'"
      "first_race (g_par g) acc w es = None \<longrightarrow>
         ins' = (if mask_pos w (Suc i) es = None then ?ins else mask_pos w (Suc i) es)"
      using Cons.IH[OF Q(5)[OF Cons.prems(1)], of "Suc i" ?ins] Cons.prems(2,3) Q(1,4) by auto
    have nm: "mask_pos w (Suc i) es = None" if "w = a_lockset e"
    proof -
      have "w \<notin> a_lockset ` set es" using Cons.prems(3) that by auto
      then show ?thesis by (induction es arbitrary: i) auto
    qed
    have "scan_list t acc w i (e # es) ins g = Inr (first_race (g_par g) acc w es, ins', g')"
      using None r(1) by (simp only: scan_list.simps c bind_r_simps) simp
    moreover have "first_race (g_par g) acc w (e # es) = first_race (g_par g) acc w es"
      using None by (simp only: first_race.simps option.case)
    ultimately show ?thesis
      using r(3) nm query_step_trans[OF q r(2)] by (auto simp del: first_race.simps)
  qed
qed


lemma scan_unused:
  "wf_graph g \<Longrightarrow> ins \<noteq> None \<Longrightarrow>
    scan_fixed t acc w i (replicate k zero_entry) ins g = Inr (None, ins, g)"
  by (induction k arbitrary: i) (auto simp: zero_entry_def)

lemma scan_fixed_par:
  assumes "running t (v_task acc) g" and "\<forall>e\<in>set es. \<forall>r\<in>slot_steps e. step_node g r"
    and "distinct (map a_lockset es)" and "0 \<notin> a_lockset ` set es"
    and "ins \<noteq> None \<longrightarrow> w \<notin> a_lockset ` set es"
  shows "\<exists>ins' g'. scan_fixed t acc w i (es @ replicate k zero_entry) ins g =
      Inr (first_race (g_par g) acc w es, ins', g') \<and> query_step g g' \<and>
    (first_race (g_par g) acc w es = None \<longrightarrow>
      ins' = (case mask_pos w i es of Some j \<Rightarrow> Some j
              | None \<Rightarrow> if ins \<noteq> None then ins else if k = 0 then None else Some (i + length es)))"
  using assms
proof (induction es arbitrary: i ins g)
  case Nil
  then have wf: "wf_graph g" using running_step(3) by blast
  show ?case
  proof (cases "ins = None")
    case True
    then show ?thesis using query_step_refl[OF wf] by (cases k) (auto simp: zero_entry_def)
  next
    case False
    then show ?thesis using query_step_refl[OF wf] scan_unused[OF wf] by auto
  qed
next
  case (Cons e es)
  let ?v = "if disjoint_masks w (a_lockset e) then entry_race (g_par g) acc e else None"
  let ?ins = "if w = a_lockset e then Some i else ins"
  from Cons.prems(2) have st: "\<forall>r\<in>slot_steps e. step_node g r" by simp
  have nz: "a_lockset e \<noteq> 0" using Cons.prems(4) by auto
  obtain g1 where c: "(if disjoint_masks w (a_lockset e) then check_entry t acc e g
      else Inr (None, g)) = Inr (?v, g1)" and q: "query_step g g1"
    by (rule guarded_check[OF Cons.prems(1) st])
  note Q = query_step_same[OF q]
  have unroll: "scan_fixed t acc w i ((e # es) @ replicate k zero_entry) ins g =
      (case ?v of Some _ \<Rightarrow> Inr (?v, ins, g1)
       | None \<Rightarrow> scan_fixed t acc w (Suc i) (es @ replicate k zero_entry) ?ins g1)"
    using nz by (simp only: append_Cons scan_fixed.simps c bind_r_simps simp_thms if_False) simp
  show ?case
  proof (cases ?v)
    case (Some v)
    then have "first_race (g_par g) acc w (e # es) = Some v"
      by (simp only: first_race.simps option.case)
    then show ?thesis using q unroll Some by simp
  next
    case None
    have nm: "mask_pos w (Suc i) es = None" if "w = a_lockset e"
    proof -
      have "w \<notin> a_lockset ` set es" using Cons.prems(3) that by auto
      then show ?thesis by (induction es arbitrary: i) auto
    qed
    have "?ins \<noteq> None \<longrightarrow> w \<notin> a_lockset ` set es"
      using Cons.prems(3,5) by auto
    with Cons.IH[OF Q(5)[OF Cons.prems(1)], of ?ins "Suc i"] Cons.prems(2-4) Q(1,4)
    obtain ins' g' where r: "scan_fixed t acc w (Suc i) (es @ replicate k zero_entry) ?ins g1 =
        Inr (first_race (g_par g) acc w es, ins', g')" "query_step g1 g'"
      "first_race (g_par g) acc w es = None \<longrightarrow>
         ins' = (case mask_pos w (Suc i) es of Some j \<Rightarrow> Some j
              | None \<Rightarrow> if ?ins \<noteq> None then ?ins else if k = 0 then None else Some (Suc i + length es))"
      by auto
    have fr: "first_race (g_par g) acc w (e # es) = first_race (g_par g) acc w es"
      using None by (simp only: first_race.simps option.case)
    show ?thesis
      unfolding unroll fr None option.case r(1)
      using r(3) nm query_step_trans[OF q r(2)]
      by (cases "w = a_lockset e"; cases "mask_pos w (Suc i) es") auto
  qed
qed

section \<open>What a race report says\<close>

lemma entry_race_None:
  "entry_race par acc e = None \<longleftrightarrow>
     \<not> par_opt par (v_task acc) (w1_task e) \<and> \<not> par_opt par (v_task acc) (w2_task e) \<and>
     (v_access acc = WRITE \<longrightarrow>
       \<not> par_opt par (v_task acc) (r1_task e) \<and> \<not> par_opt par (v_task acc) (r2_task e))"
  by (auto simp: entry_race_def Let_def)

lemma entry_race_Some:
  assumes "entry_race par acc e = Some v"
  shows "a1 v = acc" "par (v_task acc) (v_task (a2 v))"
    "v_access acc = WRITE \<or> v_access (a2 v) = WRITE"
    "v_access (a2 v) = WRITE \<Longrightarrow> v_task (a2 v) \<in> set_option (w1_task e) \<union> set_option (w2_task e)"
    "v_access (a2 v) = READ \<Longrightarrow> v_task (a2 v) \<in> set_option (r1_task e) \<union> set_option (r2_task e)"
  using assms by (auto simp: entry_race_def Let_def par_opt_def split: if_splits option.splits)

lemma first_race_None:
  "first_race par acc w es = None \<longleftrightarrow>
     (\<forall>e\<in>set es. disjoint_masks w (a_lockset e) \<longrightarrow> entry_race par acc e = None)"
  by (induction es) (auto split: option.splits)

lemma first_race_Some:
  "first_race par acc w es = Some v \<Longrightarrow>
     \<exists>e\<in>set es. disjoint_masks w (a_lockset e) \<and> entry_race par acc e = Some v"
  by (induction es) (auto split: option.splits if_splits)

section \<open>Replacing the remembered steps\<close>

lemma par_flag_par:
  assumes "running t s g" and "\<forall>r\<in>set_option p. step_node g r"
  obtains g' where "par_flag t p g = Inr (par_opt (g_par g) s p, g')" and "query_step g g'"
proof (cases p)
  case None
  then show thesis using that[of g] query_step_refl running_step(3)[OF assms(1)]
    by (simp add: par_flag_def)
next
  case (Some r)
  with assms obtain g' where "races_with t r g = Inr (g_par g s r, g')" "query_step g g'"
    using races_with_par by (metis option.set_intros)
  with Some show thesis using that by (simp add: par_flag_def)
qed

lemma LCA_lev:
  assumes wf: "wf_graph g" and n: "node (last_allocated_node g) a" "node (last_allocated_node g) b"
  obtains l where "LCA a b g = Inr l" and "depth (tgraph_nodes g l) = g_lev g a b"
proof -
  obtain l where l: "LCA a b g = Inr l" "is_lca (tgraph_nodes g) (last_allocated_node g) a b l"
    using LCA_is_lca[OF wf n] by blast
  obtain m where m: "lca_walk (tgraph_nodes g) a b = Inr m"
    "is_lca (tgraph_nodes g) (last_allocated_node g) a b m"
    using lca_walk_correct[OF wf_tree[OF wf] n] by blast
  have "m = l" by (rule is_lca_unique[OF m(2) l(2)])
  with l m that show thesis by (simp add: g_lev_def)
qed

lemma update_slots_next:
  assumes run: "running t s g" and st: "\<forall>r\<in>set_option p \<union> set_option q. step_node g r"
    and pq: "p = None \<longrightarrow> q = None"
  obtains g' where "update_slots t s (p, q) g = Inr (next_slots (g_par g) (g_lev g) s (p, q), g')"
    and "query_step g g'"
proof -
  let ?a = "par_opt (g_par g) s p" and ?b = "par_opt (g_par g) s q"
  obtain g1 where 1: "par_flag t p g = Inr (?a, g1)" and q1: "query_step g g1"
    using par_flag_par[OF run, of p] st by auto
  note Q1 = query_step_same[OF q1]
  obtain g2 where 2: "par_flag t q g1 = Inr (?b, g2)" and q2: "query_step g1 g2"
    using par_flag_par[OF Q1(5)[OF run], of q] st Q1(1,4) by auto
  note q = query_step_trans[OF q1 q2]
  note Q = query_step_same[OF q] and wf2 = query_step_fields(1)[OF q]
  show thesis
  proof (cases "?a \<and> ?b")
    case True
    then obtain x y where xy: "p = Some x" "q = Some y" by (auto simp: par_opt_def split: option.splits)
    have n: "node (last_allocated_node g2) x" "node (last_allocated_node g2) y"
      "node (last_allocated_node g2) s"
      using st xy running_step(1)[OF run] query_step_fields(4)[OF q] by auto
    obtain l12 where l12: "LCA x y g2 = Inr l12" "depth (tgraph_nodes g2 l12) = g_lev g2 x y"
      by (rule LCA_lev[OF wf2 n(1,2)])
    obtain l1s where l1s: "LCA x s g2 = Inr l1s" "depth (tgraph_nodes g2 l1s) = g_lev g2 x s"
      by (rule LCA_lev[OF wf2 n(1,3)])
    have "update_slots t s (p, q) g = Inr (next_slots (g_par g) (g_lev g) s (p, q), g2)"
      using True xy 1 2 l12 l1s Q(2) by (auto simp: update_slots_def next_slots_def)
    then show thesis using that q by blast
  next
    case False
    have "update_slots t s (p, q) g = Inr (next_slots (g_par g) (g_lev g) s (p, q), g2)"
      using False 1 2 pq
      by (cases p; cases q) (auto simp: update_slots_def next_slots_def)
    then show thesis using that q by blast
  qed
qed

end
