(* ===== verification/Detector_History.thy ===== *)
theory Detector_History
  imports Detector_Checks
begin

text \<open>
  What a shadow cell holds, as a function of the accesses made to it. \<open>entry_for\<close> is the entry
  that a history determines for one lock set, \<open>cell_rel\<close> says that the cell is made of exactly
  these entries, three in the fixed array and the rest in the list, and \<open>access_history_spec\<close>
  shows that one run of the detector's core either reports a race against one of them or
  extends the history by the access.
\<close>

type_synonym access = "mask \<times> AccessType \<times> nat"

definition steps_of :: "access list \<Rightarrow> mask \<Rightarrow> AccessType \<Rightarrow> nat list" where
  "steps_of hist m ty = map (snd \<circ> snd) (filter (\<lambda>(m', ty', r). m' = m \<and> ty' = ty) hist)"

definition slots_of :: "('n \<Rightarrow> 'n \<Rightarrow> bool) \<Rightarrow> ('n \<Rightarrow> 'n \<Rightarrow> nat) \<Rightarrow> 'n list \<Rightarrow> 'n slots" where
  "slots_of par lev rs = fold (next_slots par lev) rs (None, None)"

definition entry_for ::
    "(nat \<Rightarrow> nat \<Rightarrow> bool) \<Rightarrow> (nat \<Rightarrow> nat \<Rightarrow> nat) \<Rightarrow> access list \<Rightarrow> mask \<Rightarrow> Address_data" where
  "entry_for par lev hist m =
     (let w = slots_of par lev (steps_of hist m WRITE);
          r = slots_of par lev (steps_of hist m READ)
      in \<lparr>a_lockset = m, w1_task = fst w, w2_task = snd w, r1_task = fst r, r2_task = snd r\<rparr>)"

definition listed :: "Dr_Address_Data \<Rightarrow> Address_data list" where
  "listed c = (case access_list c of None \<Rightarrow> [] | Some al \<Rightarrow> al)"

definition cell_masks ::
    "(nat \<Rightarrow> nat \<Rightarrow> bool) \<Rightarrow> (nat \<Rightarrow> nat \<Rightarrow> nat) \<Rightarrow> access list \<Rightarrow> Dr_Address_Data \<Rightarrow> mask list \<Rightarrow> bool" where
  "cell_masks par lev hist c ms \<longleftrightarrow> distinct ms \<and> set ms = fst ` set hist \<and> 0 \<notin> set ms \<and>
     f_entries c = map (entry_for par lev hist) (take 3 ms) @ replicate (3 - length ms) zero_entry \<and>
     listed c = map (entry_for par lev hist) (drop 3 ms)"

definition cell_rel ::
    "(nat \<Rightarrow> nat \<Rightarrow> bool) \<Rightarrow> (nat \<Rightarrow> nat \<Rightarrow> nat) \<Rightarrow> access list \<Rightarrow> Dr_Address_Data \<Rightarrow> bool" where
  "cell_rel par lev hist c \<longleftrightarrow> (\<exists>ms. cell_masks par lev hist c ms)"

definition cell_at :: "addr \<Rightarrow> detector \<Rightarrow> Dr_Address_Data" where
  "cell_at addr d = (case shadow_space d (primary_index addr) of
     None \<Rightarrow> zero_cell | Some page \<Rightarrow> page (cell_offset addr))"

definition cell_key :: "addr \<Rightarrow> nat \<times> nat" where
  "cell_key addr = (primary_index addr, cell_offset addr)"

definition no_pointers :: "Address_data \<Rightarrow> bool" where
  "no_pointers e \<longleftrightarrow> w1_task e = None \<and> w2_task e = None \<and> r1_task e = None \<and> r2_task e = None"

section \<open>Entries and histories\<close>

lemma a_lockset_entry_for [simp]: "a_lockset (entry_for par lev hist m) = m"
  by (simp add: entry_for_def Let_def)

lemma steps_of_append:
  "steps_of (hist @ [(w, ty, s)]) m ty' =
     steps_of hist m ty' @ (if m = w \<and> ty' = ty then [s] else [])"
  by (auto simp: steps_of_def)

lemma steps_of_set: "set (steps_of hist m ty) = {r. (m, ty, r) \<in> set hist}"
  by (force simp: steps_of_def)

lemma steps_of_Nil: "m \<notin> fst ` set hist \<Longrightarrow> steps_of hist m ty = []"
  by (force simp: steps_of_def filter_empty_conv)

lemma slots_of_append: "slots_of par lev (rs @ [s]) = next_slots par lev s (slots_of par lev rs)"
  by (simp add: slots_of_def)

lemma slots_of_Nil [simp]: "slots_of par lev [] = (None, None)"
  by (simp add: slots_of_def)

lemma next_slots_None [simp]: "next_slots par lev s (None, None) = (Some s, None)"
  by (simp add: next_slots_def)

lemma next_slots_sub:
  "next_slots par lev s (p, q) = (p', q') \<Longrightarrow> p = None \<longrightarrow> q = None \<Longrightarrow>
    set_option p' \<union> set_option q' \<subseteq> insert s (set_option p \<union> set_option q) \<and> (p' = None \<longrightarrow> q' = None)"
  by (auto simp: next_slots_def split: if_splits option.splits)

lemma slots_of_sub:
  "set_option (fst (slots_of par lev rs)) \<union> set_option (snd (slots_of par lev rs)) \<subseteq> set rs \<and>
   (fst (slots_of par lev rs) = None \<longrightarrow> snd (slots_of par lev rs) = None)"
proof (induction rs rule: rev_induct)
  case (snoc s rs)
  obtain p q where pq: "slots_of par lev rs = (p, q)" by (cases "slots_of par lev rs")
  obtain p' q' where n: "next_slots par lev s (p, q) = (p', q')" by (cases "next_slots par lev s (p, q)")
  from next_slots_sub[OF n] snoc pq show ?case by (auto simp: slots_of_append n)
qed simp

lemma slot_steps_entry_for:
  "slot_steps (entry_for par lev hist m) \<subseteq> (snd \<circ> snd) ` set hist"
proof -
  have s: "set (steps_of hist m ty) \<subseteq> (snd \<circ> snd) ` set hist" for ty by (force simp: steps_of_set)
  have "set_option (fst (slots_of par lev (steps_of hist m ty))) \<union>
      set_option (snd (slots_of par lev (steps_of hist m ty))) \<subseteq> (snd \<circ> snd) ` set hist" for ty
    using slots_of_sub[of par lev "steps_of hist m ty"] s[of ty] by (meson order_trans)
  from this[of WRITE] this[of READ] show ?thesis
    by (simp add: slot_steps_def entry_for_def Let_def)
qed

lemma entry_for_other:
  "m \<noteq> w \<Longrightarrow> entry_for par lev (hist @ [(w, ty, s)]) m = entry_for par lev hist m"
  by (simp add: entry_for_def steps_of_append)

lemma first_access_new:
  assumes "no_pointers e" and "w \<notin> fst ` set hist"
  shows "first_access \<lparr>v_task = s, v_access = ty\<rparr> w e = entry_for par lev (hist @ [(w, ty, s)]) w"
  using assms by (cases ty)
    (auto simp: first_access_def no_pointers_def entry_for_def steps_of_append steps_of_Nil
      slots_of_def intro!: Address_data.equality)

lemma update_entry_next:
  assumes run: "running t s g" and st: "\<forall>r\<in>slot_steps (entry_for (g_par g) (g_lev g) hist w). step_node g r"
  obtains g' where
    "update_entry t \<lparr>v_task = s, v_access = ty\<rparr> (entry_for (g_par g) (g_lev g) hist w) g =
       Inr (entry_for (g_par g) (g_lev g) (hist @ [(w, ty, s)]) w, g')"
    and "query_step g g'"
proof -
  let ?sl = "slots_of (g_par g) (g_lev g) (steps_of hist w ty)"
  let ?e = "entry_for (g_par g) (g_lev g) hist w"
  have "set_option (fst ?sl) \<union> set_option (snd ?sl) \<subseteq> slot_steps ?e"
    by (cases ty) (auto simp: slot_steps_def entry_for_def Let_def)
  with st have sub: "\<forall>r\<in>set_option (fst ?sl) \<union> set_option (snd ?sl). step_node g r" by blast
  have "fst ?sl = None \<longrightarrow> snd ?sl = None" using slots_of_sub by blast
  then obtain g' where u: "update_slots t s ?sl g =
      Inr (next_slots (g_par g) (g_lev g) s ?sl, g')" and q: "query_step g g'"
    using update_slots_next[OF run sub] by auto
  have "update_entry t \<lparr>v_task = s, v_access = ty\<rparr> ?e g =
      Inr (entry_for (g_par g) (g_lev g) (hist @ [(w, ty, s)]) w, g')"
    using u by (cases ty)
      (auto simp: update_entry_def entry_for_def Let_def steps_of_append slots_of_append
        split: prod.splits)
  then show thesis using q by (rule that)
qed

lemma mask_pos_Some:
  "mask_pos w i es = Some j \<Longrightarrow> i \<le> j \<and> j - i < length es \<and> a_lockset (es ! (j - i)) = w"
proof (induction es arbitrary: i)
  case (Cons e es)
  show ?case
  proof (cases "a_lockset e = w")
    case False
    with Cons.prems have "mask_pos w (Suc i) es = Some j" by simp
    from Cons.IH[OF this] have r: "Suc i \<le> j" "j - Suc i < length es" "a_lockset (es ! (j - Suc i)) = w"
      by auto
    then have "j - i = Suc (j - Suc i)" by simp
    with r show ?thesis by simp
  qed (use Cons.prems in simp)
qed simp

lemma mask_pos_None: "mask_pos w i es = None \<longleftrightarrow> w \<notin> a_lockset ` set es"
  by (induction es arbitrary: i) auto

lemma mask_pos_found:
  assumes "w \<in> set ms"
  obtains j where "mask_pos w i (map (entry_for par lev hist) ms) = Some j"
proof (cases "mask_pos w i (map (entry_for par lev hist) ms)")
  case None
  with assms show thesis by (simp add: mask_pos_None image_image)
qed (rule that)

lemma map_update_at:
  assumes "distinct ms" and "j < length ms" and "ms ! j = w" and "\<And>m. m \<noteq> w \<Longrightarrow> E' m = E m"
  shows "(map E ms)[j := E' w] = map E' ms"
proof (rule nth_equalityI)
  fix i
  assume "i < length ((map E ms)[j := E' w])"
  then have i: "i < length ms" by simp
  show "(map E ms)[j := E' w] ! i = map E' ms ! i"
  proof (cases "i = j")
    case False
    then have "ms ! i \<noteq> w" using assms(1-3) i by (auto simp: nth_eq_iff_index_eq)
    with False i assms(4) show ?thesis by simp
  qed (use assms i in simp)
qed simp

section \<open>Inserting\<close>

lemma insert_access_rel:
  assumes run: "running t s g" and c: "cell_masks (g_par g) (g_lev g) hist c ms"
    and st: "\<forall>(m, ty, r)\<in>set hist. step_node g r" and w: "w \<noteq> 0" and junk: "no_pointers junk"
    and fi: "fi = (case mask_pos w 0 (map (entry_for (g_par g) (g_lev g) hist) (take 3 ms)) of
        Some j \<Rightarrow> Some j | None \<Rightarrow> if 3 \<le> length ms then None else Some (length ms))"
    and li: "li = mask_pos w 0 (map (entry_for (g_par g) (g_lev g) hist) (drop 3 ms))"
  obtains c' g' where "insert_access t \<lparr>v_task = s, v_access = ty\<rparr> w junk fi li c g = Inr (c', g')"
    and "query_step g g'" and "cell_rel (g_par g) (g_lev g) (hist @ [(w, ty, s)]) c'"
proof -
  let ?acc = "\<lparr>v_task = s, v_access = ty\<rparr>"
  let ?E = "entry_for (g_par g) (g_lev g) hist"
  let ?h = "hist @ [(w, ty, s)]"
  let ?E' = "entry_for (g_par g) (g_lev g) ?h"
  from c have ms: "distinct ms" "set ms = fst ` set hist" "0 \<notin> set ms"
    and f: "f_entries c = map ?E (take 3 ms) @ replicate (3 - length ms) zero_entry"
    and l: "listed c = map ?E (drop 3 ms)" by (auto simp: cell_masks_def)
  note wf = running_step(3)[OF run]
  have other: "\<And>m. m \<noteq> w \<Longrightarrow> ?E' m = ?E m" by (rule entry_for_other)
  have steps: "\<forall>r\<in>slot_steps (?E w). step_node g r"
    using slot_steps_entry_for[of "g_par g" "g_lev g" hist w] st by fastforce
  have new_masks: "set (ms @ [w]) = fst ` set ?h" using ms by auto
  have old_masks: "w \<in> set ms \<Longrightarrow> set ms = fst ` set ?h" using ms by auto
  have keep: "map ?E' xs = map ?E xs" if "w \<notin> set xs" for xs
    by (rule map_cong[OF refl], rule other) (use that in auto)
  consider (fixed) j where "mask_pos w 0 (map ?E (take 3 ms)) = Some j"
    | (free) "w \<notin> set (take 3 ms)" "length ms < 3"
    | (listed) j where "w \<notin> set (take 3 ms)" "3 \<le> length ms" "mask_pos w 0 (map ?E (drop 3 ms)) = Some j"
    | (fresh) "w \<notin> set ms" "3 \<le> length ms"
  proof (cases "w \<in> set (take 3 ms)")
    case True
    then show thesis using mask_pos_found fixed by blast
  next
    case False
    show thesis
    proof (cases "3 \<le> length ms \<and> w \<in> set (drop 3 ms)")
      case True
      then obtain j where "mask_pos w 0 (map ?E (drop 3 ms)) = Some j"
        using mask_pos_found by blast
      then show thesis using listed False True by blast
    next
      case F: False
      show thesis
      proof (cases "3 \<le> length ms")
        case True
        have "w \<notin> set (take 3 ms @ drop 3 ms)" using False F True by (simp only: set_append) blast
        then have "w \<notin> set ms" by simp
        then show thesis using fresh True by blast
      next
        case False
        then have "length ms < 3" by simp
        then show thesis using free \<open>w \<notin> set (take 3 ms)\<close> by blast
      qed
    qed
  qed
  then show thesis
  proof cases
    case (fixed j)
    from mask_pos_Some[OF fixed] have j: "j < length (take 3 ms)" "take 3 ms ! j = w" by auto
    then have win: "w \<in> set ms" by (metis in_set_takeD nth_mem)
    have e: "f_entries c ! j = ?E w" using j by (simp add: f nth_append)
    obtain g' where u: "update_entry t ?acc (?E w) g = Inr (?E' w, g')" and q: "query_step g g'"
      by (rule update_entry_next[OF run steps])
    let ?c = "c\<lparr>f_entries := (f_entries c)[j := ?E' w]\<rparr>"
    have "insert_access t ?acc w junk fi li c g = Inr (?c, g')"
      using w by (simp add: insert_access_def fi fixed e u)
    moreover have "w \<notin> set (drop 3 ms)"
      using ms(1) j by (metis append_take_drop_id disjoint_iff distinct_append nth_mem)
    then have "cell_masks (g_par g) (g_lev g) ?h ?c ms"
      using ms old_masks[OF win] l j map_update_at[of "take 3 ms" j w ?E' ?E] other
      by (simp add: cell_masks_def f listed_def keep list_update_append)
    ultimately show thesis using that q by (auto simp: cell_rel_def)
  next
    case free
    then have nw: "w \<notin> set ms" by simp
    have e: "f_entries c ! length ms = zero_entry" using free by (simp add: f nth_append)
    let ?c = "c\<lparr>f_entries := (f_entries c)[length ms := first_access ?acc w zero_entry]\<rparr>"
    have np: "mask_pos w 0 (map ?E (take 3 ms)) = None"
      using free by (auto simp: mask_pos_None)
    have z: "a_lockset zero_entry = 0" "no_pointers zero_entry"
      by (simp_all add: zero_entry_def no_pointers_def)
    have "fi = Some (length ms)" unfolding fi np using free by simp
    then have i: "insert_access t ?acc w junk fi li c g = Inr (?c, g)"
      by (simp add: insert_access_def e z)
    obtain k where k: "3 - length ms = Suc k" using free by (metis Suc_diff_Suc)
    have "first_access ?acc w zero_entry = ?E' w"
      using first_access_new[OF z(2) _] nw ms(2) by metis
    then have fe: "f_entries ?c = map ?E' (take 3 (ms @ [w])) @ replicate (3 - length (ms @ [w])) zero_entry"
      using free k nw by (simp add: f keep list_update_append)
    have "cell_masks (g_par g) (g_lev g) ?h ?c (ms @ [w])"
      unfolding cell_masks_def fe
      using ms new_masks nw w free l by (simp add: listed_def)
    then show thesis using that[OF i query_step_refl[OF wf]] by (auto simp: cell_rel_def)
  next
    case (listed j)
    from mask_pos_Some[OF listed(3)] have j: "j < length (drop 3 ms)" "drop 3 ms ! j = w" by auto
    then have win: "w \<in> set ms" by (metis in_set_dropD nth_mem)
    obtain al where al: "access_list c = Some al" "al = map ?E (drop 3 ms)"
      using l j by (cases "access_list c") (auto simp: listed_def)
    obtain g' where u: "update_entry t ?acc (?E w) g = Inr (?E' w, g')" and q: "query_step g g'"
      by (rule update_entry_next[OF run steps])
    let ?c = "c\<lparr>access_list := Some (al[j := ?E' w])\<rparr>"
    have np: "mask_pos w 0 (map ?E (take 3 ms)) = None"
      using listed by (auto simp: mask_pos_None)
    have aj: "al ! j = ?E w" "j < length al" using j by (simp_all add: al(2))
    have "insert_access t ?acc w junk fi li c g = Inr (?c, g')"
      using listed by (simp add: insert_access_def fi li np al(1) u aj)
    moreover have "cell_masks (g_par g) (g_lev g) ?h ?c ms"
      using ms old_masks[OF win] listed j map_update_at[of "drop 3 ms" j w ?E' ?E] other
      by (simp add: cell_masks_def f listed_def al keep)
    ultimately show thesis using that q by (auto simp: cell_rel_def)
  next
    case fresh
    let ?al = "map ?E (drop 3 ms)"
    let ?c = "c\<lparr>access_list := Some (?al @ [first_access ?acc w junk])\<rparr>"
    have np: "mask_pos w 0 (map ?E (take 3 ms)) = None" "mask_pos w 0 ?al = None"
      using fresh by (auto simp: mask_pos_None dest: in_set_takeD in_set_dropD)
    have i: "insert_access t ?acc w junk fi li c g = Inr (?c, g)"
      using fresh l by (simp add: insert_access_def fi li np listed_def)
    have "first_access ?acc w junk = ?E' w"
      using first_access_new[OF junk _] fresh ms(2) by metis
    moreover have "w \<notin> set (take 3 ms)" "w \<notin> set (drop 3 ms)"
      using fresh by (auto dest: in_set_takeD in_set_dropD)
    ultimately have "cell_masks (g_par g) (g_lev g) ?h ?c (ms @ [w])"
      unfolding cell_masks_def using ms new_masks fresh w by (simp add: listed_def f keep)
    then show thesis using that[OF i query_step_refl[OF wf]] by (auto simp: cell_rel_def)
  qed
qed

end
