(* ===== verification/Detector_Correct.thy ===== *)
theory Detector_Correct
  imports Detector_History
begin

text \<open>
  The detector against its specification. \<open>det_ok d H\<close> ties a detector state to the history
  \<open>H\<close> of every shadow cell; growth of the task graph keeps it. One checked access reports a
  race exactly when it conflicts with an access of the cell's history (parallel steps,
  disjoint lock sets, at least one write), and joins the history otherwise.
\<close>

definition conflict :: "AFTaskGraph \<Rightarrow> mask \<Rightarrow> violation_data \<Rightarrow> access \<Rightarrow> bool" where
  "conflict g w acc = (\<lambda>(m, ty, r). disjoint_masks w m \<and>
     (v_access acc = WRITE \<or> ty = WRITE) \<and> g_par g (v_task acc) r)"

definition in_order :: "AFTaskGraph \<Rightarrow> access list \<Rightarrow> bool" where
  "in_order g hist \<longleftrightarrow> (\<forall>(m, ty, r)\<in>set hist. step_node g r) \<and>
     sorted_wrt (\<lambda>a b. \<not> g_hb g (snd (snd b)) (snd (snd a))) hist"

definition det_ok :: "detector \<Rightarrow> (nat \<times> nat \<Rightarrow> access list) \<Rightarrow> bool" where
  "det_ok d H \<longleftrightarrow> wf_graph (taskGraph d) \<and>
     (\<forall>addr. cell_rel (g_par (taskGraph d)) (g_lev (taskGraph d)) (H (cell_key addr)) (cell_at addr d) \<and>
        in_order (taskGraph d) (H (cell_key addr)))"

context series_parallel
begin

lemma slots_of_ok:
  assumes g: "ok g" and "\<forall>r\<in>set rs. step g r" and "sorted_wrt (\<lambda>a b. \<not> bef g b a) rs"
  shows "slots_ok (step g) (par g) (bef g) (set rs) (slots_of (par g) (lev g) rs)"
  using assms(2,3)
proof (induction rs rule: rev_induct)
  case Nil
  show ?case by (simp add: slots_ok_empty)
next
  case (snoc s rs)
  obtain p q where pq: "slots_of (par g) (lev g) rs = (p, q)"
    by (cases "slots_of (par g) (lev g) rs")
  have "slots_ok (step g) (par g) (bef g) (set rs) (p, q)"
    using snoc by (simp add: sorted_wrt_append pq)
  moreover have "\<forall>h\<in>set rs. step g h \<and> \<not> bef g s h" "step g s"
    using snoc.prems by (auto simp: sorted_wrt_append)
  ultimately have "slots_ok (step g) (par g) (bef g) (insert s (set rs))
      (next_slots (par g) (lev g) s (p, q))" by (rule next_slots_ok[OF g])
  then show ?case by (simp add: slots_of_append pq)
qed

lemma slots_of_query:
  assumes "ok g" and "\<forall>r\<in>set rs. step g r" and "sorted_wrt (\<lambda>a b. \<not> bef g b a) rs"
    and "step g z" and "\<forall>h\<in>set rs. \<not> bef g z h"
  shows "par_opt (par g) z (fst (slots_of (par g) (lev g) rs)) \<or>
      par_opt (par g) z (snd (slots_of (par g) (lev g) rs)) \<longleftrightarrow> (\<exists>h\<in>set rs. par g z h)"
proof -
  obtain p q where pq: "slots_of (par g) (lev g) rs = (p, q)"
    by (cases "slots_of (par g) (lev g) rs")
  have "slots_ok (step g) (par g) (bef g) (set rs) (p, q)"
    using slots_of_ok[OF assms(1-3)] pq by simp
  from slots_ok_query[OF this assms(4,5)] show ?thesis by (simp add: pq)
qed

end

section \<open>One access\<close>

lemma steps_of_in_order:
  assumes "in_order g hist"
  shows "\<forall>r\<in>set (steps_of hist m ty). step_node g r"
    and "sorted_wrt (\<lambda>a b. \<not> g_hb g b a) (steps_of hist m ty)"
proof -
  show "\<forall>r\<in>set (steps_of hist m ty). step_node g r"
    using assms by (auto simp: in_order_def steps_of_set)
  have "sorted_wrt (\<lambda>x y. \<not> g_hb g (snd (snd y)) (snd (snd x))) hist"
    using assms by (simp add: in_order_def split_beta)
  then show "sorted_wrt (\<lambda>a b. \<not> g_hb g b a) (steps_of hist m ty)"
    by (simp add: steps_of_def sorted_wrt_map sorted_wrt_filter)
qed

lemma entry_race_conflict:
  assumes wf: "wf_graph g" and ord: "in_order g hist" and s: "step_node g (v_task acc)"
    and late: "\<forall>(m, ty, r)\<in>set hist. \<not> g_hb g (v_task acc) r"
  shows "entry_race (g_par g) acc (entry_for (g_par g) (g_lev g) hist m) \<noteq> None \<longleftrightarrow>
    (\<exists>ty r. (m, ty, r) \<in> set hist \<and> (v_access acc = WRITE \<or> ty = WRITE) \<and> g_par g (v_task acc) r)"
proof -
  let ?sl = "\<lambda>ty. slots_of (g_par g) (g_lev g) (steps_of hist m ty)"
  have q: "par_opt (g_par g) (v_task acc) (fst (?sl ty)) \<or> par_opt (g_par g) (v_task acc) (snd (?sl ty))
      \<longleftrightarrow> (\<exists>r. (m, ty, r) \<in> set hist \<and> g_par g (v_task acc) r)" for ty
  proof -
    have "\<forall>h\<in>set (steps_of hist m ty). \<not> g_hb g (v_task acc) h"
      using late by (auto simp: steps_of_set)
    from dpst.slots_of_query[OF wf steps_of_in_order[OF ord] s this]
    show ?thesis by (auto simp: steps_of_set)
  qed
  have "entry_race (g_par g) acc (entry_for (g_par g) (g_lev g) hist m) \<noteq> None \<longleftrightarrow>
      (\<exists>r. (m, WRITE, r) \<in> set hist \<and> g_par g (v_task acc) r) \<or>
      v_access acc = WRITE \<and> (\<exists>r. (m, READ, r) \<in> set hist \<and> g_par g (v_task acc) r)"
    unfolding entry_race_None q[symmetric] by (auto simp: entry_for_def Let_def)
  also have "\<dots> \<longleftrightarrow> (\<exists>ty r. (m, ty, r) \<in> set hist \<and> (v_access acc = WRITE \<or> ty = WRITE) \<and>
      g_par g (v_task acc) r)"
  proof -
    have "(\<exists>ty. P ty) \<longleftrightarrow> P WRITE \<or> P READ" for P :: "AccessType \<Rightarrow> bool"
      by (metis AccessType.exhaust)
    then show ?thesis by auto
  qed
  finally show ?thesis .
qed

definition cell_entries :: "Dr_Address_Data \<Rightarrow> Address_data list" where
  "cell_entries c = filter (\<lambda>e. a_lockset e \<noteq> 0) (f_entries c) @ listed c"

lemma cell_entries_masks:
  assumes "cell_masks par lev hist c ms"
  shows "cell_entries c = map (entry_for par lev hist) ms"
proof -
  from assms have nz: "0 \<notin> set (take 3 ms)" by (auto simp: cell_masks_def dest: in_set_takeD)
  have z: "filter (\<lambda>e. a_lockset e \<noteq> 0) (replicate k zero_entry) = []" for k
    by (auto simp: zero_entry_def)
  have "filter (\<lambda>e. a_lockset e \<noteq> 0) (map (entry_for par lev hist) (take 3 ms)) =
      map (entry_for par lev hist) (take 3 ms)"
    by (rule filter_True) (use nz in auto)
  with assms z show ?thesis
    by (simp add: cell_entries_def cell_masks_def flip: map_append)
qed

lemma first_race_append:
  "first_race par acc w (xs @ ys) =
     (case first_race par acc w xs of None \<Rightarrow> first_race par acc w ys | Some v \<Rightarrow> Some v)"
  by (induction xs) (auto split: option.splits)

lemma first_race_conflict:
  assumes wf: "wf_graph g" and c: "cell_rel (g_par g) (g_lev g) hist c" and ord: "in_order g hist"
    and s: "step_node g (v_task acc)" and late: "\<forall>(m, ty, r)\<in>set hist. \<not> g_hb g (v_task acc) r"
  shows "first_race (g_par g) acc w (cell_entries c) \<noteq> None \<longleftrightarrow> (\<exists>a\<in>set hist. conflict g w acc a)"
proof -
  from c obtain ms where ms: "cell_masks (g_par g) (g_lev g) hist c ms" by (auto simp: cell_rel_def)
  then have set_ms: "set ms = fst ` set hist" by (simp add: cell_masks_def)
  have "first_race (g_par g) acc w (cell_entries c) \<noteq> None \<longleftrightarrow>
      (\<exists>m\<in>set ms. disjoint_masks w m \<and>
        entry_race (g_par g) acc (entry_for (g_par g) (g_lev g) hist m) \<noteq> None)"
    by (auto simp: first_race_None cell_entries_masks[OF ms])
  also have "\<dots> \<longleftrightarrow> (\<exists>a\<in>set hist. conflict g w acc a)"
    unfolding entry_race_conflict[OF wf ord s late] set_ms
    by (force simp: conflict_def)
  finally show ?thesis .
qed

lemma first_race_sound:
  assumes c: "cell_rel (g_par g) (g_lev g) hist c"
    and v: "first_race (g_par g) acc w (cell_entries c) = Some v"
  shows "a1 v = acc"
    and "\<exists>m. (m, v_access (a2 v), v_task (a2 v)) \<in> set hist \<and>
      conflict g w acc (m, v_access (a2 v), v_task (a2 v))"
proof -
  from c obtain ms where ms: "cell_masks (g_par g) (g_lev g) hist c ms" by (auto simp: cell_rel_def)
  from first_race_Some[OF v] obtain m where m: "m \<in> set ms" "disjoint_masks w m"
    and e: "entry_race (g_par g) acc (entry_for (g_par g) (g_lev g) hist m) = Some v"
    by (auto simp: cell_entries_masks[OF ms])
  note E = entry_race_Some[OF e]
  have sub: "r \<in> set (steps_of hist m ty)"
    if "r \<in> set_option (fst (slots_of (g_par g) (g_lev g) (steps_of hist m ty))) \<union>
          set_option (snd (slots_of (g_par g) (g_lev g) (steps_of hist m ty)))" for r ty
    using that slots_of_sub[of "g_par g" "g_lev g" "steps_of hist m ty"] by auto
  have "v_task (a2 v) \<in> set (steps_of hist m (v_access (a2 v)))"
    using E(4,5) sub by (cases "v_access (a2 v)") (auto simp: entry_for_def Let_def)
  with E m(2) show "a1 v = acc"
    "\<exists>m. (m, v_access (a2 v), v_task (a2 v)) \<in> set hist \<and>
      conflict g w acc (m, v_access (a2 v), v_task (a2 v))"
    by (auto simp: steps_of_set conflict_def)
qed

section \<open>Shadow cells\<close>

lemma open_page_cell:
  assumes "page_mapped d (primary_index addr)"
  obtains page d1 where "open_page addr d = Inr (page, d1)" and "page (cell_offset addr) = cell_at addr d"
    and "\<forall>a. cell_at a d1 = cell_at a d" and "shadow_space d1 (primary_index addr) = Some page"
    and "\<exists>ss. d1 = d\<lparr>shadow_space := ss\<rparr>"
proof (cases "shadow_space d (primary_index addr)")
  case None
  let ?d = "d\<lparr>shadow_space := (shadow_space d)(primary_index addr := Some (\<lambda>_. zero_cell))\<rparr>"
  have "open_page addr d = Inr (\<lambda>_. zero_cell, ?d)"
    using assms None by (simp add: open_page_def Let_def)
  then show thesis by (rule that) (use None in \<open>auto simp: cell_at_def\<close>)
next
  case (Some page)
  have "open_page addr d = Inr (page, d)" using Some by (simp add: open_page_def)
  moreover have "\<exists>ss. d = d\<lparr>shadow_space := ss\<rparr>"
    by (rule exI[of _ "shadow_space d"]) simp
  ultimately show thesis using that Some by (simp add: cell_at_def)
qed

lemma cell_at_store:
  assumes "shadow_space d (primary_index addr) = Some page"
  shows "cell_at a (store_cell addr c d) = (if cell_key a = cell_key addr then c else cell_at a d)"
  using assms by (auto simp: cell_at_def store_cell_def cell_key_def)

lemma store_cell_fields [simp]:
  "taskGraph (store_cell addr c d) = taskGraph d"
  "all_violations (store_cell addr c d) = all_violations d"
  "lock_tab (store_cell addr c d) = lock_tab d"
  "thd_lockset (store_cell addr c d) = thd_lockset d"
  "page_mapped (store_cell addr c d) = page_mapped d"
  by (simp_all add: store_cell_def)

lemma cell_at_graph [simp]: "cell_at a (d\<lparr>taskGraph := g\<rparr>) = cell_at a d"
  "cell_at a (d\<lparr>all_violations := vs\<rparr>) = cell_at a d"
  "cell_at a (d\<lparr>lock_tab := lt\<rparr>) = cell_at a d"
  "cell_at a (d\<lparr>thd_lockset := ls\<rparr>) = cell_at a d"
  by (simp_all add: cell_at_def)

text \<open>Everything of the detector but the shadow memory, the violations and the memo table.\<close>

definition same_rest :: "detector \<Rightarrow> detector \<Rightarrow> bool" where
  "same_rest d d' \<longleftrightarrow> query_step (taskGraph d) (taskGraph d') \<and> lock_tab d' = lock_tab d \<and>
     thd_lockset d' = thd_lockset d \<and> page_mapped d' = page_mapped d"

section \<open>The core of the detector\<close>

lemma access_history_spec:
  assumes run: "running t s (taskGraph d)"
    and c: "cell_rel (g_par (taskGraph d)) (g_lev (taskGraph d)) hist (cell_at addr d)"
    and st: "\<forall>(m, ty, r)\<in>set hist. step_node (taskGraph d) r"
    and w: "w \<noteq> 0" and junk: "no_pointers junk" and pg: "page_mapped d (primary_index addr)"
  obtains d' where "access_history t addr w \<lparr>v_task = s, v_access = ty\<rparr> junk d = Inr d'"
    and "same_rest d d'"
    and "\<And>v. first_race (g_par (taskGraph d)) \<lparr>v_task = s, v_access = ty\<rparr> w (cell_entries (cell_at addr d)) = Some v
      \<Longrightarrow> all_violations d' = map_insert (all_violations d) addr v \<and> (\<forall>a. cell_at a d' = cell_at a d)"
    and "first_race (g_par (taskGraph d)) \<lparr>v_task = s, v_access = ty\<rparr> w (cell_entries (cell_at addr d)) = None
      \<Longrightarrow> all_violations d' = all_violations d \<and>
        cell_rel (g_par (taskGraph d)) (g_lev (taskGraph d)) (hist @ [(w, ty, s)]) (cell_at addr d') \<and>
        (\<forall>a. cell_key a \<noteq> cell_key addr \<longrightarrow> cell_at a d' = cell_at a d) \<and>
        (\<forall>a. cell_key a = cell_key addr \<longrightarrow> cell_at a d' = cell_at addr d')"
proof -
  let ?g = "taskGraph d" and ?acc = "\<lparr>v_task = s, v_access = ty\<rparr>"
  let ?E = "entry_for (g_par ?g) (g_lev ?g) hist" and ?c = "cell_at addr d"
  have run': "running t (v_task ?acc) ?g" using run by simp
  from c obtain ms where cm: "cell_masks (g_par ?g) (g_lev ?g) hist ?c ms" by (auto simp: cell_rel_def)
  then have ms: "distinct ms" "0 \<notin> set ms"
    and f: "f_entries ?c = map ?E (take 3 ms) @ replicate (3 - length ms) zero_entry"
    and l: "listed ?c = map ?E (drop 3 ms)" by (auto simp: cell_masks_def)
  obtain page d1 where op: "open_page addr d = Inr (page, d1)" "page (cell_offset addr) = ?c"
    "\<forall>a. cell_at a d1 = cell_at a d" "shadow_space d1 (primary_index addr) = Some page"
    and d1: "\<exists>ss. d1 = d\<lparr>shadow_space := ss\<rparr>" by (rule open_page_cell[OF pg])
  have F: "taskGraph d1 = ?g" "lock_tab d1 = lock_tab d" "thd_lockset d1 = thd_lockset d"
    "page_mapped d1 = page_mapped d" "all_violations d1 = all_violations d" using d1 by auto
  have slots: "\<forall>r\<in>slot_steps (?E m). step_node ?g r" for m
    using slot_steps_entry_for[of "g_par ?g" "g_lev ?g" hist m] st by fastforce
  have valid: "\<forall>e\<in>set (map ?E xs). \<forall>r\<in>slot_steps e. step_node ?g r" for xs
    using slots by auto
  have dist: "distinct (map a_lockset (map ?E xs)) \<longleftrightarrow> distinct xs" for xs
    by (simp add: comp_def)
  have z: "0 \<notin> a_lockset ` set (map ?E (take 3 ms))"
    using ms(2) by (auto dest: in_set_takeD)
  let ?r1 = "first_race (g_par ?g) ?acc w (map ?E (take 3 ms))"
  let ?r2 = "first_race (g_par ?g) ?acc w (map ?E (drop 3 ms))"
  have whole: "first_race (g_par ?g) ?acc w (cell_entries ?c) = (case ?r1 of None \<Rightarrow> ?r2 | Some v \<Rightarrow> Some v)"
    by (simp add: cell_entries_masks[OF cm] flip: first_race_append map_append)
  have "distinct (map a_lockset (map ?E (take 3 ms)))" unfolding dist using ms(1) by simp
  from scan_fixed_par[OF run' valid this z, of None w 0 "3 - length ms"]
  obtain fi g1 where s1: "scan_fixed t ?acc w 0 (f_entries ?c) None ?g = Inr (?r1, fi, g1)"
    and q1: "query_step ?g g1"
    and fi: "?r1 = None \<longrightarrow> fi = (case mask_pos w 0 (map ?E (take 3 ms)) of Some j \<Rightarrow> Some j
      | None \<Rightarrow> if 3 - length ms = 0 then None else Some (length (map ?E (take 3 ms))))"
    by (auto simp: f cong: option.case_cong)
  note Q1 = query_step_same[OF q1]
  show thesis
  proof (cases ?r1)
    case (Some v)
    let ?d = "report_race addr v g1 d1"
    have "access_history t addr w ?acc junk d = Inr ?d"
      by (simp add: access_history_def op F s1 Some Let_def)
    moreover have "same_rest d ?d" by (simp add: same_rest_def report_race_def F q1)
    ultimately show thesis
      using that whole Some op(3) F(5) by (simp add: report_race_def)
  next
    case None
    have "distinct (map a_lockset (map ?E (drop 3 ms)))" unfolding dist using ms(1) by simp
    then obtain li g2 where s2: "scan_list t ?acc w 0 (map ?E (drop 3 ms)) None g1 = Inr (?r2, li, g2)"
      and q2: "query_step g1 g2" and li: "?r2 = None \<longrightarrow> li = mask_pos w 0 (map ?E (drop 3 ms))"
      using scan_list_par[OF Q1(5)[OF run'], of "map ?E (drop 3 ms)" w 0 None] valid
      unfolding Q1(1,4) by (auto split: if_splits)
    note q = query_step_trans[OF q1 q2]
    note Q = query_step_same[OF q]
    have al: "(case access_list ?c of None \<Rightarrow> [] | Some al \<Rightarrow> al) = map ?E (drop 3 ms)"
      using l by (simp add: listed_def)
    show thesis
    proof (cases ?r2)
      case (Some v)
      let ?d = "report_race addr v g2 d1"
      have "access_history t addr w ?acc junk d = Inr ?d"
        by (simp add: access_history_def op F s1 None al s2 Some Let_def)
      moreover have "same_rest d ?d" by (simp add: same_rest_def report_race_def F q)
      ultimately show thesis
        using that whole None Some op(3) F(5) by (simp add: report_race_def)
    next
      case r2: None
      have fi': "fi = (case mask_pos w 0 (map ?E (take 3 ms)) of
          Some j \<Rightarrow> Some j | None \<Rightarrow> if 3 \<le> length ms then None else Some (length ms))"
        using fi None by (auto split: option.splits)
      have cm2: "cell_masks (g_par g2) (g_lev g2) hist ?c ms" and run2: "running t s g2"
        and st2: "\<forall>(m, ty, r)\<in>set hist. step_node g2 r"
        using cm Q(1,2,4,5) run st by auto
      obtain c' g3 where ins: "insert_access t ?acc w junk fi li ?c g2 = Inr (c', g3)"
        and q3: "query_step g2 g3" and rel: "cell_rel (g_par g2) (g_lev g2) (hist @ [(w, ty, s)]) c'"
        using insert_access_rel[OF run2 cm2 st2 w junk, of fi li ty] fi' li r2 unfolding Q(1,2)
        by blast
      let ?d = "store_cell addr c' (d1\<lparr>taskGraph := g3\<rparr>)"
      have "access_history t addr w ?acc junk d = Inr ?d"
        by (simp add: access_history_def op F s1 None al s2 r2 Let_def ins)
      moreover have "same_rest d ?d" by (simp add: same_rest_def F query_step_trans[OF q q3])
      moreover have "cell_at a ?d = (if cell_key a = cell_key addr then c' else cell_at a d)" for a
        using cell_at_store[of "d1\<lparr>taskGraph := g3\<rparr>" addr page a c'] op(3,4) by simp
      ultimately show thesis
        using that whole None r2 rel F(5) Q(1,2) by simp
    qed
  qed
qed

section \<open>The detector invariant\<close>

lemma det_ok_same:
  assumes ok: "det_ok d H" and q: "query_step (taskGraph d) (taskGraph d')"
    and cells: "\<forall>a. cell_at a d' = cell_at a d"
  shows "det_ok d' H"
  using ok cells query_step_same(1-4)[OF q] query_step_fields(1)[OF q]
  by (simp add: det_ok_def in_order_def)

text \<open>
  The step that reads or writes comes after every access of the history: no recorded step is
  reachable from it in the happens-before order.
\<close>

definition comes_last :: "AFTaskGraph \<Rightarrow> nat \<Rightarrow> access list \<Rightarrow> bool" where
  "comes_last g s hist \<longleftrightarrow> (\<forall>(m, ty, r)\<in>set hist. \<not> g_hb g s r)"

lemma access_history_checks:
  fixes d H addr
  defines "g \<equiv> taskGraph d" and "hist \<equiv> H (cell_key addr)"
  assumes ok: "det_ok d H" and run: "running t s g" and late: "comes_last g s hist"
    and w: "w \<noteq> 0" and junk: "no_pointers junk" and pg: "page_mapped d (primary_index addr)"
    and new: "all_violations d addr = None"
  obtains d' where "access_history t addr w \<lparr>v_task = s, v_access = ty\<rparr> junk d = Inr d'"
    and "same_rest d d'"
    and "(\<exists>a\<in>set hist. conflict g w \<lparr>v_task = s, v_access = ty\<rparr> a) \<Longrightarrow>
      det_ok d' H \<and> (\<exists>v m. all_violations d' = (all_violations d)(addr \<mapsto> v) \<and>
        a1 v = \<lparr>v_task = s, v_access = ty\<rparr> \<and>
        (m, v_access (a2 v), v_task (a2 v)) \<in> set hist \<and>
        conflict g w \<lparr>v_task = s, v_access = ty\<rparr> (m, v_access (a2 v), v_task (a2 v)))"
    and "\<not> (\<exists>a\<in>set hist. conflict g w \<lparr>v_task = s, v_access = ty\<rparr> a) \<Longrightarrow>
      det_ok d' (H(cell_key addr := hist @ [(w, ty, s)])) \<and> all_violations d' = all_violations d"
proof -
  let ?acc = "\<lparr>v_task = s, v_access = ty\<rparr>"
  note wf = running_step(3)[OF run] and s = running_step(1)[OF run]
  from ok have c: "cell_rel (g_par g) (g_lev g) hist (cell_at addr d)" and ord: "in_order g hist"
    by (simp_all add: det_ok_def g_def hist_def)
  then have st: "\<forall>(m, ty, r)\<in>set hist. step_node g r" by (simp add: in_order_def)
  obtain d' where ah: "access_history t addr w ?acc junk d = Inr d'" and same: "same_rest d d'"
    and race: "\<And>v. first_race (g_par g) ?acc w (cell_entries (cell_at addr d)) = Some v
      \<Longrightarrow> all_violations d' = map_insert (all_violations d) addr v \<and> (\<forall>a. cell_at a d' = cell_at a d)"
    and none: "first_race (g_par g) ?acc w (cell_entries (cell_at addr d)) = None
      \<Longrightarrow> all_violations d' = all_violations d \<and>
        cell_rel (g_par g) (g_lev g) (hist @ [(w, ty, s)]) (cell_at addr d') \<and>
        (\<forall>a. cell_key a \<noteq> cell_key addr \<longrightarrow> cell_at a d' = cell_at a d) \<and>
        (\<forall>a. cell_key a = cell_key addr \<longrightarrow> cell_at a d' = cell_at addr d')"
    using access_history_spec[OF run[unfolded g_def] c[unfolded g_def] st[unfolded g_def] w junk pg, of ty]
    unfolding g_def by metis
  from same have q: "query_step (taskGraph d) (taskGraph d')" by (simp add: same_rest_def)
  have fr: "first_race (g_par g) ?acc w (cell_entries (cell_at addr d)) \<noteq> None \<longleftrightarrow>
      (\<exists>a\<in>set hist. conflict g w ?acc a)"
    using first_race_conflict[OF wf c ord, of ?acc w] s late by (simp add: comes_last_def)
  show thesis
  proof (rule that[OF ah same])
    assume "\<exists>a\<in>set hist. conflict g w ?acc a"
    then obtain v where v: "first_race (g_par g) ?acc w (cell_entries (cell_at addr d)) = Some v"
      using fr by auto
    note snd = first_race_sound[OF c v]
    have "det_ok d' H" using det_ok_same[OF ok q] race[OF v] by simp
    moreover have "all_violations d' = (all_violations d)(addr \<mapsto> v)"
      using race[OF v] new by (simp add: map_insert_def)
    ultimately show "det_ok d' H \<and> (\<exists>v m. all_violations d' = (all_violations d)(addr \<mapsto> v) \<and>
        a1 v = ?acc \<and> (m, v_access (a2 v), v_task (a2 v)) \<in> set hist \<and>
        conflict g w ?acc (m, v_access (a2 v), v_task (a2 v)))"
      using snd by blast
  next
    assume "\<not> (\<exists>a\<in>set hist. conflict g w ?acc a)"
    then have n: "first_race (g_par g) ?acc w (cell_entries (cell_at addr d)) = None"
      using fr by auto
    note N = none[OF n]
    have "in_order g (hist @ [(w, ty, s)])"
      using ord s late by (auto simp: in_order_def sorted_wrt_append comes_last_def)
    then have here: "cell_rel (g_par g) (g_lev g) (hist @ [(w, ty, s)]) (cell_at a d') \<and>
        in_order g (hist @ [(w, ty, s)])" if "cell_key a = cell_key addr" for a
      using N that by (metis (no_types))
    have there: "cell_rel (g_par g) (g_lev g) (H (cell_key a)) (cell_at a d') \<and>
        in_order g (H (cell_key a))" if "cell_key a \<noteq> cell_key addr" for a
      using N that ok unfolding det_ok_def g_def by metis
    have "in_order (taskGraph d') = in_order g"
      using query_step_same(3,4)[OF q] by (simp add: in_order_def[abs_def] g_def)
    then have "det_ok d' (H(cell_key addr := hist @ [(w, ty, s)]))"
      using here there query_step_same(1,2)[OF q] query_step_fields(1)[OF q]
      by (simp add: det_ok_def g_def)
    with N show "det_ok d' (H(cell_key addr := hist @ [(w, ty, s)])) \<and>
      all_violations d' = all_violations d" by simp
  qed
qed

end
