(* ===== verification/Detector_Mem.thy ===== *)
theory Detector_Mem
  imports Detector_Correct
begin

text \<open>
  \<open>RecordMem\<close> (\<open>DR_Detector.cpp\<close>), the entry point for programs instrumented without branch
  information. Its body repeats that of \<open>RecordAccess\<close> statement by statement, so it is
  translated on its own here, with the slots of an entry visited as a list, and proved equal
  to \<open>RecordAccess\<close> with no locks to add or drop.
\<close>

definition mem_slots :: "AccessType \<Rightarrow> Address_data \<Rightarrow> (nat option \<times> AccessType) list" where
  "mem_slots accessType e =
     [(w1_task e, WRITE), (w2_task e, WRITE)] @
     (if accessType = WRITE then [(r1_task e, READ), (r2_task e, READ)] else [])"

fun mem_first_parallel ::
    "nat \<Rightarrow> (nat option \<times> AccessType) list \<Rightarrow> AFTaskGraph
       \<Rightarrow> (violation_data option \<times> AFTaskGraph) result" where
  "mem_first_parallel threadid [] g = Inr (None, g)"
| "mem_first_parallel threadid ((None, ty) # ps) g = mem_first_parallel threadid ps g"
| "mem_first_parallel threadid ((Some r, ty) # ps) g =
     bind_r (races_with threadid r g) (\<lambda>(b, g1).
       if b then Inr (Some \<lparr>v_task = r, v_access = ty\<rparr>, g1)
       else mem_first_parallel threadid ps g1)"

text \<open>\<open>fixed\<close> is the first loop, whose entries may be unused; the second loop has no such entry.\<close>

fun mem_scan ::
    "bool \<Rightarrow> nat \<Rightarrow> AccessType \<Rightarrow> mask \<Rightarrow> nat \<Rightarrow> Address_data list \<Rightarrow> nat option \<Rightarrow> AFTaskGraph
       \<Rightarrow> (violation_data option \<times> nat option \<times> AFTaskGraph) result" where
  "mem_scan fixed threadid ty curLockset i [] ins g = Inr (None, ins, g)"
| "mem_scan fixed threadid ty curLockset i (e # es) ins g =
     (let used = \<not> fixed \<or> a_lockset e \<noteq> 0 in
      if fixed \<and> ins = None \<and> \<not> used then Inr (None, Some i, g)
      else if used \<and> disjoint_masks curLockset (a_lockset e) then
        bind_r (mem_first_parallel threadid (mem_slots ty e) g) (\<lambda>(v, g1).
          if v \<noteq> None then Inr (v, ins, g1)
          else mem_scan fixed threadid ty curLockset (Suc i) es
                 (if used \<and> curLockset = a_lockset e then Some i else ins) g1)
      else mem_scan fixed threadid ty curLockset (Suc i) es
             (if used \<and> curLockset = a_lockset e then Some i else ins) g)"

definition mem_update ::
    "nat \<Rightarrow> nat \<Rightarrow> AccessType \<Rightarrow> Address_data \<Rightarrow> AFTaskGraph \<Rightarrow> (Address_data \<times> AFTaskGraph) result" where
  "mem_update threadid curStepNode ty e g =
     (let t1 = (if ty = WRITE then w1_task e else r1_task e);
          t2 = (if ty = WRITE then w2_task e else r2_task e);
          set = (\<lambda>p q. if ty = WRITE then e\<lparr>w1_task := p, w2_task := q\<rparr>
                       else e\<lparr>r1_task := p, r2_task := q\<rparr>) in
      bind_r (par_flag threadid t1 g) (\<lambda>(par1, g1).
      bind_r (par_flag threadid t2 g1) (\<lambda>(par2, g2).
        case (t1, t2) of
          (Some x, Some y) \<Rightarrow>
            if par1 \<and> par2 then
              bind_r (LCA x y g2) (\<lambda>lca12. bind_r (LCA x curStepNode g2) (\<lambda>lca1s.
                if depth (tgraph_nodes g2 lca1s) < depth (tgraph_nodes g2 lca12)
                then Inr (set (Some curStepNode) t2, g2) else Inr (set t1 t2, g2)))
            else if par1 \<or> par2 then Inr (set t1 t2, g2)
            else Inr (set (Some curStepNode) None, g2)
        | (Some x, None) \<Rightarrow>
            if par1 then Inr (set t1 (Some curStepNode), g2) else Inr (set (Some curStepNode) None, g2)
        | (None, _) \<Rightarrow>
            if par2 then Inr (set t1 t2, g2) else Inr (set (Some curStepNode) None, g2))))"

definition mem_fresh :: "nat \<Rightarrow> AccessType \<Rightarrow> mask \<Rightarrow> Address_data \<Rightarrow> Address_data" where
  "mem_fresh curStepNode ty curLockset e =
     (case ty of READ \<Rightarrow> e\<lparr>a_lockset := curLockset, r1_task := Some curStepNode\<rparr>
      | WRITE \<Rightarrow> e\<lparr>a_lockset := curLockset, w1_task := Some curStepNode\<rparr>)"

definition mem_insert ::
    "nat \<Rightarrow> nat \<Rightarrow> AccessType \<Rightarrow> mask \<Rightarrow> Address_data \<Rightarrow> nat option \<Rightarrow> nat option \<Rightarrow> Dr_Address_Data
       \<Rightarrow> AFTaskGraph \<Rightarrow> (Dr_Address_Data \<times> AFTaskGraph) result" where
  "mem_insert threadid curStepNode ty curLockset junk f_insert_index insert_index c g =
     (case (f_insert_index, insert_index, access_list c) of
        (Some i, _, _) \<Rightarrow>
          if a_lockset (f_entries c ! i) = 0
          then Inr (c\<lparr>f_entries := (f_entries c)[i := mem_fresh curStepNode ty curLockset (f_entries c ! i)]\<rparr>, g)
          else bind_r (mem_update threadid curStepNode ty (f_entries c ! i) g) (\<lambda>(e, g1).
                 Inr (c\<lparr>f_entries := (f_entries c)[i := e]\<rparr>, g1))
      | (None, None, None) \<Rightarrow>
          Inr (c\<lparr>access_list := Some [mem_fresh curStepNode ty curLockset junk]\<rparr>, g)
      | (None, None, Some al) \<Rightarrow>
          Inr (c\<lparr>access_list := Some (al @ [mem_fresh curStepNode ty curLockset junk])\<rparr>, g)
      | (None, Some j, None) \<Rightarrow> Inl OutOfBounds
      | (None, Some j, Some al) \<Rightarrow>
          if j < length al then
            bind_r (mem_update threadid curStepNode ty (al ! j) g) (\<lambda>(e, g1).
              Inr (c\<lparr>access_list := Some (al[j := e])\<rparr>, g1))
          else Inl OutOfBounds)"

definition RecordMem ::
    "nat \<Rightarrow> addr \<Rightarrow> AccessType \<Rightarrow> Address_data \<Rightarrow> detector \<Rightarrow> detector result" where
  "RecordMem threadid addr accessType junk d =
     bind_r (exceptions threadid addr d) (\<lambda>skip.
       if skip then Inr d
       else
         bind_r (stack_top (thd_lockset d threadid)) (\<lambda>ls.
         let curLockset = createLockset ls in
         bind_r (getCurTask threadid (taskGraph d)) (\<lambda>curStepNode.
         bind_r (open_page addr d) (\<lambda>(page, d1).
         let c = page (cell_offset addr);
             report = (\<lambda>v g. Inr (d1\<lparr>taskGraph := g, all_violations := map_insert (all_violations d1) addr
               \<lparr>a1 = \<lparr>v_task = curStepNode, v_access = accessType\<rparr>, a2 = v\<rparr>\<rparr>)) in
         bind_r (mem_scan True threadid accessType curLockset 0 (f_entries c) None (taskGraph d1)) (\<lambda>(v, fi, g1).
         case v of
           Some r \<Rightarrow> report r g1
         | None \<Rightarrow>
             bind_r (case access_list c of
                       None \<Rightarrow> Inr (None, None, g1)
                     | Some al \<Rightarrow> mem_scan False threadid accessType curLockset 0 al None g1) (\<lambda>(v, li, g2).
             case v of
               Some r \<Rightarrow> report r g2
             | None \<Rightarrow>
                 bind_r (mem_insert threadid curStepNode accessType curLockset junk fi li c g2) (\<lambda>(c', g3).
                   Inr (store_cell addr c' (d1\<lparr>taskGraph := g3\<rparr>)))))))))"

section \<open>The two entry points agree\<close>

definition as_violation :: "violation_data \<Rightarrow> violation_data option \<Rightarrow> violation option" where
  "as_violation acc v = map_option (\<lambda>r. \<lparr>a1 = acc, a2 = r\<rparr>) v"

lemma as_violation_simps [simp]:
  "as_violation acc None = None" "as_violation acc (Some r) = Some \<lparr>a1 = acc, a2 = r\<rparr>"
  by (simp_all add: as_violation_def)

lemma check_slot_mem:
  "or_else (check_slot threadid acc p ty g) (\<lambda>g. map_sum (\<lambda>x. x) (\<lambda>(v, g). (as_violation acc v, g))
      (mem_first_parallel threadid ps g)) =
   map_sum (\<lambda>x. x) (\<lambda>(v, g). (as_violation acc v, g)) (mem_first_parallel threadid ((p, ty) # ps) g)"
  by (cases p)
    (auto simp: or_else_def check_slot_def bind_r_def split: sum.splits prod.splits)

lemma or_else_id: "or_else m (\<lambda>g. Inr (None, g)) = m"
  by (auto simp: or_else_def bind_r_def split: sum.splits option.splits)

lemma check_entry_mem:
  "check_entry threadid acc e g =
     map_sum (\<lambda>x. x) (\<lambda>(v, g). (as_violation acc v, g))
       (mem_first_parallel threadid (mem_slots (v_access acc) e) g)"
  by (simp add: check_entry_def mem_slots_def or_else_id flip: check_slot_mem)

lemma scan_fixed_mem:
  "scan_fixed threadid acc w i es ins g =
     map_sum (\<lambda>x. x) (\<lambda>(v, ins, g). (as_violation acc v, ins, g))
       (mem_scan True threadid (v_access acc) w i es ins g)"
  by (induction es arbitrary: i ins g)
    (auto simp: check_entry_mem Let_def bind_r_def split: sum.splits prod.splits option.splits)

lemma scan_list_mem:
  "scan_list threadid acc w i es ins g =
     map_sum (\<lambda>x. x) (\<lambda>(v, ins, g). (as_violation acc v, ins, g))
       (mem_scan False threadid (v_access acc) w i es ins g)"
  by (induction es arbitrary: i ins g)
    (auto simp: check_entry_mem Let_def bind_r_def split: sum.splits prod.splits option.splits)

lemma mem_update_entry:
  "mem_update threadid s ty e g = update_entry threadid \<lparr>v_task = s, v_access = ty\<rparr> e g"
proof (cases "ty = WRITE")
  case True
  then show ?thesis
    by (cases "w1_task e"; cases "w2_task e")
      (auto simp: mem_update_def update_entry_def update_slots_def par_flag_def bind_r_def
        split: sum.splits prod.splits)
next
  case False
  then show ?thesis
    by (cases "r1_task e"; cases "r2_task e")
      (auto simp: mem_update_def update_entry_def update_slots_def par_flag_def bind_r_def
        split: sum.splits prod.splits)
qed

lemma mem_fresh_first:
  "mem_fresh s ty w e = first_access \<lparr>v_task = s, v_access = ty\<rparr> w e"
  by (cases ty) (simp_all add: mem_fresh_def first_access_def Let_def)

lemma mem_insert_access:
  "mem_insert threadid s ty w junk fi li c g =
     insert_access threadid \<lparr>v_task = s, v_access = ty\<rparr> w junk fi li c g"
  by (auto simp: mem_insert_def insert_access_def mem_update_entry mem_fresh_first Let_def
      assert_r_def split: option.splits)

lemma RecordMem_RecordAccess:
  "RecordMem threadid addr ty junk d = RecordAccess threadid addr [] [] ty junk d"
proof -
  have scan: "bind_r (map_sum (\<lambda>x. x) (\<lambda>(v, ins, g). (as_violation acc v, ins, g)) m) k =
      bind_r m (\<lambda>(v, ins, g). k (as_violation acc v, ins, g))" for acc m and
      k :: "violation option \<times> nat option \<times> AFTaskGraph \<Rightarrow> detector result"
    by (auto simp: bind_r_def split: sum.splits)
  have list: "(case access_list c of None \<Rightarrow> Inr (None, None, g)
        | Some al \<Rightarrow> mem_scan False threadid ty w 0 al None g) =
      mem_scan False threadid ty w 0 (case access_list c of None \<Rightarrow> [] | Some al \<Rightarrow> al) None g"
    for c w g by (simp split: option.split)
  have rep: "(case as_violation acc v of None \<Rightarrow> A | Some r \<Rightarrow> F r) =
      (case v of None \<Rightarrow> A | Some r \<Rightarrow> F \<lparr>a1 = acc, a2 = r\<rparr>)" for acc v A
      and F :: "violation \<Rightarrow> detector result"
    by (simp split: option.split)
  have self: "d\<lparr>lock_tab := lock_tab d\<rparr> = d" by simp
  show ?thesis
    unfolding RecordMem_def RecordAccess_def access_history_def scan_fixed_mem scan_list_mem scan
      list mem_insert_access report_race_def Let_def
    by (simp only: prod.case acquire_all.simps release_all.simps bind_r_simps rep self
        violation_data.simps split_beta fst_conv snd_conv)
qed

end
