(* ===== verification/Detector_System.thy ===== *)
theory Detector_System
  imports Detector_Mem
begin

text \<open>
  The detector beside a growing task graph, and the entry points the instrumented program
  calls. The handlers of the task graph keep the detector's invariant (\<open>det_ok_grows\<close>);
  \<open>RecordAccess\<close> with the locks of its region reports exactly the conflicting accesses
  (\<open>RecordAccess_checks\<close>).
\<close>

section \<open>Growth\<close>

lemma graph_step_step_node: "graph_step g g' \<Longrightarrow> step_node g a \<Longrightarrow> step_node g' a"
  by (auto simp: graph_step_def grows_def same_shape_def node_def)

lemma graph_step_shape:
  assumes "graph_step g g'"
  shows "same_shape (tgraph_nodes g) (tgraph_nodes g') (last_allocated_node g)"
    and "last_allocated_node g \<le> last_allocated_node g'"
  using assms by (auto simp: graph_step_def grows_def)

lemma g_par_grows:
  assumes wf: "wf_graph g" and gs: "graph_step g g'" and "step_node g a" "step_node g b"
  shows "g_par g' a b = g_par g a b"
  using mhp_grows[OF wf_tree[OF wf] wf_tree[OF graph_step_wf[OF wf gs]] graph_step_shape[OF gs], of a b]
    assms(3,4) by (cases "a = b") (auto simp: g_par_def)

lemma g_lev_self:
  assumes wf: "wf_graph g" and "step_node g a"
  shows "g_lev g a a = depth (tgraph_nodes g a)"
proof -
  obtain l where l: "lca_walk (tgraph_nodes g) a a = Inr l"
    "is_lca (tgraph_nodes g) (last_allocated_node g) a a l"
    using lca_walk_correct[OF wf_tree[OF wf]] assms(2) by blast
  then have "under (tgraph_nodes g) l a" "under (tgraph_nodes g) a l" by (auto simp: is_lca_def)
  then have "l = a" by (rule under_antisym)
  with l show ?thesis by (simp add: g_lev_def)
qed

lemma g_lev_grows:
  assumes wf: "wf_graph g" and gs: "graph_step g g'" and a: "step_node g a" and b: "step_node g b"
  shows "g_lev g' a b = g_lev g a b"
proof -
  note wf' = graph_step_wf[OF wf gs] and sh = graph_step_shape[OF gs]
  note a' = graph_step_step_node[OF gs a] and b' = graph_step_step_node[OF gs b]
  show ?thesis
  proof (cases "a = b")
    case True
    with g_lev_self[OF wf a] g_lev_self[OF wf' a'] a sh(1) show ?thesis
      by (simp add: same_shape_def node_def)
  next
    case False
    obtain l x y where f: "fork (tgraph_nodes g) (last_allocated_node g) a b l x y"
      using steps_fork[OF wf_tree[OF wf]] a b False by blast
    have f': "fork (tgraph_nodes g') (last_allocated_node g') a b l x y"
      using same_shape_fork[OF wf_tree[OF wf] sh _ _ f] a b by blast
    have "node (last_allocated_node g) l" using fork_facts(1)[OF wf_tree[OF wf] f] a b by blast
    then have "depth (tgraph_nodes g' l) = depth (tgraph_nodes g l)"
      using sh(1) by (simp add: same_shape_def node_def)
    then show ?thesis using fork_lev[OF wf _ _ f] fork_lev[OF wf' _ _ f'] a b a' b' by simp
  qed
qed

lemma g_hb_grows:
  assumes wf: "wf_graph g" and gs: "graph_step g g'" and a: "step_node g a" and b: "step_node g b"
  shows "g_hb g' a b = g_hb g a b"
proof (cases "a = b")
  case True
  then show ?thesis using hb_irrefl wf_tree[OF wf] wf_tree[OF graph_step_wf[OF wf gs]] a
      graph_step_step_node[OF gs a] by blast
next
  case False
  note wf' = graph_step_wf[OF wf gs]
  note a' = graph_step_step_node[OF gs a] and b' = graph_step_step_node[OF gs b]
  have keep: "g_lt g' c d" if cd: "step_node g c" "step_node g d" "g_lt g c d" for c d
  proof -
    obtain l x y where f: "fork (tgraph_nodes g) (last_allocated_node g) c d l x y"
      and s: "seq_num (tgraph_nodes g x) < seq_num (tgraph_nodes g y)"
      by (rule g_lt_fork[OF wf cd])
    have f': "fork (tgraph_nodes g') (last_allocated_node g') c d l x y"
      using same_shape_fork[OF wf_tree[OF wf] graph_step_shape[OF gs] _ _ f] cd by blast
    have "node (last_allocated_node g) x" "node (last_allocated_node g) y"
      using f by (auto simp: fork_def sibs_def node_def)
    then have "seq_num (tgraph_nodes g' x) < seq_num (tgraph_nodes g' y)"
      using s graph_step_shape(1)[OF gs] by (simp add: same_shape_def node_def)
    with f' show ?thesis by (auto simp: g_lt_def)
  qed
  have "g_lt g' a b \<longleftrightarrow> g_lt g a b"
    using keep[OF a b] keep[OF b a] g_lt_total[OF wf a b False] g_lt_three(1)[OF wf' a' b' a'] by blast
  then show ?thesis
    using g_hb_iff[OF wf a b False] g_hb_iff[OF wf' a' b' False] g_par_grows[OF wf gs a b] by simp
qed

lemma slots_of_cong:
  assumes "\<forall>a\<in>set rs. \<forall>b\<in>set rs. par' a b = par a b \<and> lev' a b = lev a b"
  shows "slots_of par' lev' rs = slots_of par lev rs"
  using assms
proof (induction rs rule: rev_induct)
  case (snoc s rs)
  then have e: "slots_of par' lev' rs = slots_of par lev rs" by simp
  obtain p q where pq: "slots_of par lev rs = (p, q)" by (cases "slots_of par lev rs")
  have "set_option p \<union> set_option q \<subseteq> set rs" using slots_of_sub[of par lev rs] pq by simp
  with snoc.prems have eq: "\<And>x. x \<in> set_option p \<union> set_option q \<Longrightarrow> par' s x = par s x \<and> lev' x s = lev x s"
    "\<And>x y. x \<in> set_option p \<Longrightarrow> y \<in> set_option q \<Longrightarrow> lev' x y = lev x y"
    by auto
  have "next_slots par' lev' s (p, q) = next_slots par lev s (p, q)"
    using eq by (cases p; cases q) (auto simp: next_slots_def)
  then show ?case by (simp add: slots_of_append e pq)
qed simp

lemma cell_rel_cong:
  assumes "cell_rel par lev hist c"
    and "\<forall>a\<in>(snd \<circ> snd) ` set hist. \<forall>b\<in>(snd \<circ> snd) ` set hist. par' a b = par a b \<and> lev' a b = lev a b"
  shows "cell_rel par' lev' hist c"
proof -
  have sub: "a \<in> (snd \<circ> snd) ` set hist" if "a \<in> set (steps_of hist m ty)" for a m ty
    using that by (force simp: steps_of_set)
  have "slots_of par' lev' (steps_of hist m ty) = slots_of par lev (steps_of hist m ty)" for m ty
  proof (rule slots_of_cong, intro ballI)
    fix a b
    assume "a \<in> set (steps_of hist m ty)" "b \<in> set (steps_of hist m ty)"
    from this[THEN sub] assms(2) show "par' a b = par a b \<and> lev' a b = lev a b" by blast
  qed
  then have "entry_for par' lev' hist = entry_for par lev hist" by (simp add: entry_for_def[abs_def])
  with assms(1) show ?thesis by (simp add: cell_rel_def cell_masks_def)
qed

lemma in_order_grows:
  assumes wf: "wf_graph g" and gs: "graph_step g g'" and ord: "in_order g hist"
  shows "in_order g' hist"
proof -
  from ord have st: "\<forall>a\<in>set hist. step_node g (snd (snd a))"
    and so: "sorted_wrt (\<lambda>a b. \<not> g_hb g (snd (snd b)) (snd (snd a))) hist"
    by (auto simp: in_order_def)
  have "sorted_wrt (\<lambda>a b. \<not> g_hb g' (snd (snd b)) (snd (snd a))) hist"
    by (rule sorted_wrt_mono_rel[OF _ so]) (use st g_hb_grows[OF wf gs] in blast)
  moreover have "\<forall>(m, ty, r)\<in>set hist. step_node g' r"
    using st graph_step_step_node[OF gs] by fastforce
  ultimately show ?thesis by (simp add: in_order_def)
qed

lemma in_order_step: "in_order g hist \<Longrightarrow> (m, ty, r) \<in> set hist \<Longrightarrow> step_node g r"
  by (auto simp: in_order_def)

lemma det_ok_grows:
  assumes ok: "det_ok d H" and gs: "graph_step (taskGraph d) g'"
  shows "det_ok (d\<lparr>taskGraph := g'\<rparr>) H"
proof -
  let ?g = "taskGraph d"
  from ok have wf: "wf_graph ?g" by (simp add: det_ok_def)
  have "cell_rel (g_par g') (g_lev g') (H (cell_key a)) (cell_at a d)" for a
  proof (rule cell_rel_cong)
    show "cell_rel (g_par ?g) (g_lev ?g) (H (cell_key a)) (cell_at a d)"
      using ok by (simp add: det_ok_def)
    have "step_node ?g r" if "r \<in> (snd \<circ> snd) ` set (H (cell_key a))" for r
    proof -
      from that obtain m ty where "(m, ty, r) \<in> set (H (cell_key a))" by auto
      moreover have "in_order ?g (H (cell_key a))" using ok by (simp add: det_ok_def)
      ultimately show ?thesis by (rule in_order_step[rotated])
    qed
    then show "\<forall>b\<in>(snd \<circ> snd) ` set (H (cell_key a)). \<forall>c\<in>(snd \<circ> snd) ` set (H (cell_key a)).
        g_par g' b c = g_par ?g b c \<and> g_lev g' b c = g_lev ?g b c"
      using g_par_grows[OF wf gs] g_lev_grows[OF wf gs] by blast
  qed
  then show ?thesis
    using ok graph_step_wf[OF wf gs] in_order_grows[OF wf gs] by (simp add: det_ok_def)
qed

section \<open>\<open>RecordAccess\<close>\<close>

lemma conflict_same [simp]:
  "query_step g g' \<Longrightarrow> conflict g' = conflict g"
  using query_step_same(1) by (simp add: conflict_def[abs_def])

text \<open>The lock set of an access, once its own locks are added and dropped.\<close>

definition access_mask :: "mask \<Rightarrow> addr list \<Rightarrow> addr list \<Rightarrow> lock_table \<Rightarrow> (mask \<times> lock_table) result" where
  "access_mask w acq rel lt = bind_r (acquire_all acq w lt) (\<lambda>(w1, t1). release_all rel w1 t1)"

lemma access_mask_Nil [simp]: "access_mask w [] [] lt = Inr (w, lt)"
  by (simp add: access_mask_def)

lemma RecordAccess_history:
  assumes run: "running t s (taskGraph d)" and t: "t < NUM_THREADS"
    and k: "hd (tidToTaskIdMap (taskGraph d) t) \<noteq> 0" and new: "all_violations d addr = None"
    and ls: "thd_lockset d t = ls # rest"
    and m: "access_mask (lockset ls) acq rel (lock_tab d) = Inr (w, lt)"
  shows "RecordAccess t addr acq rel ty junk d =
    access_history t addr w \<lparr>v_task = s, v_access = ty\<rparr> junk (d\<lparr>lock_tab := lt\<rparr>)"
proof -
  from run obtain k ks where ks: "tidToTaskIdMap (taskGraph d) t = k # ks" by (auto simp: running_def)
  have "exceptions t addr d = Inr False" using t ks k new ls by (simp add: exceptions_def)
  moreover from m obtain w1 t1 where "acquire_all acq (lockset ls) (lock_tab d) = Inr (w1, t1)"
    "release_all rel w1 t1 = Inr (w, lt)"
    by (auto simp: access_mask_def bind_r_Inr_iff)
  ultimately show ?thesis
    using running_step(2)[OF run] ls by (simp add: RecordAccess_def createLockset_def)
qed

text \<open>
  \<open>locks_ok\<close>: the masks of the histories, and those of the tasks on the threads' stacks, are
  made of bits that have been handed out, and each running task's mask stands for the locks
  it holds.
\<close>

definition locks_ok :: "detector \<Rightarrow> (nat \<times> nat \<Rightarrow> access list) \<Rightarrow> bool" where
  "locks_ok d H \<longleftrightarrow> table_wf (lock_tab d) \<and>
     (\<forall>key. \<forall>(m, ty, r)\<in>set (H key). mask_ok (lock_tab d) m) \<and>
     (\<forall>t. \<forall>ls\<in>set (thd_lockset d t). \<exists>h. holds (lock_tab d) ls h)"

lemma locks_ok_extends:
  assumes "locks_ok d H" and "table_wf t" and "extends (lock_tab d) t"
  shows "locks_ok (d\<lparr>lock_tab := t\<rparr>) H"
  using assms mask_ok_extends[OF _ assms(3)] holds_extends[OF _ assms(3)]
  unfolding locks_ok_def by fastforce

lemma locks_ok_cong:
  "locks_ok d H \<Longrightarrow> lock_tab d' = lock_tab d \<Longrightarrow> thd_lockset d' = thd_lockset d \<Longrightarrow> locks_ok d' H"
  by (simp add: locks_ok_def)

lemma locks_ok_mask: "locks_ok d H \<Longrightarrow> (m, ty, r) \<in> set (H key) \<Longrightarrow> mask_ok (lock_tab d) m"
  unfolding locks_ok_def by blast

lemma locks_ok_snoc:
  assumes "locks_ok d H" and "mask_ok (lock_tab d) w"
  shows "locks_ok d (H(key := H key @ [(w, ty, s)]))"
proof -
  have "\<forall>(m, ty, r)\<in>set ((H(key := H key @ [(w, ty, s)])) key'). mask_ok (lock_tab d) m" for key'
    using assms(2) locks_ok_mask[OF assms(1), of _ _ _ key'] by auto
  then show ?thesis using assms(1) by (simp add: locks_ok_def)
qed

lemma access_mask_locks:
  assumes wf: "table_wf t" and h: "holds t ls h" and m: "access_mask (lockset ls) acq rel t = Inr (w, lt)"
  shows "table_wf lt" "extends t lt" "mask_ok lt w" "locks_in lt w = set h \<union> set acq - set rel"
proof -
  from m obtain w1 t1 where a: "acquire_all acq (lockset ls) t = Inr (w1, t1)"
    and r: "release_all rel w1 t1 = Inr (w, lt)"
    by (auto simp: access_mask_def bind_r_Inr_iff)
  note A = acquire_all_locks[OF a wf holds_locks(2)[OF wf h]]
  then have R: "table_wf lt \<and> extends t1 lt \<and> mask_ok lt w \<and> locks_in lt w = locks_in lt w1 - set rel"
    using release_all_locks[OF r] by blast
  show "table_wf lt" "mask_ok lt w" using R by auto
  show e: "extends t lt" using A R extends_trans by blast
  have "locks_in lt w1 = set h \<union> set acq"
  proof -
    have lift: "locks_in lt v = locks_in t1 v" if v: "mask_ok t1 v" for v
    proof
      show "locks_in t1 v \<subseteq> locks_in lt v"
        using R extends_lookup[of t1 lt] by (auto simp: locks_in_def)
      show "locks_in lt v \<subseteq> locks_in t1 v"
      proof
        fix b
        assume "b \<in> locks_in lt v"
        then obtain i where i: "lockid_map lt b = Some i" "off_bits i \<subseteq> off_bits v"
          by (auto simp: locks_in_def)
        obtain n where n: "n < 64" "i = lock_bit n"
          using lock_id_bit i(1) R by (metis table_wf_def)
        with i v have "n < lock_ticker t1" by (auto simp: mask_ok_def)
        then obtain c where c: "lockid_map t1 c = Some i"
          using bit_lock A n by (metis table_wf_def)
        then have "lockid_map lt c = Some i" using R extends_lookup by blast
        then have "c = b" using same_lock[OF _ _ i(1)] R n by auto
        with c i(2) show "b \<in> locks_in t1 v" by (auto simp: locks_in_def)
      qed
    qed
    have "locks_in t1 (lockset ls) = set h"
      using holds_locks(1)[OF _ holds_extends[OF h]] A by blast
    with A lift show ?thesis by auto
  qed
  with R show "locks_in lt w = set h \<union> set acq - set rel" by simp
qed

lemma det_ok_locks [simp]: "det_ok (d\<lparr>lock_tab := lt\<rparr>) H = det_ok d H"
  by (simp add: det_ok_def)

lemma few_locks_mask: "mask_ok t w \<Longrightarrow> lock_ticker t < 64 \<Longrightarrow> w \<noteq> 0"
  by (auto simp: mask_ok_def zero_mask_iff)

lemma RecordAccess_checks:
  fixes d H addr t ty
  defines "g \<equiv> taskGraph d" and "hist \<equiv> H (cell_key addr)"
  assumes ok: "det_ok d H" "locks_ok d H" and run: "running t s g" and t: "t < NUM_THREADS"
    and k: "hd (tidToTaskIdMap g t) \<noteq> 0" and new: "all_violations d addr = None"
    and ls: "thd_lockset d t = ls # rest" and h: "holds (lock_tab d) ls h"
    and m: "access_mask (lockset ls) acq rel (lock_tab d) = Inr (w, lt)" and few: "lock_ticker lt < 64"
    and late: "comes_last g s hist" and junk: "no_pointers junk"
    and pg: "page_mapped d (primary_index addr)"
  defines "race \<equiv> (\<exists>(m, ty', r)\<in>set hist. locks_in lt m \<inter> (set h \<union> set acq - set rel) = {} \<and>
      (ty = WRITE \<or> ty' = WRITE) \<and> g_par g s r)"
  obtains d' where "RecordAccess t addr acq rel ty junk d = Inr d'"
    and "query_step g (taskGraph d')" and "thd_lockset d' = thd_lockset d" and "lock_tab d' = lt"
    and "page_mapped d' = page_mapped d"
    and "all_violations d' addr \<noteq> None \<longleftrightarrow> race"
    and "\<forall>a. a \<noteq> addr \<longrightarrow> all_violations d' a = all_violations d a"
    and "det_ok d' (if race then H else H(cell_key addr := hist @ [(w, ty, s)]))"
    and "locks_ok d' (if race then H else H(cell_key addr := hist @ [(w, ty, s)]))"
proof -
  let ?d = "d\<lparr>lock_tab := lt\<rparr>" and ?acc = "\<lparr>v_task = s, v_access = ty\<rparr>"
  have wf: "table_wf (lock_tab d)" using ok(2) by (simp add: locks_ok_def)
  note A = access_mask_locks[OF wf h m]
  have ok': "det_ok ?d H" "locks_ok ?d H" using ok A locks_ok_extends by auto
  have w: "w \<noteq> 0" by (rule few_locks_mask[OF A(3) few])
  have ra: "RecordAccess t addr acq rel ty junk d = access_history t addr w ?acc junk ?d"
    by (rule RecordAccess_history[OF run[unfolded g_def] t k[unfolded g_def] new ls m])
  have masks: "mask_ok lt m'" if "(m', ty', r) \<in> set hist" for m' ty' r
    using locks_ok_mask[OF ok'(2) that[unfolded hist_def]] by simp
  have "conflict g w ?acc (m', ty', r) \<longleftrightarrow> locks_in lt m' \<inter> (set h \<union> set acq - set rel) = {} \<and>
      (ty = WRITE \<or> ty' = WRITE) \<and> g_par g s r" if "(m', ty', r) \<in> set hist" for m' ty' r
    using disjoint_masks_locks[OF _ A(3) masks[OF that]] A(1,4)
    by (auto simp: conflict_def table_wf_def)
  then have race: "race \<longleftrightarrow> (\<exists>a\<in>set hist. conflict g w ?acc a)" unfolding race_def by fast
  obtain d' where d': "access_history t addr w ?acc junk ?d = Inr d'" "same_rest ?d d'"
    and yes: "(\<exists>a\<in>set hist. conflict g w ?acc a) \<Longrightarrow> det_ok d' H \<and>
      (\<exists>v m. all_violations d' = (all_violations ?d)(addr \<mapsto> v) \<and> a1 v = ?acc \<and>
        (m, v_access (a2 v), v_task (a2 v)) \<in> set hist \<and>
        conflict g w ?acc (m, v_access (a2 v), v_task (a2 v)))"
    and no: "\<not> (\<exists>a\<in>set hist. conflict g w ?acc a) \<Longrightarrow>
      det_ok d' (H(cell_key addr := hist @ [(w, ty, s)])) \<and> all_violations d' = all_violations ?d"
    using access_history_checks[of ?d H t s addr w junk ty] ok'(1) run late w junk pg new
    unfolding g_def hist_def by auto
  from d'(2) have rest: "query_step g (taskGraph d')" "thd_lockset d' = thd_lockset d" "lock_tab d' = lt"
    "page_mapped d' = page_mapped d"
    by (auto simp: same_rest_def g_def)
  have lo: "locks_ok d' H" by (rule locks_ok_cong[OF ok'(2)]) (simp_all add: rest)
  show thesis
  proof (rule that[OF _ rest])
    show "RecordAccess t addr acq rel ty junk d = Inr d'" using ra d'(1) by simp
    have vs: "(race \<longrightarrow> (\<exists>v. all_violations d' = (all_violations d)(addr \<mapsto> v))) \<and>
        (\<not> race \<longrightarrow> all_violations d' = all_violations d)"
      unfolding race using yes no by (cases "\<exists>a\<in>set hist. conflict g w ?acc a") auto
    then show "all_violations d' addr \<noteq> None \<longleftrightarrow> race" using new by (cases race) auto
    show "\<forall>a. a \<noteq> addr \<longrightarrow> all_violations d' a = all_violations d a"
      using vs by (cases race) auto
    show "det_ok d' (if race then H else H(cell_key addr := hist @ [(w, ty, s)]))"
      using yes no race by simp
    have "mask_ok (lock_tab d') w" using A(3) rest(3) by simp
    then show "locks_ok d' (if race then H else H(cell_key addr := hist @ [(w, ty, s)]))"
      using lo locks_ok_snoc unfolding hist_def by simp
  qed
qed

end
