(* ===== verification/Detector_Sound.thy ===== *)
theory Detector_Sound
  imports Detector_System
begin

text \<open>
  Soundness with no assumption on how the program spawns and waits. Whatever thread makes an
  access, in whatever state of its stacks, a violation that is recorded names two steps that
  may run in parallel, one of the two accesses being a write (\<open>viols_ok\<close>).
\<close>

definition genuine :: "AFTaskGraph \<Rightarrow> violation_data \<Rightarrow> violation \<Rightarrow> bool" where
  "genuine g acc v \<longleftrightarrow> a1 v = acc \<and> step_node g (v_task acc) \<and> step_node g (v_task (a2 v)) \<and>
     g_par g (v_task acc) (v_task (a2 v)) \<and> (v_access acc = WRITE \<or> v_access (a2 v) = WRITE)"

definition viols_ok :: "detector \<Rightarrow> bool" where
  "viols_ok d \<longleftrightarrow> (\<forall>addr v. all_violations d addr = Some v \<longrightarrow> genuine (taskGraph d) (a1 v) v)"

definition slots_valid :: "AFTaskGraph \<Rightarrow> Dr_Address_Data \<Rightarrow> bool" where
  "slots_valid g c \<longleftrightarrow> (\<forall>e\<in>set (f_entries c) \<union> set (listed c). \<forall>r\<in>slot_steps e. step_node g r)"

definition graph_sound :: "AFTaskGraph \<Rightarrow> bool" where
  "graph_sound g \<longleftrightarrow> wf_graph g \<and> g_tasks_ok g"

definition det_sound :: "detector \<Rightarrow> bool" where
  "det_sound d \<longleftrightarrow> graph_sound (taskGraph d) \<and> (\<forall>a. slots_valid (taskGraph d) (cell_at a d)) \<and> viols_ok d"

text \<open>The thread's scope has a step, its current one.\<close>

definition at_step :: "nat \<Rightarrow> AFTaskGraph \<Rightarrow> nat \<Rightarrow> bool" where
  "at_step t g s \<longleftrightarrow> getCurTask t g = Inr s \<and> s \<noteq> 0"

lemma query_step_sound:
  assumes "query_step g g'" and "graph_sound g"
  shows "graph_sound g'" "genuine g' = genuine g" "slots_valid g' = slots_valid g"
    "at_step t g' = at_step t g"
  using assms query_step_fields[OF assms(1)] query_step_same[OF assms(1)]
  by (simp_all add: at_step_def[abs_def] graph_sound_def genuine_def[abs_def] slots_valid_def[abs_def] getCurTask_def top_cur_def)

section \<open>Queries\<close>

lemma races_with_sound:
  assumes g: "graph_sound g" and s: "at_step t g s" and r: "step_node g r"
    and q: "races_with t r g = Inr (b, g')"
  shows "query_step g g'" and "b \<Longrightarrow> step_node g s \<and> g_par g s r"
proof -
  from g have wf: "wf_graph g" and k: "g_tasks_ok g" by (simp_all add: graph_sound_def)
  from s obtain c where top: "top_cur t g = Inr c" and sc: "s = cur_step (tgraph_nodes g c)"
    and "s \<noteq> 0" by (auto simp: at_step_def getCurTask_def bind_r_Inr_iff)
  from q obtain k' where ap: "areParallel k' r t g = Inr (b, g')"
    by (auto simp: races_with_def bind_r_Inr_iff)
  have "query_step g g' \<and> (b \<longrightarrow> step_node g s \<and> g_par g s r)"
  proof (cases "k' = taskId (tgraph_nodes g r) \<or> taskId (tgraph_nodes g c) = taskId (tgraph_nodes g r)")
    case True
    then have "areParallel k' r t g = Inr (False, g)"
      using top by (elim disjE) (simp_all add: areParallel_def)
    then show ?thesis using ap query_step_refl[OF wf] by simp
  next
    case False
    with ap top sc have p: "parallel s r g = Inr (b, g')" by (simp add: areParallel_def)
    have "live_scope g c" using wf top top_cur_live by (auto simp: wf_graph_def)
    then have "1 \<le> c" "c \<le> last_allocated_node g" by (auto simp: live_scope_def scope_def)
    then have st: "step_node g s" and sp: "parent (tgraph_nodes g s) = c" "2 \<le> s"
      using wf \<open>s \<noteq> 0\<close> sc by (auto simp: wf_graph_def core_ok_def step_ok_def node_def)
    have "taskId (tgraph_nodes g s) = taskId (tgraph_nodes g c)"
      using tasks_step[OF k sp(2)] st sp(1) by (simp add: node_def)
    then have ne: "s \<noteq> r" using False by auto
    obtain h where "parallel s r g = Inr (g_mhp g s r, h)" "query_step g h"
      using parallel_steps[OF wf st r ne] by blast
    with p st ne show ?thesis by (simp add: g_par_def)
  qed
  then show "query_step g g'" "b \<Longrightarrow> step_node g s \<and> g_par g s r" by auto
qed

text \<open>A check from graph \<open>g\<close> that ends well leaves the graph alone and finds genuine races only.\<close>

definition sound_check ::
    "violation_data \<Rightarrow> AFTaskGraph \<Rightarrow> (violation option \<times> AFTaskGraph) result \<Rightarrow> bool" where
  "sound_check acc g m \<longleftrightarrow> (\<forall>v g'. m = Inr (v, g') \<longrightarrow>
     query_step g g' \<and> (\<forall>w. v = Some w \<longrightarrow> genuine g acc w))"

lemma sound_checkD:
  "sound_check acc g m \<Longrightarrow> m = Inr (v, g') \<Longrightarrow> query_step g g' \<and> (\<forall>w. v = Some w \<longrightarrow> genuine g acc w)"
  by (simp add: sound_check_def)

lemma sound_check_none: "wf_graph g \<Longrightarrow> sound_check acc g (Inr (None, g))"
  using query_step_refl by (simp add: sound_check_def)

lemma check_slot_sound:
  assumes g: "graph_sound g" and s: "at_step t g (v_task acc)"
    and p: "\<forall>r\<in>set_option p. step_node g r" and w: "v_access acc = WRITE \<or> ty = WRITE"
  shows "sound_check acc g (check_slot t acc p ty g)"
proof (cases p)
  case None
  then show ?thesis using sound_check_none g by (simp add: check_slot_def graph_sound_def)
next
  case (Some r)
  then have r: "step_node g r" using p by simp
  show ?thesis
    unfolding sound_check_def
  proof (intro allI impI)
    fix v g'
    assume "check_slot t acc p ty g = Inr (v, g')"
    with Some obtain b where q: "races_with t r g = Inr (b, g')"
      and v: "v = (if b then Some \<lparr>a1 = acc, a2 = \<lparr>v_task = r, v_access = ty\<rparr>\<rparr> else None)"
      by (auto simp: check_slot_def bind_r_Inr_iff)
    from races_with_sound[OF g s r q] v r w
    show "query_step g g' \<and> (\<forall>w. v = Some w \<longrightarrow> genuine g acc w)" by (auto simp: genuine_def)
  qed
qed

lemma or_else_sound:
  assumes g: "graph_sound g" and "sound_check acc g m"
    and "\<And>g'. query_step g g' \<Longrightarrow> sound_check acc g' (f g')"
  shows "sound_check acc g (or_else m f)"
  unfolding sound_check_def
proof (intro allI impI)
  fix v g'
  assume o: "or_else m f = Inr (v, g')"
  then obtain v1 g1 where m: "m = Inr (v1, g1)"
    and rest: "(case v1 of None \<Rightarrow> f g1 | Some _ \<Rightarrow> Inr (v1, g1)) = Inr (v, g')"
    by (auto simp: or_else_def bind_r_Inr_iff)
  note M = sound_checkD[OF assms(2) m]
  show "query_step g g' \<and> (\<forall>w. v = Some w \<longrightarrow> genuine g acc w)"
  proof (cases v1)
    case None
    then have "f g1 = Inr (v, g')" using rest by simp
    from sound_checkD[OF assms(3) this] M query_step_sound(2)[OF _ g] query_step_trans
    show ?thesis by metis
  qed (use M rest in auto)
qed

lemma check_entry_sound:
  assumes g: "graph_sound g" and s: "at_step t g (v_task acc)"
    and e: "\<forall>r\<in>slot_steps e. step_node g r"
  shows "sound_check acc g (check_entry t acc e g)"
proof -
  have slot: "sound_check acc g' (check_slot t acc p ty g')"
    if q: "query_step g g'" and p: "set_option p \<subseteq> slot_steps e"
      and w: "v_access acc = WRITE \<or> ty = WRITE" for g' p ty
    by (rule check_slot_sound)
      (use query_step_sound(1)[OF q g] query_step_sound(4)[OF q g, of t] s query_step_same(4)[OF q] e p w in auto)
  have sub: "set_option (w1_task e) \<subseteq> slot_steps e" "set_option (w2_task e) \<subseteq> slot_steps e"
    "set_option (r1_task e) \<subseteq> slot_steps e" "set_option (r2_task e) \<subseteq> slot_steps e"
    by (auto simp: slot_steps_def)
  have gs: "graph_sound g'" if "query_step g g'" for g' by (rule query_step_sound(1)[OF that g])
  have refl: "query_step g g" using query_step_refl g by (simp add: graph_sound_def)
  show ?thesis
    unfolding check_entry_def
  proof (rule or_else_sound[OF g slot[OF refl sub(1)]])
    fix g1
    assume q1: "query_step g g1"
    show "sound_check acc g1 (or_else (check_slot t acc (w2_task e) WRITE g1) (\<lambda>g.
       if v_access acc = WRITE then or_else (check_slot t acc (r1_task e) READ g) (\<lambda>g.
           check_slot t acc (r2_task e) READ g) else Inr (None, g)))"
    proof (rule or_else_sound[OF gs[OF q1] slot[OF q1 sub(2)]])
      fix g2
      assume "query_step g1 g2"
      then have q2: "query_step g g2" by (rule query_step_trans[OF q1])
      show "sound_check acc g2 (if v_access acc = WRITE then
          or_else (check_slot t acc (r1_task e) READ g2) (\<lambda>g. check_slot t acc (r2_task e) READ g)
          else Inr (None, g2))"
        using slot[OF q2 sub(3)] slot[OF query_step_trans[OF q2] sub(4)] gs[OF q2]
          sound_check_none[of g2 acc]
        by (auto simp: graph_sound_def intro!: or_else_sound)
    qed simp
  qed simp
qed

section \<open>Scanning\<close>

lemma sound_check_if:
  assumes "graph_sound g" and "c \<Longrightarrow> sound_check acc g m"
  shows "sound_check acc g (if c then m else Inr (None, g))"
  using assms sound_check_none by (auto simp: graph_sound_def)

definition sound_scan ::
    "violation_data \<Rightarrow> AFTaskGraph \<Rightarrow> (violation option \<times> 'i \<times> AFTaskGraph) result \<Rightarrow> bool" where
  "sound_scan acc g m \<longleftrightarrow> (\<forall>v i g'. m = Inr (v, i, g') \<longrightarrow>
     query_step g g' \<and> (\<forall>w. v = Some w \<longrightarrow> genuine g acc w))"

lemma sound_scan_stop: "wf_graph g \<Longrightarrow> sound_scan acc g (Inr (None, i, g))"
  using query_step_refl by (simp add: sound_scan_def)

lemma sound_scan_next:
  assumes g: "graph_sound g" and m: "sound_check acc g m"
    and k: "\<And>g'. query_step g g' \<Longrightarrow> sound_scan acc g' (k g')"
  shows "sound_scan acc g (bind_r m (\<lambda>(v, g1). case v of Some _ \<Rightarrow> Inr (v, i, g1) | None \<Rightarrow> k g1))"
  unfolding sound_scan_def
proof (intro allI impI)
  fix v j g'
  assume "bind_r m (\<lambda>(v, g1). case v of Some _ \<Rightarrow> Inr (v, i, g1) | None \<Rightarrow> k g1) = Inr (v, j, g')"
  then obtain v1 g1 where m1: "m = Inr (v1, g1)"
    and r: "(case v1 of Some _ \<Rightarrow> Inr (v1, i, g1) | None \<Rightarrow> k g1) = Inr (v, j, g')"
    by (auto simp: bind_r_Inr_iff)
  note M = sound_checkD[OF m m1]
  show "query_step g g' \<and> (\<forall>w. v = Some w \<longrightarrow> genuine g acc w)"
  proof (cases v1)
    case None
    then have "k g1 = Inr (v, j, g')" using r by simp
    with k[of g1] M have "query_step g1 g' \<and> (\<forall>w. v = Some w \<longrightarrow> genuine g1 acc w)"
      by (auto simp: sound_scan_def)
    then show ?thesis using M query_step_sound(2)[OF _ g] query_step_trans by metis
  qed (use M r in auto)
qed

lemma scan_sound:
  assumes "graph_sound g" and "at_step t g (v_task acc)"
    and "\<forall>e\<in>set es. \<forall>r\<in>slot_steps e. step_node g r"
  shows scan_fixed_sound: "sound_scan acc g (scan_fixed t acc w i es ins g)"
    and scan_list_sound: "sound_scan acc g (scan_list t acc w i es ins g)"
proof -
  have step: "graph_sound g' \<and> at_step t g' (v_task acc) \<and>
      (\<forall>e\<in>set es. \<forall>r\<in>slot_steps e. step_node g' r)"
    if "query_step g g'" "graph_sound g" "at_step t g (v_task acc)"
      "\<forall>e\<in>set es. \<forall>r\<in>slot_steps e. step_node g r" for g g' es
    using that query_step_sound(1)[OF that(1,2)] query_step_sound(4)[OF that(1,2), of t]
      query_step_same(4)[OF that(1)] by auto
  have wf: "wf_graph g" if "graph_sound g" for g using that by (simp add: graph_sound_def)
  show "sound_scan acc g (scan_fixed t acc w i es ins g)"
    using assms
  proof (induction es arbitrary: i ins g)
    case Nil
    then show ?case using sound_scan_stop[OF wf[OF Nil(1)]] by simp
  next
    case (Cons e es)
    have st: "\<forall>e\<in>set es. \<forall>r\<in>slot_steps e. step_node g r" using Cons.prems(3) by simp
    show ?case
      using sound_scan_next[OF Cons.prems(1) sound_check_if[OF Cons.prems(1) check_entry_sound[OF Cons.prems(1,2)]]
          Cons.IH] Cons.prems(3) step[OF _ Cons.prems(1,2) st]
      by (simp add: sound_scan_stop[OF wf[OF Cons.prems(1)]])
  qed
  show "sound_scan acc g (scan_list t acc w i es ins g)"
    using assms
  proof (induction es arbitrary: i ins g)
    case Nil
    then show ?case using sound_scan_stop[OF wf[OF Nil(1)]] by simp
  next
    case (Cons e es)
    have st: "\<forall>e\<in>set es. \<forall>r\<in>slot_steps e. step_node g r" using Cons.prems(3) by simp
    show ?case
      using sound_scan_next[OF Cons.prems(1) sound_check_if[OF Cons.prems(1) check_entry_sound[OF Cons.prems(1,2)]]
          Cons.IH] Cons.prems(3) step[OF _ Cons.prems(1,2) st]
      by simp
  qed
qed

section \<open>Inserting\<close>

lemma par_flag_sound:
  assumes "graph_sound g" and "at_step t g s" and "\<forall>r\<in>set_option p. step_node g r"
    and "par_flag t p g = Inr (b, g')"
  shows "query_step g g'"
  using assms races_with_sound(1) query_step_refl
  by (cases p) (auto simp: par_flag_def graph_sound_def)

lemma update_slots_sound:
  assumes g: "graph_sound g" and s: "at_step t g s"
    and st: "\<forall>r\<in>set_option p \<union> set_option q. step_node g r"
    and u: "update_slots t s (p, q) g = Inr ((p', q'), g')"
  shows "query_step g g'" and "set_option p' \<union> set_option q' \<subseteq> {s} \<union> set_option p \<union> set_option q"
proof -
  from u obtain b1 g1 b2 where f1: "par_flag t p g = Inr (b1, g1)" and f2: "par_flag t q g1 = Inr (b2, g')"
    by (auto simp: update_slots_def bind_r_Inr_iff split: if_splits)
  have q1: "query_step g g1" by (rule par_flag_sound[OF g s _ f1]) (use st in auto)
  have "query_step g1 g'"
    by (rule par_flag_sound[OF query_step_sound(1)[OF q1 g] _ _ f2])
      (use query_step_sound(4)[OF q1 g, of t] s st query_step_same(4)[OF q1] in auto)
  with q1 show "query_step g g'" by (rule query_step_trans)
  show "set_option p' \<union> set_option q' \<subseteq> {s} \<union> set_option p \<union> set_option q"
    using u f1 f2 by (auto simp: update_slots_def bind_r_Inr_iff split: if_splits)
qed

lemma at_step_node:
  assumes g: "graph_sound g" and s: "at_step t g s"
  shows "step_node g s"
proof -
  from g have wf: "wf_graph g" by (simp add: graph_sound_def)
  from s obtain c where top: "top_cur t g = Inr c" and sc: "s = cur_step (tgraph_nodes g c)"
    and "s \<noteq> 0" by (auto simp: at_step_def getCurTask_def bind_r_Inr_iff)
  have "live_scope g c" using wf top top_cur_live by (auto simp: wf_graph_def)
  then have "1 \<le> c" "c \<le> last_allocated_node g" by (auto simp: live_scope_def scope_def)
  then show ?thesis
    using wf sc \<open>s \<noteq> 0\<close> by (auto simp: wf_graph_def core_ok_def step_ok_def node_def)
qed

lemma update_entry_sound:
  assumes g: "graph_sound g" and s: "at_step t g (v_task acc)"
    and st: "\<forall>r\<in>slot_steps e. step_node g r" and u: "update_entry t acc e g = Inr (e', g')"
  shows "query_step g g'" and "\<forall>r\<in>slot_steps e'. step_node g r"
proof -
  have w: "\<forall>r\<in>set_option (w1_task e) \<union> set_option (w2_task e). step_node g r"
    and r: "\<forall>r\<in>set_option (r1_task e) \<union> set_option (r2_task e). step_node g r"
    using st by (auto simp: slot_steps_def)
  have "query_step g g' \<and> (\<forall>r\<in>slot_steps e'. step_node g r)"
  proof (cases "v_access acc = WRITE")
    case True
    with u obtain p q where us: "update_slots t (v_task acc) (w1_task e, w2_task e) g = Inr ((p, q), g')"
      and e': "e' = e\<lparr>w1_task := p, w2_task := q\<rparr>"
      by (auto simp: update_entry_def bind_r_Inr_iff)
    from update_slots_sound[OF g s w us] at_step_node[OF g s] w r show ?thesis
      unfolding e' slot_steps_def by simp blast
  next
    case False
    with u obtain p q where us: "update_slots t (v_task acc) (r1_task e, r2_task e) g = Inr ((p, q), g')"
      and e': "e' = e\<lparr>r1_task := p, r2_task := q\<rparr>"
      by (auto simp: update_entry_def bind_r_Inr_iff)
    from update_slots_sound[OF g s r us] at_step_node[OF g s] w r show ?thesis
      unfolding e' slot_steps_def by simp blast
  qed
  then show "query_step g g'" "\<forall>r\<in>slot_steps e'. step_node g r" by auto
qed

lemma first_access_sound:
  assumes "graph_sound g" "at_step t g (v_task acc)" "\<forall>r\<in>slot_steps e. step_node g r"
  shows "\<forall>r\<in>slot_steps (first_access acc w e). step_node g r"
  using assms(3) at_step_node[OF assms(1,2)]
  by (auto simp: first_access_def Let_def slot_steps_def split: if_splits)

lemma in_list_update: "x \<in> set (xs[i := y]) \<Longrightarrow> x = y \<or> x \<in> set xs"
  using set_update_subset_insert by fastforce

lemma scan_fixed_index:
  "scan_fixed t acc w i es ins g = Inr (v, Some j, g') \<Longrightarrow> (\<forall>k. ins = Some k \<longrightarrow> k < i + length es) \<Longrightarrow>
    j < i + length es"
proof (induction es arbitrary: i ins g)
  case (Cons e es)
  show ?case
  proof (cases "ins = None \<and> a_lockset e = 0")
    case True
    with Cons.prems show ?thesis by simp
  next
    case False
    with Cons.prems(1) obtain v1 g1 where r: "(case v1 of Some _ \<Rightarrow> Inr (v1, ins, g1)
        | None \<Rightarrow> scan_fixed t acc w (Suc i) es
            (if a_lockset e \<noteq> 0 \<and> w = a_lockset e then Some i else ins) g1) = Inr (v, Some j, g')"
      by (auto simp: bind_r_Inr_iff simp del: not_None_eq)
    show ?thesis
    proof (cases v1)
      case None
      from Cons.IH[OF r[unfolded None option.case]] Cons.prems(2) show ?thesis
        by (auto split: if_splits)
    next
      case (Some x)
      with r Cons.prems(2) show ?thesis by simp
    qed
  qed
qed simp

lemma slots_valid_upd:
  assumes "slots_valid g c" and "\<forall>r\<in>slot_steps e. step_node g r"
  shows "slots_valid g (c\<lparr>f_entries := (f_entries c)[i := e]\<rparr>)"
    and "slots_valid g (c\<lparr>access_list := Some ((listed c)[i := e])\<rparr>)"
    and "slots_valid g (c\<lparr>access_list := Some (listed c @ [e])\<rparr>)"
  using assms by (auto simp: slots_valid_def listed_def dest!: in_list_update)

lemma insert_access_sound:
  assumes g: "graph_sound g" and s: "at_step t g (v_task acc)" and c: "slots_valid g c"
    and junk: "\<forall>r\<in>slot_steps junk. step_node g r"
    and fi: "\<And>i. fi = Some i \<Longrightarrow> i < length (f_entries c)"
    and ins: "insert_access t acc w junk fi li c g = Inr (c', g')"
  shows "query_step g g'" and "slots_valid g c'"
proof -
  from g have wf: "wf_graph g" by (simp add: graph_sound_def)
  note fresh = first_access_sound[OF g s] and upd = update_entry_sound[OF g s]
  have "query_step g g' \<and> slots_valid g c'"
  proof (cases fi)
    case (Some i)
    have e: "\<forall>r\<in>slot_steps (f_entries c ! i). step_node g r"
      using c fi[OF Some] by (auto simp: slots_valid_def)
    show ?thesis
    proof (cases "a_lockset (f_entries c ! i) = 0")
      case True
      then show ?thesis using ins Some query_step_refl[OF wf] slots_valid_upd(1)[OF c fresh[OF e]]
        by (auto simp: insert_access_def Let_def)
    next
      case False
      with ins Some obtain e' where "update_entry t acc (f_entries c ! i) g = Inr (e', g')"
        and "c' = c\<lparr>f_entries := (f_entries c)[i := e']\<rparr>"
        by (auto simp: insert_access_def Let_def bind_r_Inr_iff)
      then show ?thesis using upd[OF e] slots_valid_upd(1)[OF c] by blast
    qed
  next
    case None
    note ins' = ins[unfolded insert_access_def None option.case, folded listed_def, unfolded Let_def]
    show ?thesis
    proof (cases li)
      case None
      then show ?thesis using ins' query_step_refl[OF wf] slots_valid_upd(3)[OF c fresh[OF junk]] by auto
    next
      case (Some j)
      with ins' obtain e' where j: "j < length (listed c)"
        and u: "update_entry t acc (listed c ! j) g = Inr (e', g')"
        and c': "c' = c\<lparr>access_list := Some ((listed c)[j := e'])\<rparr>"
        by (auto simp: assert_r_Inr_iff bind_r_Inr_iff)
      have "\<forall>r\<in>slot_steps (listed c ! j). step_node g r" using c j by (auto simp: slots_valid_def)
      from upd[OF this u] slots_valid_upd(2)[OF c] c' show ?thesis by blast
    qed
  qed
  then show "query_step g g'" "slots_valid g c'" by auto
qed

section \<open>A whole access\<close>

lemma viols_ok_report:
  assumes "viols_ok d" and "taskGraph d1 = g" and "genuine g acc v"
    and "\<And>w. genuine g (a1 w) w = genuine (taskGraph d) (a1 w) w"
    and "all_violations d1 = map_insert (all_violations d) addr v"
  shows "viols_ok d1"
  unfolding viols_ok_def
proof (intro allI impI)
  fix a w
  assume w: "all_violations d1 a = Some w"
  have "genuine g (a1 v) v" using assms(3) by (simp add: genuine_def)
  with w assms(1,4,5) show "genuine (taskGraph d1) (a1 w) w"
    unfolding assms(2) by (auto simp: viols_ok_def split: if_splits)
qed

lemma open_page_InrD:
  assumes "open_page addr d = Inr (page, d1)"
  shows "page (cell_offset addr) = cell_at addr d" "\<forall>a. cell_at a d1 = cell_at a d"
    "shadow_space d1 (primary_index addr) = Some page" "\<exists>ss. d1 = d\<lparr>shadow_space := ss\<rparr>"
proof -
  have "page_mapped d (primary_index addr) \<or> shadow_space d (primary_index addr) \<noteq> None"
    using assms by (auto simp: open_page_def assert_r_Inr_iff split: option.splits)
  then show "page (cell_offset addr) = cell_at addr d" "\<forall>a. cell_at a d1 = cell_at a d"
    "shadow_space d1 (primary_index addr) = Some page" "\<exists>ss. d1 = d\<lparr>shadow_space := ss\<rparr>"
  proof (atomize (full), elim disjE, goal_cases)
    case 1
    then obtain page' d1' where "open_page addr d = Inr (page', d1')"
      "page' (cell_offset addr) = cell_at addr d" "\<forall>a. cell_at a d1' = cell_at a d"
      "shadow_space d1' (primary_index addr) = Some page'" "\<exists>ss. d1' = d\<lparr>shadow_space := ss\<rparr>"
      by (rule open_page_cell)
    with assms show ?case by simp
  next
    case 2
    then obtain page' where e: "shadow_space d (primary_index addr) = Some page'" by blast
    with assms have "page = page'" "d1 = d" by (simp_all add: open_page_def)
    moreover have "\<exists>ss. d = d\<lparr>shadow_space := ss\<rparr>" by (rule exI[of _ "shadow_space d"]) simp
    ultimately show ?case using e by (simp add: cell_at_def)
  qed
qed

lemma access_history_sound:
  assumes d: "det_sound d" and s: "at_step t (taskGraph d) (v_task acc)"
    and junk: "\<forall>r\<in>slot_steps junk. step_node (taskGraph d) r"
    and a: "access_history t addr w acc junk d = Inr d'"
  shows "det_sound d'" and "query_step (taskGraph d) (taskGraph d')"
proof -
  let ?g = "taskGraph d" and ?c = "cell_at addr d"
  from d have g: "graph_sound ?g" and cells: "\<And>a. slots_valid ?g (cell_at a d)" and vs: "viols_ok d"
    by (auto simp: det_sound_def)
  from a obtain page d1 where op: "open_page addr d = Inr (page, d1)"
    by (auto simp: access_history_def bind_r_Inr_iff)
  note P = open_page_InrD[OF op]
  from P(4) have F: "taskGraph d1 = ?g" "all_violations d1 = all_violations d" by auto
  have es: "\<forall>e\<in>set (f_entries ?c). \<forall>r\<in>slot_steps e. step_node ?g r"
    "\<forall>e\<in>set (listed ?c). \<forall>r\<in>slot_steps e. step_node ?g r"
    using cells[of addr] by (auto simp: slots_valid_def)
  from a have "bind_r (scan_fixed t acc w 0 (f_entries ?c) None ?g) (\<lambda>(v1, fi, g1). case v1 of
         Some race \<Rightarrow> Inr (report_race addr race g1 d1)
       | None \<Rightarrow> bind_r (scan_list t acc w 0 (listed ?c) None g1) (\<lambda>(v, li, g2).
           case v of
             Some race \<Rightarrow> Inr (report_race addr race g2 d1)
           | None \<Rightarrow> bind_r (insert_access t acc w junk fi li ?c g2) (\<lambda>(c', g3).
                 Inr (store_cell addr c' (d1\<lparr>taskGraph := g3\<rparr>))))) = Inr d'"
    by (simp only: access_history_def op bind_r_simps prod.case Let_def P(1) F(1) listed_def)
  then obtain v1 fi g1 where s1: "scan_fixed t acc w 0 (f_entries ?c) None ?g = Inr (v1, fi, g1)"
    and r1: "(case v1 of Some race \<Rightarrow> Inr (report_race addr race g1 d1)
       | None \<Rightarrow> bind_r (scan_list t acc w 0 (listed ?c) None g1) (\<lambda>(v, li, g2).
           case v of
             Some race \<Rightarrow> Inr (report_race addr race g2 d1)
           | None \<Rightarrow> bind_r (insert_access t acc w junk fi li ?c g2) (\<lambda>(c', g3).
                 Inr (store_cell addr c' (d1\<lparr>taskGraph := g3\<rparr>))))) = Inr d'"
    by (elim bind_r_InrE) (simp only: split_paired_all prod.case)
  from scan_fixed_sound[OF g s es(1), of w 0 None] s1
  have S1: "query_step ?g g1" "\<And>w. v1 = Some w \<Longrightarrow> genuine ?g acc w" by (auto simp: sound_scan_def)
  note G1 = query_step_sound[OF S1(1) g]
  have report: "det_sound (report_race addr v h d1) \<and> query_step ?g (taskGraph (report_race addr v h d1))"
    if q: "query_step ?g h" and v: "genuine ?g acc v" for v h
  proof -
    note Q = query_step_sound[OF q g]
    have "viols_ok (report_race addr v h d1)"
      by (rule viols_ok_report[OF vs, of _ h acc v addr])
        (use v Q(2) in \<open>simp_all add: report_race_def F\<close>)
    then show ?thesis
      using Q q P cells by (simp add: det_sound_def report_race_def)
  qed
  have "det_sound d' \<and> query_step ?g (taskGraph d')"
  proof (cases v1)
    case (Some v)
    then show ?thesis using r1 report[OF S1] by auto
  next
    case None
    with r1 obtain v2 li g2 where s2: "scan_list t acc w 0 (listed ?c) None g1 = Inr (v2, li, g2)"
      and r2: "(case v2 of
             Some race \<Rightarrow> Inr (report_race addr race g2 d1)
           | None \<Rightarrow> bind_r (insert_access t acc w junk fi li ?c g2) (\<lambda>(c', g3).
                 Inr (store_cell addr c' (d1\<lparr>taskGraph := g3\<rparr>)))) = Inr d'"
      by (auto simp: bind_r_Inr_iff)
    have es2: "\<forall>e\<in>set (listed ?c). \<forall>r\<in>slot_steps e. step_node g1 r"
      using es(2) query_step_same(4)[OF S1(1)] by simp
    have s': "at_step t g1 (v_task acc)" using G1(4)[of t] s by simp
    from scan_list_sound[OF G1(1) s' es2, of w 0 None] s2
    have "query_step g1 g2" "\<And>w. v2 = Some w \<Longrightarrow> genuine ?g acc w"
      using G1(2) by (auto simp: sound_scan_def)
    note S2 = query_step_trans[OF S1(1) this(1)] this(2)
    note G2 = query_step_sound[OF S2(1) g]
    show ?thesis
    proof (cases v2)
      case (Some v)
      then show ?thesis using r2 report[OF S2] by auto
    next
      case None
      with r2 obtain c' g3 where ins: "insert_access t acc w junk fi li ?c g2 = Inr (c', g3)"
        and d': "d' = store_cell addr c' (d1\<lparr>taskGraph := g3\<rparr>)" by (auto simp: bind_r_Inr_iff)
      have s2': "at_step t g2 (v_task acc)" using G2(4)[of t] s by simp
      have junk2: "\<forall>r\<in>slot_steps junk. step_node g2 r" using junk query_step_same(4)[OF S2(1)] by simp
      have c2: "slots_valid g2 ?c" using G2(3) cells by simp
      have fi: "i < length (f_entries ?c)" if "fi = Some i" for i
        using scan_fixed_index[of t acc w 0 "f_entries ?c" None ?g v1 i g1] s1 that by simp
      note I = insert_access_sound[OF G2(1) s2' c2 junk2 fi ins]
      note q3 = query_step_trans[OF S2(1) I(1)] and G3 = query_step_sound[OF query_step_trans[OF S2(1) I(1)] g]
      have cell: "cell_at a d' = (if cell_key a = cell_key addr then c' else cell_at a d)" for a
        using cell_at_store[of "d1\<lparr>taskGraph := g3\<rparr>" addr page a c'] P by (simp add: d')
      have "viols_ok d'" using vs G3(2) by (simp add: viols_ok_def d' F)
      moreover have "slots_valid ?g c'" using I(2) G2(3) by simp
      ultimately show ?thesis using q3 G3 cell cells by (simp add: det_sound_def d')
    qed
  qed
  then show "det_sound d'" "query_step ?g (taskGraph d')" by auto
qed

lemma det_sound_locks [simp]: "det_sound (d\<lparr>lock_tab := lt\<rparr>) = det_sound d"
  "det_sound (d\<lparr>thd_lockset := ls\<rparr>) = det_sound d"
  by (simp_all add: det_sound_def viols_ok_def)

lemma RecordAccess_sound:
  assumes "det_sound d" and "no_pointers junk" and "RecordAccess t addr acq rel ty junk d = Inr d'"
    and "getCurTask t (taskGraph d) \<noteq> Inr 0"
  shows "det_sound d'" and "query_step (taskGraph d) (taskGraph d')"
proof -
  from assms(1) have g: "graph_sound (taskGraph d)" by (simp add: det_sound_def)
  have refl: "query_step (taskGraph d) (taskGraph d)"
    using g query_step_refl by (simp add: graph_sound_def)
  from assms(3) obtain skip where "exceptions t addr d = Inr skip"
    and r: "(if skip then Inr d
       else bind_r (stack_top (thd_lockset d t)) (\<lambda>ls.
         bind_r (acquire_all acq (createLockset ls) (lock_tab d)) (\<lambda>(w, t1).
         bind_r (release_all rel w t1) (\<lambda>(curLockset, t2).
         bind_r (getCurTask t (taskGraph d)) (\<lambda>curStepNode.
           access_history t addr curLockset
             \<lparr>v_task = curStepNode, v_access = ty\<rparr> junk (d\<lparr>lock_tab := t2\<rparr>)))))) = Inr d'"
    by (auto simp: RecordAccess_def bind_r_Inr_iff)
  have "det_sound d' \<and> query_step (taskGraph d) (taskGraph d')"
  proof (cases skip)
    case True
    then show ?thesis using r assms(1) refl by simp
  next
    case False
    with r obtain w lt s where "getCurTask t (taskGraph d) = Inr s"
      and a: "access_history t addr w \<lparr>v_task = s, v_access = ty\<rparr> junk (d\<lparr>lock_tab := lt\<rparr>) = Inr d'"
      by (auto simp: bind_r_Inr_iff)
    with assms(4) have s: "at_step t (taskGraph d) s" by (auto simp: at_step_def)
    from assms(2) have "slot_steps junk = {}" by (simp add: no_pointers_def slot_steps_def)
    then show ?thesis
      using access_history_sound[of "d\<lparr>lock_tab := lt\<rparr>" t "\<lparr>v_task = s, v_access = ty\<rparr>" junk addr w d']
        assms(1) s a by simp
  qed
  then show "det_sound d'" "query_step (taskGraph d) (taskGraph d')" by auto
qed

section \<open>Growth\<close>

lemma det_sound_grows:
  assumes d: "det_sound d" and gs: "graph_step (taskGraph d) g'" and k: "g_tasks_ok g'"
  shows "det_sound (d\<lparr>taskGraph := g'\<rparr>)"
proof -
  from d have wf: "wf_graph (taskGraph d)" by (simp add: det_sound_def graph_sound_def)
  have "slots_valid g' c" if "slots_valid (taskGraph d) c" for c
    using that graph_step_step_node[OF gs] by (auto simp: slots_valid_def)
  moreover have "genuine g' acc v" if "genuine (taskGraph d) acc v" for acc v
    using that graph_step_step_node[OF gs] g_par_grows[OF wf gs] by (auto simp: genuine_def)
  ultimately show ?thesis
    using d k graph_step_wf[OF wf gs] by (simp add: det_sound_def graph_sound_def viols_ok_def)
qed

end
