(* ===== verification/Runtime.thy ===== *)
theory Runtime
  imports Detector_Sound
begin

text \<open>
  The runtime library as the program drives it (\<open>exec_calls.h\<close>, \<open>exec_calls.cpp\<close>,
  \<open>t_debug_task.h\<close>): thread numbers, task numbers, and the calls that the modified TBB and
  the instrumented code make. What TBB does inside \<open>task::spawn\<close> and its relatives is not
  under \<open>tdebug-lib\<close>; it is the argument \<open>tbb\<close> of the wrappers, and it reaches the
  library again only through the calls of \<open>do_call\<close>.
\<close>

record runtime =
  det :: detector
  task_id_ctr :: nat
  tid_ctr :: nat
  tid_map :: "nat \<rightharpoonup> nat"

definition get_cur_tid :: "nat \<Rightarrow> runtime \<Rightarrow> (nat \<times> runtime) result" where
  "get_cur_tid pthd_id r =
     (if tid_map r pthd_id = None then
        let my_tid = tid_ctr r in
        Inr (my_tid, r\<lparr>tid_ctr := tid_ctr r + 1, tid_map := map_insert (tid_map r) pthd_id my_tid\<rparr>)
      else bind_r (map_at (tid_map r) pthd_id) (\<lambda>my_tid. Inr (my_tid, r)))"

text \<open>A method of \<open>taskGraph\<close>, and an operation of \<open>DR_Detector.cpp\<close>, on the calling thread.\<close>

definition on_graph ::
    "(nat \<Rightarrow> AFTaskGraph \<Rightarrow> AFTaskGraph result) \<Rightarrow> nat \<Rightarrow> runtime \<Rightarrow> runtime result" where
  "on_graph f pthd r =
     bind_r (get_cur_tid pthd r) (\<lambda>(t, r1).
     bind_r (f t (taskGraph (det r1))) (\<lambda>g.
       Inr (r1\<lparr>det := (det r1)\<lparr>taskGraph := g\<rparr>\<rparr>)))"

definition on_detector ::
    "(nat \<Rightarrow> detector \<Rightarrow> detector result) \<Rightarrow> nat \<Rightarrow> runtime \<Rightarrow> runtime result" where
  "on_detector f pthd r =
     bind_r (get_cur_tid pthd r) (\<lambda>(t, r1).
     bind_r (f t (det r1)) (\<lambda>d. Inr (r1\<lparr>det := d\<rparr>)))"

definition exec_begin :: "nat \<Rightarrow> nat \<Rightarrow> runtime \<Rightarrow> runtime result" where
  "exec_begin pthd k r =
     bind_r (on_graph (\<lambda>t. CaptureExecute t k) pthd r) (\<lambda>r1. on_detector DR_CaptureExecute pthd r1)"

definition exec_end :: "nat \<Rightarrow> nat \<Rightarrow> runtime \<Rightarrow> runtime result" where
  "exec_end pthd k r =
     bind_r (on_graph CaptureReturn pthd r) (\<lambda>r1. on_detector DR_CaptureReturn pthd r1)"

text \<open>\<open>setTaskId(++task_id_ctr, _)\<close> and \<open>CaptureSetTaskId\<close>, with which every wrapper starts.\<close>

definition set_task_id :: "nat \<Rightarrow> int \<Rightarrow> runtime \<Rightarrow> runtime result" where
  "set_task_id pthd sp_only r =
     (let k = task_id_ctr r + 1; r1 = r\<lparr>task_id_ctr := k\<rparr> in
      on_graph (\<lambda>t. CaptureSetTaskId t k sp_only) pthd r1)"

definition t_spawn :: "(runtime \<Rightarrow> runtime result) \<Rightarrow> nat \<Rightarrow> runtime \<Rightarrow> runtime result" where
  "t_spawn tbb pthd r = bind_r (set_task_id pthd 1 r) tbb"

definition t_spawn_root_and_wait :: "(runtime \<Rightarrow> runtime result) \<Rightarrow> nat \<Rightarrow> runtime \<Rightarrow> runtime result" where
  "t_spawn_root_and_wait tbb pthd r = bind_r (set_task_id pthd 0 r) tbb"

definition t_spawn_and_wait_for_all :: "(runtime \<Rightarrow> runtime result) \<Rightarrow> nat \<Rightarrow> runtime \<Rightarrow> runtime result" where
  "t_spawn_and_wait_for_all tbb pthd r =
     bind_r (set_task_id pthd 1 r) (\<lambda>r1. bind_r (tbb r1) (\<lambda>r2. on_graph CaptureWaitOnly pthd r2))"

definition t_wait_for_all :: "(runtime \<Rightarrow> runtime result) \<Rightarrow> nat \<Rightarrow> runtime \<Rightarrow> runtime result" where
  "t_wait_for_all tbb pthd r = bind_r (tbb r) (\<lambda>r1. on_graph CaptureWaitOnly pthd r1)"

section \<open>Runs\<close>

datatype call =
    Begin nat nat
  | End nat nat
  | Spawn nat
  | SpawnRoot nat
  | Wait nat
  | LockAcq nat addr
  | LockRel nat addr
  | Access nat addr "addr list" "addr list" AccessType Address_data

fun do_call :: "call \<Rightarrow> runtime \<Rightarrow> runtime result" where
  "do_call (Begin p k) r = exec_begin p k r"
| "do_call (End p k) r = exec_end p k r"
| "do_call (Spawn p) r = set_task_id p 1 r"
| "do_call (SpawnRoot p) r = set_task_id p 0 r"
| "do_call (Wait p) r = on_graph CaptureWaitOnly p r"
| "do_call (LockAcq p l) r = on_detector (\<lambda>t. CaptureLockAcquire t l) p r"
| "do_call (LockRel p l) r = on_detector (\<lambda>t. CaptureLockRelease t l) p r"
| "do_call (Access p a acq rel ty junk) r = on_detector (\<lambda>t. RecordAccess t a acq rel ty junk) p r"

fun run :: "call list \<Rightarrow> runtime \<Rightarrow> runtime result" where
  "run [] r = Inr r"
| "run (c # cs) r = bind_r (do_call c r) (run cs)"

definition start :: "detector \<Rightarrow> runtime" where
  "start d = \<lparr>det = d, task_id_ctr = 0, tid_ctr = 0, tid_map = Map.empty\<rparr>"

text \<open>
  The states the library can reach: \<open>TD_Activate\<close>, then any calls in any order from any
  threads, as long as none of them faults. Two kinds of access are left out: one that finds a
  garbage pointer in its stack slot (\<open>no_pointers\<close>), and one made in a scope without a step,
  which is the root scope after a task has waited more often than it has spawned.
\<close>

definition in_step :: "nat \<Rightarrow> runtime \<Rightarrow> bool" where
  "in_step pthd r =
     (case get_cur_tid pthd r of
        Inl e \<Rightarrow> True
      | Inr (t, r1) \<Rightarrow> getCurTask t (taskGraph (det r)) \<noteq> Inr 0)"

fun clean_call :: "runtime \<Rightarrow> call \<Rightarrow> bool" where
  "clean_call r (Access p a acq rel ty junk) = (no_pointers junk \<and> in_step p r)"
| "clean_call r _ = True"

inductive reachable :: "runtime \<Rightarrow> bool" where
  init: "TD_Activate True True True base (\<lambda>_. []) pages = Inr d \<Longrightarrow> reachable (start d)"
| call: "reachable r \<Longrightarrow> clean_call r c \<Longrightarrow> do_call c r = Inr r' \<Longrightarrow> reachable r'"

lemma run_append: "run (cs @ ds) r = bind_r (run cs r) (run ds)"
  by (induction cs arbitrary: r) (auto simp: bind_r_def split: sum.splits)

fun clean_run :: "call list \<Rightarrow> runtime \<Rightarrow> bool" where
  "clean_run [] r = True"
| "clean_run (c # cs) r =
     (clean_call r c \<and> (case do_call c r of Inl e \<Rightarrow> True | Inr r' \<Rightarrow> clean_run cs r'))"

lemma run_reachable:
  "run cs r = Inr r' \<Longrightarrow> reachable r \<Longrightarrow> clean_run cs r \<Longrightarrow> reachable r'"
proof (induction cs arbitrary: r)
  case (Cons c cs)
  then obtain r1 where "do_call c r = Inr r1" and "run cs r1 = Inr r'" by (auto simp: bind_r_Inr_iff)
  with Cons show ?case using reachable.call[of r c r1] by simp
qed simp

text \<open>A wrapper around a piece of TBB that makes calls is the run of all the calls.\<close>

lemma t_spawn_and_wait_for_all_run:
  "t_spawn_and_wait_for_all (run cs) p r = run (Spawn p # cs @ [Wait p]) r"
  by (auto simp: t_spawn_and_wait_for_all_def run_append bind_r_def split: sum.splits)

section \<open>Thread numbers\<close>

definition tids_ok :: "runtime \<Rightarrow> bool" where
  "tids_ok r \<longleftrightarrow> ran (tid_map r) = {..<tid_ctr r}"

lemma get_cur_tid_new:
  assumes "tid_map r p = None" and "get_cur_tid p r = Inr (t, r')"
  shows "t = tid_ctr r" "tid_ctr r' = Suc (tid_ctr r)" "tid_map r' = (tid_map r)(p \<mapsto> t)"
  using assms by (auto simp: get_cur_tid_def Let_def map_insert_def)

interpretation tid_tickets: tickets tid_map get_cur_tid tids_ok
proof (unfold_locales, goal_cases)
  case (1 s k v)
  then show ?case by (simp add: get_cur_tid_def)
next
  case (2 s k v s')
  then show ?case using get_cur_tid_new(3) by blast
next
  case (3 s k v s')
  then show ?case using get_cur_tid_new(1)[OF 3(2,3)] by (simp add: tids_ok_def)
next
  case (4 s k v s')
  note n = get_cur_tid_new[OF 4(2,3)]
  have "ran (tid_map s') = insert v (ran (tid_map s))" using 4(2) n(3) by simp
  with 4(1) n show ?case by (simp add: tids_ok_def lessThan_Suc)
qed

lemma get_cur_tid_fields:
  assumes "get_cur_tid p r = Inr (t, r')"
  shows "det r' = det r" "task_id_ctr r' = task_id_ctr r"
  using assms by (auto simp: get_cur_tid_def Let_def bind_r_Inr_iff split: if_splits)

section \<open>The invariant of every run\<close>

definition one_tid :: "runtime \<Rightarrow> bool" where
  "one_tid r \<longleftrightarrow> inj_on (tid_map r) (dom (tid_map r))"

definition sys_ok :: "runtime \<Rightarrow> bool" where
  "sys_ok r \<longleftrightarrow> det_sound (det r) \<and> tids_ok r \<and> one_tid r \<and> table_wf (lock_tab (det r)) \<and>
     (\<forall>k. task_id_ctr r < k \<longrightarrow> fresh_id (taskGraph (det r)) k)"

lemma sys_ok_tid:
  assumes "sys_ok r" and "get_cur_tid p r = Inr (t, r')"
  shows "sys_ok r'"
proof -
  from assms(1) have "tids_ok r" by (simp add: sys_ok_def)
  from tid_tickets.ticket_ok[OF this assms(2)] tid_tickets.ticket_unique[OF this _ assms(2)]
  show ?thesis
    using assms(1) get_cur_tid_fields[OF assms(2)] by (simp add: sys_ok_def one_tid_def)
qed

text \<open>A graph handler that keeps what the invariant asks of the graph keeps the invariant.\<close>

lemma on_graph_ok:
  assumes r: "sys_ok r" and s: "on_graph f p r = Inr r'"
    and f: "\<And>t g'. f t (taskGraph (det r)) = Inr g' \<Longrightarrow>
      graph_step (taskGraph (det r)) g' \<and> g_tasks_ok g' \<and>
      (\<forall>k. task_id_ctr r < k \<longrightarrow> fresh_id g' k)"
  shows "sys_ok r'"
proof -
  from s obtain t r1 g where t: "get_cur_tid p r = Inr (t, r1)"
    and g: "f t (taskGraph (det r1)) = Inr g" and r': "r' = r1\<lparr>det := (det r1)\<lparr>taskGraph := g\<rparr>\<rparr>"
    by (auto simp: on_graph_def bind_r_Inr_iff)
  note F = get_cur_tid_fields[OF t] and r1 = sys_ok_tid[OF r t]
  from f[of t g] g F have G: "graph_step (taskGraph (det r1)) g" "g_tasks_ok g"
    "\<forall>k. task_id_ctr r1 < k \<longrightarrow> fresh_id g k" by auto
  from r1 have "det_sound (det r1)" by (simp add: sys_ok_def)
  from det_sound_grows[OF this G(1,2)] r1 G(3) show ?thesis
    by (simp add: sys_ok_def r' tids_ok_def one_tid_def)
qed

lemma on_detector_ok:
  assumes r: "sys_ok r" and s: "on_detector f p r = Inr r'"
    and f: "\<And>t d' r1. get_cur_tid p r = Inr (t, r1) \<Longrightarrow> f t (det r) = Inr d' \<Longrightarrow> det_sound d' \<and> table_wf (lock_tab d') \<and>
      fresh_id (taskGraph d') = fresh_id (taskGraph (det r))"
  shows "sys_ok r'"
proof -
  from s obtain t r1 d where t: "get_cur_tid p r = Inr (t, r1)"
    and d: "f t (det r1) = Inr d" and r': "r' = r1\<lparr>det := d\<rparr>"
    by (auto simp: on_detector_def bind_r_Inr_iff)
  note F = get_cur_tid_fields[OF t]
  from f[OF t, of d] d F sys_ok_tid[OF r t] show ?thesis
    by (simp add: sys_ok_def r' tids_ok_def one_tid_def)
qed

lemma sys_okD:
  assumes "sys_ok r"
  shows "det_sound (det r)" "wf_graph (taskGraph (det r))" "g_tasks_ok (taskGraph (det r))"
    "core_ok (taskGraph (det r))" "scopes_ok (taskGraph (det r))" "table_wf (lock_tab (det r))"
    "\<And>k. task_id_ctr r < k \<Longrightarrow> fresh_id (taskGraph (det r)) k"
  using assms by (auto simp: sys_ok_def det_sound_def graph_sound_def wf_graph_def)

lemma set_task_id_ok:
  assumes r: "sys_ok r" and s: "set_task_id p b r = Inr r'"
  shows "sys_ok r'"
proof -
  let ?r = "r\<lparr>task_id_ctr := task_id_ctr r + 1\<rparr>"
  note D = sys_okD[OF r]
  have ok: "sys_ok ?r" using r by (auto simp: sys_ok_def tids_ok_def one_tid_def)
  from s have s': "on_graph (\<lambda>t. CaptureSetTaskId t (task_id_ctr r + 1) b) p ?r = Inr r'"
    by (simp add: set_task_id_def Let_def)
  show ?thesis
  proof (rule on_graph_ok[OF ok s'])
    fix t g'
    assume g: "CaptureSetTaskId t (task_id_ctr r + 1) b (taskGraph (det ?r)) = Inr g'"
    then have g: "CaptureSetTaskId t (task_id_ctr r + 1) b (taskGraph (det r)) = Inr g'" by simp
    have "fresh_id (taskGraph (det r)) (task_id_ctr r + 1)" using D(7) by simp
    from CaptureSetTaskId_tasks[OF D(4,5,3) this g]
    have k: "g_tasks_ok g'" .
    have "fresh_id g' k" if "task_id_ctr ?r < k" for k
      by (rule CaptureSetTaskId_fresh[OF D(4,5) g _ D(7)]) (use that in auto)
    then show "graph_step (taskGraph (det ?r)) g' \<and> g_tasks_ok g' \<and>
        (\<forall>k. task_id_ctr ?r < k \<longrightarrow> fresh_id g' k)"
      using CaptureSetTaskId_step[OF D(4,5) g] k by simp
  qed
qed

lemma CaptureExecute_ok:
  assumes r: "sys_ok r" and s: "on_graph (\<lambda>t. CaptureExecute t k) p r = Inr r'"
  shows "sys_ok r'"
proof (rule on_graph_ok[OF r s])
  fix t g'
  assume g: "CaptureExecute t k (taskGraph (det r)) = Inr g'"
  note D = sys_okD[OF r]
  show "graph_step (taskGraph (det r)) g' \<and> g_tasks_ok g' \<and>
      (\<forall>k. task_id_ctr r < k \<longrightarrow> fresh_id g' k)"
    using CaptureExecute_step[OF D(4,5) g] CaptureExecute_tasks[OF D(3) g] CaptureExecute_fresh[OF g] D(7) by simp
qed

lemma CaptureReturn_ok:
  assumes r: "sys_ok r" and s: "on_graph CaptureReturn p r = Inr r'"
  shows "sys_ok r'"
proof (rule on_graph_ok[OF r s])
  fix t g'
  assume g: "CaptureReturn t (taskGraph (det r)) = Inr g'"
  note D = sys_okD[OF r]
  show "graph_step (taskGraph (det r)) g' \<and> g_tasks_ok g' \<and>
      (\<forall>k. task_id_ctr r < k \<longrightarrow> fresh_id g' k)"
    using CaptureReturn_step[OF D(4,5) g] CaptureReturn_tasks[OF D(3) g] CaptureReturn_fresh[OF g] D(7) by simp
qed

lemma CaptureWaitOnly_ok:
  assumes r: "sys_ok r" and s: "on_graph CaptureWaitOnly p r = Inr r'"
  shows "sys_ok r'"
proof (rule on_graph_ok[OF r s])
  fix t g'
  assume g: "CaptureWaitOnly t (taskGraph (det r)) = Inr g'"
  note D = sys_okD[OF r]
  show "graph_step (taskGraph (det r)) g' \<and> g_tasks_ok g' \<and>
      (\<forall>k. task_id_ctr r < k \<longrightarrow> fresh_id g' k)"
    using CaptureWaitOnly_step[OF D(4,5) g] CaptureWaitOnly_tasks[OF D(4,5,3) g] CaptureWaitOnly_fresh[OF D(5) g] D(7) by simp
qed

lemma addLock_table: "table_wf t \<Longrightarrow> addLockToLockset l d t = Inr (d', t') \<Longrightarrow> table_wf t'"
  by (auto simp: addLockToLockset_def bind_r_Inr_iff Let_def dest: getLockId_wf(1))

lemma acquire_all_table: "table_wf t \<Longrightarrow> acquire_all ls w t = Inr (w', t') \<Longrightarrow> table_wf t'"
  by (induction ls arbitrary: w t) (auto simp: bind_r_Inr_iff dest: getLockId_wf(1))

lemma release_all_table: "table_wf t \<Longrightarrow> release_all ls w t = Inr (w', t') \<Longrightarrow> table_wf t'"
  by (induction ls arbitrary: w t) (auto simp: bind_r_Inr_iff dest: getLockId_wf(1))

lemma access_history_table:
  assumes a: "access_history t addr w acc junk d = Inr d'"
  shows "lock_tab d' = lock_tab d"
proof -
  from a obtain page d1 where op: "open_page addr d = Inr (page, d1)"
    by (auto simp: access_history_def bind_r_Inr_iff)
  from open_page_InrD(4)[OF op] have d1: "lock_tab d1 = lock_tab d" by auto
  let ?c = "page (cell_offset addr)"
  from a obtain v fi g1 where
    r: "(case v of Some race \<Rightarrow> Inr (report_race addr race g1 d1)
       | None \<Rightarrow> bind_r (scan_list t acc w 0 (listed ?c) None g1) (\<lambda>(v, li, g2).
           case v of
             Some race \<Rightarrow> Inr (report_race addr race g2 d1)
           | None \<Rightarrow> bind_r (insert_access t acc w junk fi li ?c g2) (\<lambda>(c', g3).
                 Inr (store_cell addr c' (d1\<lparr>taskGraph := g3\<rparr>))))) = Inr d'"
    unfolding access_history_def op listed_def Let_def bind_r_simps prod.case
    by (elim bind_r_InrE) (simp only: split_paired_all prod.case)
  have rep: "lock_tab (report_race addr race g d1) = lock_tab d1" for race g
    by (simp add: report_race_def)
  show ?thesis
  proof (cases v)
    case (Some race)
    with r rep d1 show ?thesis by auto
  next
    case None
    with r obtain v2 li g2 where
      r2: "(case v2 of
             Some race \<Rightarrow> Inr (report_race addr race g2 d1)
           | None \<Rightarrow> bind_r (insert_access t acc w junk fi li ?c g2) (\<lambda>(c', g3).
                 Inr (store_cell addr c' (d1\<lparr>taskGraph := g3\<rparr>)))) = Inr d'"
      by (auto simp: bind_r_Inr_iff)
    then show ?thesis using rep d1 by (cases v2) (auto simp: bind_r_Inr_iff)
  qed
qed

lemma RecordAccess_table:
  assumes wf: "table_wf (lock_tab d)" and s: "RecordAccess t addr acq rel ty junk d = Inr d'"
  shows "table_wf (lock_tab d')"
proof -
  from s obtain skip where r: "(if skip then Inr d
       else bind_r (stack_top (thd_lockset d t)) (\<lambda>ls.
         bind_r (acquire_all acq (createLockset ls) (lock_tab d)) (\<lambda>(w, t1).
         bind_r (release_all rel w t1) (\<lambda>(curLockset, t2).
         bind_r (getCurTask t (taskGraph d)) (\<lambda>curStepNode.
           access_history t addr curLockset
             \<lparr>v_task = curStepNode, v_access = ty\<rparr> junk (d\<lparr>lock_tab := t2\<rparr>)))))) = Inr d'"
    unfolding RecordAccess_def by (elim bind_r_InrE)
  show ?thesis
  proof (cases skip)
    case False
    with r obtain ls w t1 w2 t2 s where a: "acquire_all acq (createLockset ls) (lock_tab d) = Inr (w, t1)"
      and b: "release_all rel w t1 = Inr (w2, t2)"
      and h: "access_history t addr w2 \<lparr>v_task = s, v_access = ty\<rparr> junk (d\<lparr>lock_tab := t2\<rparr>) = Inr d'"
      by (auto simp: bind_r_Inr_iff)
    show ?thesis
      using access_history_table[OF h] release_all_table[OF acquire_all_table[OF wf a] b] by simp
  qed (use r wf in simp)
qed

lemma sys_ok_call:
  assumes r: "sys_ok r" and c: "clean_call r c" and s: "do_call c r = Inr r'"
  shows "sys_ok r'"
proof (cases c)
  case (Begin p k)
  with s obtain r1 where "on_graph (\<lambda>t. CaptureExecute t k) p r = Inr r1"
    and d: "on_detector DR_CaptureExecute p r1 = Inr r'"
    by (auto simp: exec_begin_def bind_r_Inr_iff)
  then have r1: "sys_ok r1" using CaptureExecute_ok[OF r] by blast
  show ?thesis
    by (rule on_detector_ok[OF r1 d]) (use sys_okD[OF r1] in \<open>auto simp: DR_CaptureExecute_def\<close>)
next
  case (End p k)
  with s obtain r1 where "on_graph CaptureReturn p r = Inr r1"
    and d: "on_detector DR_CaptureReturn p r1 = Inr r'"
    by (auto simp: exec_end_def bind_r_Inr_iff)
  then have r1: "sys_ok r1" using CaptureReturn_ok[OF r] by blast
  show ?thesis
    by (rule on_detector_ok[OF r1 d])
      (use sys_okD[OF r1] in \<open>auto simp: DR_CaptureReturn_def bind_r_Inr_iff\<close>)
next
  case (LockAcq p l)
  with s have "on_detector (\<lambda>t. CaptureLockAcquire t l) p r = Inr r'" by simp
  then show ?thesis
    by (rule on_detector_ok[OF r]) (use sys_okD[OF r] addLock_table in
      \<open>auto simp: CaptureLockAcquire_def bind_r_Inr_iff det_sound_locks split: list.splits\<close>)
next
  case (LockRel p l)
  with s have "on_detector (\<lambda>t. CaptureLockRelease t l) p r = Inr r'" by simp
  then show ?thesis
    by (rule on_detector_ok[OF r]) (use sys_okD[OF r] in
      \<open>auto simp: CaptureLockRelease_def bind_r_Inr_iff split: list.splits\<close>)
next
  case (Access p a acq rel ty junk)
  with s have s: "on_detector (\<lambda>t. RecordAccess t a acq rel ty junk) p r = Inr r'" by simp
  show ?thesis
  proof (rule on_detector_ok[OF r s])
    fix t d' r1
    assume t: "get_cur_tid p r = Inr (t, r1)" and d: "RecordAccess t a acq rel ty junk (det r) = Inr d'"
    have "no_pointers junk" "getCurTask t (taskGraph (det r)) \<noteq> Inr 0"
      using c Access t by (simp_all add: in_step_def)
    note S = RecordAccess_sound[OF sys_okD(1)[OF r] this(1) d this(2)]
    have "fresh_id (taskGraph d') = fresh_id (taskGraph (det r))"
      by (rule fresh_id_fields) (use query_step_fields[OF S(2)] in auto)
    with S(1) RecordAccess_table[OF sys_okD(6)[OF r] d]
    show "det_sound d' \<and> table_wf (lock_tab d') \<and>
        fresh_id (taskGraph d') = fresh_id (taskGraph (det r))" by simp
  qed
qed (use s set_task_id_ok[OF r] CaptureWaitOnly_ok[OF r] in simp_all)

lemma sys_ok_start:
  assumes "TD_Activate True True True base (\<lambda>_. []) pages = Inr d"
  shows "sys_ok (start d)"
proof -
  from assms obtain g where g: "new_AFTaskGraph True True base (\<lambda>_. []) = Inr g"
    and d: "d = \<lparr>taskGraph = g, lock_tab = new_lock_table,
               thd_lockset = (\<lambda>_. [])(0 := [new_Lockset_data]),
               shadow_space = (\<lambda>_. None), page_mapped = pages, all_violations = Map.empty\<rparr>"
    by (auto simp: TD_Activate_def bind_r_Inr_iff)
  note G = new_AFTaskGraph_ok[OF g]
  have k: "g_tasks_ok g"
    using G(6,7) by (auto simp: tasks_ok_def node_def)
  have "\<forall>k. 0 < k \<longrightarrow> fresh_id g k" using G(6,7) by (auto simp: fresh_id_def node_def zero_task_def)
  moreover have "slots_valid g zero_cell"
    by (auto simp: slots_valid_def zero_cell_def zero_entry_def slot_steps_def listed_def)
  ultimately show ?thesis
    using k new_AFTaskGraph_wf[OF g] new_lock_table_ok
    by (simp add: sys_ok_def start_def d det_sound_def graph_sound_def viols_ok_def cell_at_def
        tids_ok_def one_tid_def table_wf_def)
qed

lemma reachable_ok: "reachable r \<Longrightarrow> sys_ok r"
  by (induction rule: reachable.induct) (blast intro: sys_ok_start sys_ok_call)+

text \<open>A task whose number is not waiting cannot begin: \<open>std::map::at\<close> throws.\<close>

lemma begin_unannounced:
  assumes "temp_cur_map (taskGraph (det r)) k = None"
  shows "do_call (Begin p k) r = Inl KeyMissing"
proof -
  have "\<exists>t r1. get_cur_tid p r = Inr (t, r1) \<and> taskGraph (det r1) = taskGraph (det r)"
    by (auto simp: get_cur_tid_def Let_def split: option.splits)
  then obtain t r1 where "get_cur_tid p r = Inr (t, r1)" "taskGraph (det r1) = taskGraph (det r)" by blast
  then show ?thesis
    using assms by (simp add: exec_begin_def on_graph_def CaptureExecute_def)
qed

end
