(* ===== verification/Demo.thy ===== *)
theory Demo
  imports Runtime
begin

text \<open>
  A small run of the library on which the properties are instantiated: the main thread starts
  task 1, which spawns task 2; a second thread picks task 2 up. Step 6 is the body of task 2,
  step 7 the rest of task 1.
\<close>

definition demo_detector :: detector where
  "demo_detector = (case TD_Activate True True True 4096 (\<lambda>_. []) (\<lambda>_. True) of
     Inr d \<Rightarrow> d | Inl e \<Rightarrow> undefined)"

definition demo_calls :: "call list" where
  "demo_calls = [SpawnRoot 0, Begin 0 1, Spawn 0, Begin 1 2]"

definition demo_state :: runtime where
  "demo_state = (case run demo_calls (start demo_detector) of Inr r \<Rightarrow> r | Inl e \<Rightarrow> undefined)"

abbreviation demo_graph :: AFTaskGraph where
  "demo_graph \<equiv> taskGraph (det demo_state)"

lemmas graph_evals = new_AFTaskGraph_def empty_graph_def create_node_def initialize_task_def
  upd_node_def push_cur_def createHashTable_def CaptureSetTaskId_def CaptureSpawnOnly_def
  CaptureSpawnAndWait_def CaptureExecute_def CaptureReturn_def CaptureWaitOnly_def link_child_def
  add_step_def set_young_def set_cur_step_def spawn_scope_def checkForStep_def top_cur_def
  stack_push_def NUM_GRAPH_NODES_def NUM_THREADS_def zero_task_def map_insert_def map_erase_def
  thread_slot_def

lemmas run_evals = exec_begin_def exec_end_def set_task_id_def on_graph_def on_detector_def
  get_cur_tid_def start_def DR_CaptureExecute_def DR_CaptureReturn_def

lemma demo_activate: "TD_Activate True True True 4096 (\<lambda>_. []) (\<lambda>_. True) = Inr demo_detector"
  by (simp add: demo_detector_def TD_Activate_def graph_evals Let_def)

lemma demo_run: "run demo_calls (start demo_detector) = Inr demo_state"
proof -
  have "\<exists>r. run demo_calls (start demo_detector) = Inr r"
    by (simp add: demo_calls_def demo_detector_def TD_Activate_def run_evals graph_evals Let_def)
  then show ?thesis by (auto simp: demo_state_def)
qed

lemma demo_fields:
  "last_allocated_node demo_graph = 7" "cur demo_graph 0 = [4, 2, 1]" "cur demo_graph 1 = [5]"
  "tidToTaskIdMap demo_graph 0 = [1]" "tidToTaskIdMap demo_graph 1 = [2]"
  "type (tgraph_nodes demo_graph 6) = STEP" "type (tgraph_nodes demo_graph 7) = STEP"
  "cur_step (tgraph_nodes demo_graph 4) = 7" "cur_step (tgraph_nodes demo_graph 5) = 6"
  "taskId (tgraph_nodes demo_graph 4) = 1" "taskId (tgraph_nodes demo_graph 5) = 2"
  "thd_lockset (det demo_state) 0 = [new_Lockset_data, new_Lockset_data]"
  "thd_lockset (det demo_state) 1 = [new_Lockset_data]"
  "lock_tab (det demo_state) = new_lock_table" "shadow_space (det demo_state) = (\<lambda>_. None)"
  "page_mapped (det demo_state) = (\<lambda>_. True)" "all_violations (det demo_state) = Map.empty"
  by (simp_all add: demo_state_def demo_calls_def demo_detector_def TD_Activate_def run_evals
      graph_evals Let_def)

lemma demo_reachable: "reachable demo_state"
proof -
  have "reachable (start demo_detector)" by (rule reachable.init[OF demo_activate])
  then show ?thesis by (rule run_reachable[OF demo_run]) (simp add: demo_calls_def split: sum.splits)
qed

lemma demo_wf: "wf_graph demo_graph" "g_tasks_ok demo_graph"
  using sys_okD(2,3)[OF reachable_ok[OF demo_reachable]] by auto

lemma demo_steps: "step_node demo_graph 6" "step_node demo_graph 7"
  by (simp_all add: demo_fields node_def)

lemma demo_running: "running 0 7 demo_graph" "running 1 6 demo_graph"
  using demo_wf by (simp_all add: running_def demo_fields top_cur_def NUM_THREADS_def del: One_nat_def)

lemma demo_nodes:
  "parent (tgraph_nodes demo_graph 7) = 4" "parent (tgraph_nodes demo_graph 6) = 5"
  "parent (tgraph_nodes demo_graph 5) = 4" "depth (tgraph_nodes demo_graph 7) = 3"
  "depth (tgraph_nodes demo_graph 6) = 4" "depth (tgraph_nodes demo_graph 5) = 3"
  "depth (tgraph_nodes demo_graph 4) = 2"
  "seq_num (tgraph_nodes demo_graph 7) = 1" "seq_num (tgraph_nodes demo_graph 5) = 0"
  "type (tgraph_nodes demo_graph 5) = ASYNC"
  by (simp_all add: demo_state_def demo_calls_def demo_detector_def TD_Activate_def run_evals
      graph_evals Let_def)

lemma demo_par: "g_par demo_graph 7 6"
proof -
  have "fork (tgraph_nodes demo_graph) (last_allocated_node demo_graph) 7 6 4 7 5"
    by (simp add: fork_def sibs_def demo_nodes demo_fields under_def anc_def up_def)
  from fork_mhp[OF wf_tree[OF demo_wf(1)] _ _ _ _ this] show ?thesis
    using demo_steps by (simp add: g_par_def left_is_async_def demo_nodes)
qed

section \<open>A race in the run\<close>

lemma demo_det_ok: "det_ok (det demo_state) (\<lambda>_. [])" "locks_ok (det demo_state) (\<lambda>_. [])"
proof -
  have "cell_masks par lev [] zero_cell []" for par lev
    by (simp add: cell_masks_def zero_cell_def listed_def NUM_FIXED_ENTRIES_def)
  then have "cell_rel par lev [] zero_cell" for par lev by (auto simp: cell_rel_def)
  then show "det_ok (det demo_state) (\<lambda>_. [])"
    using demo_wf by (simp add: det_ok_def cell_at_def demo_fields in_order_def)
  have "set (thd_lockset (det demo_state) t) \<subseteq> {new_Lockset_data}" for t
    by (auto simp: demo_state_def demo_calls_def demo_detector_def TD_Activate_def run_evals
        graph_evals Let_def)
  then show "locks_ok (det demo_state) (\<lambda>_. [])"
    using new_Lockset_holds new_lock_table_ok
    by (fastforce simp: locks_ok_def demo_fields table_wf_def)
qed

definition demo_history :: "nat \<times> nat \<Rightarrow> access list" where
  "demo_history = (\<lambda>_. [])(cell_key 64 := [(lockset new_Lockset_data, WRITE, 6)])"

lemma demo_first:
  obtains d where "RecordAccess 1 64 [] [] WRITE zero_entry (det demo_state) = Inr d"
    and "det_ok d demo_history" and "locks_ok d demo_history" and "query_step demo_graph (taskGraph d)"
    and "thd_lockset d = thd_lockset (det demo_state)" and "lock_tab d = new_lock_table"
    and "page_mapped d = (\<lambda>_. True)" and "all_violations d 64 = None"
proof -
  have m: "access_mask (lockset new_Lockset_data) [] [] (lock_tab (det demo_state)) =
      Inr (lockset new_Lockset_data, new_lock_table)" by (simp add: demo_fields)
  have j: "no_pointers zero_entry" by (simp add: no_pointers_def zero_entry_def)
  have n: "all_violations (det demo_state) 64 = None" by (simp add: demo_fields)
  have l: "thd_lockset (det demo_state) 1 = new_Lockset_data # []" by (rule demo_fields)
  have few: "lock_ticker new_lock_table < 64" by (simp add: new_lock_table_def)
  obtain d where "RecordAccess 1 64 [] [] WRITE zero_entry (det demo_state) = Inr d"
    "query_step demo_graph (taskGraph d)" "thd_lockset d = thd_lockset (det demo_state)"
    "lock_tab d = new_lock_table" "page_mapped d = (\<lambda>_. True)" "all_violations d 64 = None"
    "det_ok d ((\<lambda>_. [])(cell_key 64 := [] @ [(lockset new_Lockset_data, WRITE, 6)]))"
    "locks_ok d ((\<lambda>_. [])(cell_key 64 := [] @ [(lockset new_Lockset_data, WRITE, 6)]))"
    by (rule RecordAccess_checks[OF demo_det_ok demo_running(2) _ _ n l new_Lockset_holds m few _ j,
          where ty = WRITE])
      (simp_all add: demo_fields NUM_THREADS_def comes_last_def del: One_nat_def)
  then show thesis using that by (simp add: demo_history_def)
qed

lemma demo_second_late: "comes_last demo_graph 7 (demo_history (cell_key 64))"
  using demo_par by (simp add: comes_last_def demo_history_def g_par_def mhp_def)

lemma full_mask_locks: "locks_in new_lock_table w = {}"
  by (simp add: locks_in_def new_lock_table_def)

lemma demo_clean: "no_pointers zero_entry"
  by (simp add: no_pointers_def zero_entry_def)

lemma demo_mask:
  "access_mask (lockset new_Lockset_data) [] [] new_lock_table =
     Inr (lockset new_Lockset_data, new_lock_table)"
  "lock_ticker new_lock_table < 64"
  by (simp_all add: new_lock_table_def)

lemma demo_second:
  obtains d d2 where "RecordAccess 1 64 [] [] WRITE zero_entry (det demo_state) = Inr d"
    and "RecordAccess 0 64 [] [] WRITE zero_entry d = Inr d2" and "all_violations d2 64 \<noteq> None"
    and "getCurTask 0 (taskGraph d) \<noteq> Inr 0"
proof -
  obtain d where d: "RecordAccess 1 64 [] [] WRITE zero_entry (det demo_state) = Inr d"
    "det_ok d demo_history" "locks_ok d demo_history" and q: "query_step demo_graph (taskGraph d)"
    and ls: "thd_lockset d = thd_lockset (det demo_state)" "lock_tab d = new_lock_table"
      "page_mapped d = (\<lambda>_. True)" and n: "all_violations d 64 = None"
    by (rule demo_first)
  note Q = query_step_same[OF q] and F = query_step_fields[OF q]
  have run: "running 0 7 (taskGraph d)" using Q(5) demo_running(1) by blast
  have l0: "thd_lockset d 0 = new_Lockset_data # [new_Lockset_data]" by (simp add: ls(1) demo_fields)
  have m: "access_mask (lockset new_Lockset_data) [] [] (lock_tab d) =
      Inr (lockset new_Lockset_data, new_lock_table)" by (simp add: ls(2) demo_mask)
  have race: "\<exists>(m, ty', r)\<in>set (demo_history (cell_key 64)).
      locks_in new_lock_table m \<inter> (set [] \<union> set [] - set []) = {} \<and>
      (WRITE = WRITE \<or> ty' = WRITE) \<and> g_par (taskGraph d) 7 r"
    using demo_par by (simp add: demo_history_def Q(1) full_mask_locks)
  obtain d2 where "RecordAccess 0 64 [] [] WRITE zero_entry d = Inr d2"
    "(all_violations d2 64 \<noteq> None) = (\<exists>(m, ty', r)\<in>set (demo_history (cell_key 64)).
      locks_in new_lock_table m \<inter> (set [] \<union> set [] - set []) = {} \<and>
      (WRITE = WRITE \<or> ty' = WRITE) \<and> g_par (taskGraph d) 7 r)"
    by (rule RecordAccess_checks[OF d(2,3) run _ _ n l0 new_Lockset_holds m demo_mask(2) _ demo_clean, where ty = WRITE])
      (use demo_second_late ls in \<open>simp_all add: NUM_THREADS_def F(7) demo_fields comes_last_def Q(3)\<close>)
  moreover have "getCurTask 0 (taskGraph d) \<noteq> Inr 0"
    using running_step(1,2)[OF run] by (simp add: node_def)
  ultimately show thesis using race d(1) that by blast
qed

lemma demo_tids: "tid_map demo_state 0 = Some 0" "tid_map demo_state 1 = Some 1"
  by (simp_all add: demo_state_def demo_calls_def demo_detector_def TD_Activate_def run_evals
      graph_evals Let_def)

lemma demo_race: "\<exists>r. reachable r \<and> all_violations (det r) 64 \<noteq> None"
proof -
  obtain d d2 where d: "RecordAccess 1 64 [] [] WRITE zero_entry (det demo_state) = Inr d"
    "RecordAccess 0 64 [] [] WRITE zero_entry d = Inr d2" "all_violations d2 64 \<noteq> None"
    "getCurTask 0 (taskGraph d) \<noteq> Inr 0"
    by (rule demo_second)
  let ?r = "demo_state\<lparr>det := d\<rparr>" and ?r2 = "demo_state\<lparr>det := d2\<rparr>"
  have "do_call (Access 1 64 [] [] WRITE zero_entry) demo_state = Inr ?r"
    using d(1) by (simp add: on_detector_def get_cur_tid_def demo_tids del: One_nat_def)
  then have r: "reachable ?r" by (rule reachable.call[OF demo_reachable, rotated])
      (simp add: demo_clean in_step_def get_cur_tid_def demo_tids getCurTask_def top_cur_def demo_fields
        NUM_THREADS_def del: One_nat_def)
  have at: "getCurTask 0 (taskGraph d) \<noteq> Inr 0" by (rule d(4))
  have "do_call (Access 0 64 [] [] WRITE zero_entry) ?r = Inr ?r2"
    using d(2) by (simp add: on_detector_def get_cur_tid_def demo_tids)
  then have "reachable ?r2" by (rule reachable.call[OF r, rotated])
      (simp add: demo_clean in_step_def get_cur_tid_def demo_tids at)
  with d(3) show ?thesis by (intro exI[of _ ?r2]) simp
qed

end
