(* ===== verification/Report.thy ===== *)
theory Report
  imports Demo
begin

text \<open>
  The report at the end of a run (\<open>report_access\<close>, \<open>report_DR\<close> and \<open>Fini\<close> of
  \<open>DR_Detector.cpp\<close>): the text written to \<open>violations.out\<close> and the line printed. A
  \<open>std::map\<close> is walked in the order of its keys.
\<close>

definition report_access :: "AFTaskGraph \<Rightarrow> violation_data \<Rightarrow> string" where
  "report_access g a =
     show_nat (taskId (tgraph_nodes g (v_task a))) @ ''          '' @
     (if v_access a = READ then ''READ'' else ''WRITE'') @ [CHR 0x0A]"

definition report_DR :: "AFTaskGraph \<Rightarrow> addr \<Rightarrow> violation \<Rightarrow> string" where
  "report_DR g addr v =
     ''** Data race detected at '' @ show_nat (unat addr) @ '' **'' @ [CHR 0x0A] @
     ''Accesses:'' @ [CHR 0x0A] @
     ''TaskId    AccessType'' @ [CHR 0x0A] @
     report_access g (a1 v) @ report_access g (a2 v) @
     ''*******************************'' @ [CHR 0x0A]"

definition in_key_order :: "(addr \<rightharpoonup> 'v) \<Rightarrow> (addr \<times> 'v) list" where
  "in_key_order m = map (\<lambda>a. (a, the (m a))) (sorted_list_of_set (dom m))"

definition Fini :: "detector \<Rightarrow> string \<times> string" where
  "Fini d =
     (let vs = in_key_order (all_violations d) in
      (concat (map (\<lambda>(addr, viol). report_DR (taskGraph d) addr viol) vs),
       ''Number of violations = '' @ show_nat (length vs) @ [CHR 0x0A]))"

lemma in_key_order_ok:
  assumes "finite (dom m)"
  shows "set (in_key_order m) = {(a, v). m a = Some v}" and "sorted_wrt (<) (map fst (in_key_order m))"
    and "length (in_key_order m) = card (dom m)"
proof -
  have "a \<in> dom m \<longleftrightarrow> m a \<noteq> None" for a by auto
  then show "set (in_key_order m) = {(a, v). m a = Some v}"
    using assms by (auto simp: in_key_order_def image_iff domI)
  show "sorted_wrt (<) (map fst (in_key_order m))"
    by (simp add: in_key_order_def comp_def strict_sorted_list_of_set)
  show "length (in_key_order m) = card (dom m)" by (simp add: in_key_order_def)
qed

section \<open>Finitely many violations\<close>

lemma access_history_violations:
  assumes a: "access_history t addr w acc junk d = Inr d'"
  shows "dom (all_violations d') \<subseteq> insert addr (dom (all_violations d))"
proof -
  from a obtain page d1 where op: "open_page addr d = Inr (page, d1)"
    by (auto simp: access_history_def bind_r_Inr_iff)
  from open_page_InrD(4)[OF op] have d1: "all_violations d1 = all_violations d" by auto
  let ?c = "page (cell_offset addr)"
  from a obtain v fi g1 where
    r: "(case v of Some race \<Rightarrow> Inr (report_race addr race g1 d1)
       | None \<Rightarrow> bind_r (scan_list t acc w 0 (listed ?c) None g1) (\<lambda>(v, li, g2).
           case v of
             Some race \<Rightarrow> Inr (report_race addr race g2 d1)
           | None \<Rightarrow> bind_r (insert_access t acc w junk fi li ?c g2) (\<lambda>(c', g3).
                 Inr (store_cell addr c' (d1\<lparr>taskGraph := g3\<rparr>))))) = Inr d'"
    unfolding access_history_def op listed_def Let_def bind_r_simps prod.case
    by (elim bind_r_InrE) (simp only: split_paired_all prod.case)
  have rep: "dom (all_violations (report_race addr race g d1)) \<subseteq> insert addr (dom (all_violations d))"
    for race g by (auto simp: report_race_def d1 split: if_splits)
  show ?thesis
  proof (cases v)
    case (Some race)
    with r have "d' = report_race addr race g1 d1" by simp
    then show ?thesis using rep by (simp only:)
  next
    case None
    with r obtain v2 li g2 where
      r2: "(case v2 of
             Some race \<Rightarrow> Inr (report_race addr race g2 d1)
           | None \<Rightarrow> bind_r (insert_access t acc w junk fi li ?c g2) (\<lambda>(c', g3).
                 Inr (store_cell addr c' (d1\<lparr>taskGraph := g3\<rparr>)))) = Inr d'"
      by (auto simp: bind_r_Inr_iff)
    then show ?thesis
    proof (cases v2)
      case (Some race)
      with r2 have "d' = report_race addr race g2 d1" by simp
      then show ?thesis using rep by (simp only:)
    qed (use d1 in \<open>auto simp: bind_r_Inr_iff store_cell_def\<close>)
  qed
qed

lemma RecordAccess_violations:
  assumes "RecordAccess t addr acq rel ty junk d = Inr d'"
  shows "dom (all_violations d') \<subseteq> insert addr (dom (all_violations d))"
proof -
  from assms obtain skip where r: "(if skip then Inr d
       else bind_r (stack_top (thd_lockset d t)) (\<lambda>ls.
         bind_r (acquire_all acq (createLockset ls) (lock_tab d)) (\<lambda>(w, t1).
         bind_r (release_all rel w t1) (\<lambda>(curLockset, t2).
         bind_r (getCurTask t (taskGraph d)) (\<lambda>curStepNode.
           access_history t addr curLockset
             \<lparr>v_task = curStepNode, v_access = ty\<rparr> junk (d\<lparr>lock_tab := t2\<rparr>)))))) = Inr d'"
    unfolding RecordAccess_def by (elim bind_r_InrE)
  show ?thesis
  proof (cases skip)
    case False
    with r obtain w2 t2 s where
      "access_history t addr w2 \<lparr>v_task = s, v_access = ty\<rparr> junk (d\<lparr>lock_tab := t2\<rparr>) = Inr d'"
      by (auto simp: bind_r_Inr_iff)
    from access_history_violations[OF this] show ?thesis by simp
  qed (use r in auto)
qed

lemma handler_violations:
  "DR_CaptureExecute t d = Inr d' \<Longrightarrow> all_violations d' = all_violations d"
  "DR_CaptureReturn t d = Inr d' \<Longrightarrow> all_violations d' = all_violations d"
  "CaptureLockAcquire t l d = Inr d' \<Longrightarrow> all_violations d' = all_violations d"
  "CaptureLockRelease t l d = Inr d' \<Longrightarrow> all_violations d' = all_violations d"
  by (auto simp: DR_CaptureExecute_def DR_CaptureReturn_def CaptureLockAcquire_def
      CaptureLockRelease_def bind_r_Inr_iff split: list.splits)

lemma do_call_violations:
  assumes "do_call c r = Inr r'"
  shows "finite (dom (all_violations (det r))) \<Longrightarrow> finite (dom (all_violations (det r')))"
proof -
  have g: "all_violations (det r2) = all_violations (det r1)" if "on_graph f p r1 = Inr r2" for f p r1 r2
    using that by (auto simp: on_graph_def bind_r_Inr_iff dest: get_cur_tid_fields)
  have d: "\<exists>t d. f t (det r1) = Inr d \<and> det r2 = d" if "on_detector f p r1 = Inr r2" for f p r1 r2
    using that by (force simp: on_detector_def bind_r_Inr_iff dest: get_cur_tid_fields)
  have t: "all_violations (det r2) = all_violations (det r1)" if "set_task_id p b r1 = Inr r2" for p b r1 r2
    using that g by (fastforce simp: set_task_id_def Let_def)
  have "\<exists>a. dom (all_violations (det r')) \<subseteq> insert a (dom (all_violations (det r)))"
  proof (cases c)
    case (Begin p k)
    with assms obtain r1 where "on_graph (\<lambda>t. CaptureExecute t k) p r = Inr r1"
      "on_detector DR_CaptureExecute p r1 = Inr r'" by (auto simp: exec_begin_def bind_r_Inr_iff)
    with g[OF this(1)] d[OF this(2)] show ?thesis
      using handler_violations(1) by auto
  next
    case (End p k)
    with assms obtain r1 where "on_graph CaptureReturn p r = Inr r1"
      "on_detector DR_CaptureReturn p r1 = Inr r'" by (auto simp: exec_end_def bind_r_Inr_iff)
    with g[OF this(1)] d[OF this(2)] have "all_violations (det r') = all_violations (det r)"
      using handler_violations(2) by auto
    then show ?thesis by auto
  next
    case (LockAcq p l)
    with assms d[of "\<lambda>t. CaptureLockAcquire t l" p r r'] have "all_violations (det r') = all_violations (det r)"
      using handler_violations(3) by auto
    then show ?thesis by auto
  next
    case (LockRel p l)
    with assms d[of "\<lambda>t. CaptureLockRelease t l" p r r'] have "all_violations (det r') = all_violations (det r)"
      using handler_violations(4) by auto
    then show ?thesis by auto
  next
    case (Access p a acq rel ty junk)
    with assms d[of "\<lambda>t. RecordAccess t a acq rel ty junk" p r r'] obtain t where
      "RecordAccess t a acq rel ty junk (det r) = Inr (det r')" by auto
    from RecordAccess_violations[OF this] show ?thesis by blast
  qed (use assms g t in auto)
  then show "finite (dom (all_violations (det r))) \<Longrightarrow> finite (dom (all_violations (det r')))"
    by (meson finite.insertI finite_subset)
qed

lemma reachable_violations: "reachable r \<Longrightarrow> finite (dom (all_violations (det r)))"
proof (induction rule: reachable.induct)
  case (init base pages d)
  then show ?case by (auto simp: TD_Activate_def bind_r_Inr_iff assert_r_Inr_iff start_def)
next
  case (call r c r')
  then show ?case using do_call_violations by blast
qed



end
