(* ===== verification/Trace_Generator.thy ===== *)
theory Trace_Generator
  imports Task_Nodes
begin

text \<open>
  Traces (\<open>Trace_Generator.H\<close>, \<open>Trace_Generator.cpp\<close>, the same file in \<open>tdebug-lib\<close> and
  \<open>spd3-lib\<close>): every task writes its reads, writes, spawns and lock operations to a file of
  its own, every branch on shared data adds the negated condition to \<open>traces/br_checks\<close>.
  A stream is the name of its file, and \<open>files\<close> is what has been written so far. Opening
  and writing succeed; the directory \<open>traces\<close> is there after \<open>TraceGenActivate\<close>.
\<close>

datatype CheckType = EQ | NEQ | GT | LT | GTE | LTE

record trace_state =
  traces :: "nat \<Rightarrow> string list"
  files :: "string \<rightharpoonup> string"
  br_check :: string
  thd_ins_ctr :: "nat \<Rightarrow> 64 word"
  task_ids :: "nat \<Rightarrow> nat list"

definition trace_name :: "nat \<Rightarrow> string" where
  "trace_name k = ''traces/Trace_'' @ show_nat k"

definition open_trace :: "nat \<Rightarrow> string \<Rightarrow> trace_state \<Rightarrow> trace_state" where
  "open_trace threadid name st =
     st\<lparr>traces := (traces st)(threadid := stack_push name (traces st threadid)),
        files := (files st)(name \<mapsto> [])\<rparr>"

definition TraceGenActivate :: "trace_state \<Rightarrow> trace_state" where
  "TraceGenActivate st = open_trace 0 (trace_name 0) (st\<lparr>br_check := []\<rparr>)"

text \<open>\<open>tidToTaskIdMap[threadid].top()\<close>.\<close>

definition task_of :: "nat \<Rightarrow> trace_state \<Rightarrow> nat result" where
  "task_of threadid st = thread_slot threadid (stack_top (task_ids st threadid))"

definition RecordTExecute :: "nat \<Rightarrow> trace_state \<Rightarrow> trace_state result" where
  "RecordTExecute threadid st =
     bind_r (task_of threadid st) (\<lambda>k. Inr (open_trace threadid (trace_name k) st))"

definition RecordTReturn :: "nat \<Rightarrow> trace_state \<Rightarrow> trace_state result" where
  "RecordTReturn threadid st =
     thread_slot threadid
       (bind_r (stack_top (traces st threadid)) (\<lambda>curStream.
        bind_r (stack_pop (traces st threadid)) (\<lambda>rest.
          Inr (st\<lparr>traces := (traces st)(threadid := rest)\<rparr>))))"

section \<open>Lines\<close>

text \<open>
  A line is a letter, the variable if there is one, the task, the counter, and the value if
  there is one.
\<close>

definition trace_line :: "string \<Rightarrow> string \<Rightarrow> nat \<Rightarrow> 64 word \<Rightarrow> string \<Rightarrow> string" where
  "trace_line kind var k ctr rest =
     kind @ var @ ''@'' @ show_nat k @ ''.'' @ show_nat (unat ctr) @ rest"

text \<open>
  A line goes to the stream on top of the writing thread's stack. It takes its number from
  the counter of thread \<open>c\<close>, which goes up; \<open>tk\<close> is the task it names.
\<close>

definition emit ::
    "nat \<Rightarrow> nat result \<Rightarrow> nat \<Rightarrow> string \<Rightarrow> string \<Rightarrow> string \<Rightarrow> trace_state \<Rightarrow> trace_state result" where
  "emit threadid tk c kind var rest st =
     thread_slot threadid
       (bind_r (stack_top (traces st threadid)) (\<lambda>name.
        bind_r tk (\<lambda>k.
          let line = trace_line kind var k (thd_ins_ctr st c) rest @ [CHR 0x0A];
              old = (case files st name of None \<Rightarrow> [] | Some s \<Rightarrow> s) in
          Inr (st\<lparr>files := (files st)(name \<mapsto> old @ line),
                  thd_ins_ctr := (thd_ins_ctr st)(c := thd_ins_ctr st c + 1)\<rparr>))))"

definition show_addr :: "64 word \<Rightarrow> string" where
  "show_addr a = show_nat (unat a)"

definition show_value :: "32 word \<Rightarrow> string" where
  "show_value v = ''='' @ show_int (sint v)"

definition RecordTLoad :: "nat \<Rightarrow> 64 word \<Rightarrow> trace_state \<Rightarrow> trace_state result" where
  "RecordTLoad threadid addr st =
     emit threadid (task_of threadid st) threadid ''R'' (show_addr addr) [] st"

definition RecordTStore :: "nat \<Rightarrow> 64 word \<Rightarrow> 32 word \<Rightarrow> trace_state \<Rightarrow> trace_state result" where
  "RecordTStore threadid addr value st =
     emit threadid (task_of threadid st) threadid ''W'' (show_addr addr) (show_value value) st"

definition RecordTLoadMain :: "64 word \<Rightarrow> trace_state \<Rightarrow> trace_state result" where
  "RecordTLoadMain addr st = emit 0 (Inr 0) 0 ''R'' (show_addr addr) [] st"

definition RecordTStoreMain :: "64 word \<Rightarrow> 32 word \<Rightarrow> trace_state \<Rightarrow> trace_state result" where
  "RecordTStoreMain addr value st = emit 0 (Inr 0) 0 ''W'' (show_addr addr) (show_value value) st"

text \<open>Both spawn records count with \<open>thd_ins_ctr[0]\<close>, whatever the thread.\<close>

definition RecordTSpawn :: "nat \<Rightarrow> 32 word \<Rightarrow> trace_state \<Rightarrow> trace_state result" where
  "RecordTSpawn threadid childId st =
     emit threadid (task_of threadid st) 0 ''S'' [] (show_value childId) st"

definition RecordTSpawnMain :: "32 word \<Rightarrow> trace_state \<Rightarrow> trace_state result" where
  "RecordTSpawnMain childId st = emit 0 (Inr 0) 0 ''S'' [] (show_value childId) st"

definition RecordTLockAcq :: "nat \<Rightarrow> 64 word \<Rightarrow> trace_state \<Rightarrow> trace_state result" where
  "RecordTLockAcq threadid lock st =
     emit threadid (task_of threadid st) threadid ''L'' (show_addr lock) [] st"

definition RecordTLockRel :: "nat \<Rightarrow> 64 word \<Rightarrow> trace_state \<Rightarrow> trace_state result" where
  "RecordTLockRel threadid lock st =
     emit threadid (task_of threadid st) threadid ''U'' (show_addr lock) [] st"

section \<open>Branch checks\<close>

text \<open>The condition under which the branch would have gone the other way.\<close>

fun negated :: "CheckType \<Rightarrow> string" where
  "negated EQ = '' != ''"
| "negated NEQ = '' == ''"
| "negated GT = '' <= ''"
| "negated LT = '' >= ''"
| "negated GTE = '' < ''"
| "negated LTE = '' > ''"

text \<open>
  The counter goes down before it is printed, so that the check carries the number of the
  read before it, and up again at the end.
\<close>

definition RecordTBrCheck ::
    "nat \<Rightarrow> 64 word \<Rightarrow> 32 word \<Rightarrow> CheckType \<Rightarrow> trace_state \<Rightarrow> trace_state result" where
  "RecordTBrCheck threadid addr value cType st =
     bind_r (task_of threadid st) (\<lambda>k.
       let ctr = thd_ins_ctr st threadid - 1;
           line = trace_line ''R'' (show_addr addr) k ctr (negated cType @ show_int (sint value)) @ [CHR 0x0A];
           st1 = st\<lparr>thd_ins_ctr := (thd_ins_ctr st)(threadid := ctr), br_check := br_check st @ line\<rparr> in
       Inr (st1\<lparr>thd_ins_ctr := (thd_ins_ctr st1)(threadid := thd_ins_ctr st1 threadid + 1)\<rparr>))"

section \<open>What the records do\<close>

lemma emit_InrD:
  assumes "emit t tk c kind var rest st = Inr st'"
  obtains name k where "traces st t \<noteq> []" and "name = hd (traces st t)" and "tk = Inr k"
    and "files st' = (files st)(name \<mapsto> (case files st name of None \<Rightarrow> [] | Some s \<Rightarrow> s) @
      trace_line kind var k (thd_ins_ctr st c) rest @ [CHR 0x0A])"
    and "thd_ins_ctr st' = (thd_ins_ctr st)(c := thd_ins_ctr st c + 1)"
    and "traces st' = traces st" and "task_ids st' = task_ids st" and "br_check st' = br_check st"
  using assms by (cases "traces st t") (auto simp: emit_def bind_r_Inr_iff Let_def)

lemma RecordTBrCheck_InrD:
  assumes "RecordTBrCheck t addr v ty st = Inr st'"
  obtains k where "task_of t st = Inr k" and "thd_ins_ctr st' = thd_ins_ctr st" and "files st' = files st"
    and "br_check st' = br_check st @
      trace_line ''R'' (show_addr addr) k (thd_ins_ctr st t - 1) (negated ty @ show_int (sint v)) @ [CHR 0x0A]"
  using assms by (auto simp: RecordTBrCheck_def bind_r_Inr_iff Let_def)

end
