(* ===== verification/Trace_Parse.thy ===== *)
theory Trace_Parse
  imports Trace_Generator
begin

text \<open>
  The reader of the traces (\<open>PTRacer-solver/solver.py\<close>): how \<open>create_operations\<close> cuts a line
  into its parts, and how \<open>create_branch_consts\<close> turns a branch check into a constraint.
  Operations keep their parts as strings, as the Python objects do; \<open>None\<close> is a
  \<open>ValueError\<close>. The constraint solver itself is not modelled.
\<close>

section \<open>Strings as Python has them\<close>

definition slice :: "nat \<Rightarrow> nat \<Rightarrow> 'a list \<Rightarrow> 'a list" where
  "slice i j s = take (j - i) (drop i s)"

fun index_of :: "'a list \<Rightarrow> 'a list \<Rightarrow> nat option" where
  "index_of p [] = (if p = [] then Some 0 else None)"
| "index_of p (x # xs) = (if take (length p) (x # xs) = p then Some 0 else map_option Suc (index_of p xs))"

definition rindex_of :: "'a \<Rightarrow> 'a list \<Rightarrow> nat option" where
  "rindex_of c s = map_option (\<lambda>i. length s - Suc i) (index_of [c] (rev s))"

definition parse_nat :: "string \<Rightarrow> nat" where
  "parse_nat s = foldl (\<lambda>n c. n * 10 + (of_char c - 48)) 0 s"

fun parse_int :: "string \<Rightarrow> int" where
  "parse_int [] = 0"
| "parse_int (c # s) = (if c = CHR ''-'' then - int (parse_nat s) else int (parse_nat (c # s)))"

section \<open>Operations\<close>

record RWOperation =
  op_var :: string
  op_id :: string
  op_value :: string
  iswrite :: bool

definition parse_read :: "string \<Rightarrow> RWOperation option" where
  "parse_read oper =
     Option.bind (index_of ''.'' oper) (\<lambda>d.
     Option.bind (index_of ''@'' oper) (\<lambda>a.
       Some \<lparr>op_var = slice 1 a oper, op_id = drop (d + 1) oper, op_value = [], iswrite = False\<rparr>))"

definition parse_write :: "string \<Rightarrow> RWOperation option" where
  "parse_write oper =
     Option.bind (index_of ''@'' oper) (\<lambda>a.
     Option.bind (index_of ''.'' oper) (\<lambda>d.
     Option.bind (index_of ''='' oper) (\<lambda>e.
       Some \<lparr>op_var = slice 1 a oper, op_id = slice (d + 1) e oper,
             op_value = drop (e + 1) oper, iswrite = True\<rparr>)))"

definition compOpers :: "string list" where
  "compOpers = [[], ''=='', ''!='', ''>'', ''<'', ''>='', ''<='']"

record BranchCheckOperation =
  br_var :: string
  br_taskId :: string
  compOper :: nat
  br_id :: string
  br_value :: string

definition parse_check :: "string \<Rightarrow> BranchCheckOperation option" where
  "parse_check s =
     Option.bind (index_of ''@'' s) (\<lambda>a.
     Option.bind (index_of ''.'' s) (\<lambda>d.
     Option.bind (index_of '' '' s) (\<lambda>b.
     Option.bind (rindex_of CHR '' '' s) (\<lambda>r.
       let oper = slice (b + 1) r s in
       Option.bind (index_of [oper] compOpers) (\<lambda>k.
       Option.bind (index_of oper s) (\<lambda>o'.
         Some \<lparr>br_var = slice 1 a s, br_taskId = slice (a + 1) d s, compOper = k,
               br_id = slice (d + 1) (o' - 1) s,
               br_value = (if k = 3 \<or> k = 4 then drop (o' + 2) s else drop (o' + 3) s)\<rparr>))))))"

text \<open>The constraint on the value \<open>x\<close> of the read that a check names.\<close>

definition branch_const :: "BranchCheckOperation \<Rightarrow> int \<Rightarrow> bool" where
  "branch_const b x =
     (let v = parse_int (br_value b) in
      (compOper b = 1 \<longrightarrow> x = v) \<and> (compOper b = 2 \<longrightarrow> x \<noteq> v) \<and> (compOper b = 4 \<longrightarrow> x < v) \<and>
      (compOper b = 3 \<longrightarrow> x > v) \<and> (compOper b = 6 \<longrightarrow> x \<le> v) \<and> (compOper b = 5 \<longrightarrow> x \<ge> v))"

text \<open>What a comparison of the program with a value says.\<close>

fun condition :: "CheckType \<Rightarrow> int \<Rightarrow> int \<Rightarrow> bool" where
  "condition EQ x v = (x = v)"
| "condition NEQ x v = (x \<noteq> v)"
| "condition GT x v = (x > v)"
| "condition LT x v = (x < v)"
| "condition GTE x v = (x \<ge> v)"
| "condition LTE x v = (x \<le> v)"

section \<open>Numbers\<close>

lemma show_nat_digits: "c \<in> set (show_nat n) \<Longrightarrow> \<exists>d<10. c = digit_char d"
proof (induction n rule: show_nat.induct)
  case (1 n)
  show ?case
  proof (cases "n < 10")
    case False
    with 1 show ?thesis by (auto simp: show_nat.simps[of n] intro: exI[of _ "n mod 10"])
  qed (use 1(2) in \<open>auto simp: show_nat.simps[of n]\<close>)
qed

lemma digit_char_of: "d < 10 \<Longrightarrow> of_char (digit_char d) = 48 + d"
  by (simp add: digit_char_def)

lemma show_nat_no:
  assumes "of_char c < (48::nat) \<or> 57 < (of_char c :: nat)"
  shows "c \<notin> set (show_nat n)"
proof
  assume "c \<in> set (show_nat n)"
  then obtain d where "d < 10" "c = digit_char d" using show_nat_digits by blast
  with assms digit_char_of[of d] show False by auto
qed

lemma show_nat_Cons: "show_nat n \<noteq> []"
  by (simp add: show_nat.simps[of n])

lemma parse_nat_snoc: "parse_nat (s @ [c]) = parse_nat s * 10 + (of_char c - 48)"
  by (simp add: parse_nat_def)

lemma parse_show_nat [simp]: "parse_nat (show_nat n) = n"
proof (induction n rule: show_nat.induct)
  case (1 n)
  show ?case
  proof (cases "n < 10")
    case True
    then show ?thesis by (simp add: show_nat.simps[of n] parse_nat_def digit_char_of)
  next
    case False
    then show ?thesis using 1
      by (subst show_nat.simps) (simp add: parse_nat_snoc digit_char_of)
  qed
qed

lemma parse_show_int [simp]: "parse_int (show_int i) = i"
proof (cases "i < 0")
  case False
  obtain c s where c: "show_nat (nat i) = c # s" using show_nat_Cons by (cases "show_nat (nat i)") auto
  have "CHR ''-'' \<notin> set (show_nat (nat i))" by (rule show_nat_no) simp
  with False c parse_show_nat[of "nat i"] show ?thesis
    by (auto simp: show_int_def simp del: parse_show_nat)
qed (simp add: show_int_def)

lemma show_int_no:
  assumes "of_char c < (48::nat) \<or> 57 < (of_char c :: nat)" and "c \<noteq> CHR ''-''"
  shows "c \<notin> set (show_int i)"
  using show_nat_no[OF assms(1)] assms(2) by (simp add: show_int_def)

section \<open>Positions\<close>

lemma index_of_at:
  assumes "p \<noteq> []" and "hd p \<notin> set xs"
  shows "index_of p (xs @ p @ ys) = Some (length xs)"
  using assms(2)
proof (induction xs)
  case Nil
  with assms(1) show ?case by (cases p) simp_all
next
  case (Cons x xs)
  then have "take (length p) ((x # xs) @ p @ ys) \<noteq> p" using assms(1) by (cases p) auto
  with Cons show ?case by simp
qed

lemma index_of_char: "c \<notin> set xs \<Longrightarrow> index_of [c] (xs @ c # ys) = Some (length xs)"
  using index_of_at[of "[c]" xs ys] by simp

lemma rindex_of_char:
  assumes "c \<notin> set ys"
  shows "rindex_of c (xs @ c # ys) = Some (length xs)"
  using index_of_char[of c "rev ys" "rev xs"] assms by (simp add: rindex_of_def)

lemma slice_mid: "i = length xs \<Longrightarrow> j = length xs + length ys \<Longrightarrow> slice i j (xs @ ys @ zs) = ys"
  by (simp add: slice_def)

section \<open>Reading back what was written\<close>

lemma parse_trace_line:
  fixes a k :: nat
  defines "pre \<equiv> ''R'' @ show_nat a" and "mid \<equiv> show_nat k"
  shows "index_of ''@'' (trace_line ''R'' (show_nat a) k ctr rest) = Some (length pre)"
    and "index_of ''.'' (trace_line ''R'' (show_nat a) k ctr rest) = Some (length pre + Suc (length mid))"
    and "index_of ''@'' (trace_line ''W'' (show_nat a) k ctr rest) = Some (length pre)"
    and "index_of ''.'' (trace_line ''W'' (show_nat a) k ctr rest) = Some (length pre + Suc (length mid))"
proof -
  have n: "CHR ''@'' \<notin> set (show_nat i)" "CHR ''.'' \<notin> set (show_nat i)" for i
    by (rule show_nat_no, simp)+
  show "index_of ''@'' (trace_line ''R'' (show_nat a) k ctr rest) = Some (length pre)"
    using index_of_char[of "CHR ''@''" "''R'' @ show_nat a"] n by (simp add: trace_line_def pre_def)
  show "index_of ''@'' (trace_line ''W'' (show_nat a) k ctr rest) = Some (length pre)"
    using index_of_char[of "CHR ''@''" "''W'' @ show_nat a"] n by (simp add: trace_line_def pre_def)
  show "index_of ''.'' (trace_line ''R'' (show_nat a) k ctr rest) = Some (length pre + Suc (length mid))"
    using index_of_char[of "CHR ''.''" "''R'' @ show_nat a @ ''@'' @ show_nat k"] n
    by (simp add: trace_line_def pre_def mid_def)
  show "index_of ''.'' (trace_line ''W'' (show_nat a) k ctr rest) = Some (length pre + Suc (length mid))"
    using index_of_char[of "CHR ''.''" "''W'' @ show_nat a @ ''@'' @ show_nat k"] n
    by (simp add: trace_line_def pre_def mid_def)
qed

lemma parse_read_line:
  "parse_read (trace_line ''R'' (show_nat a) k ctr []) =
     Some \<lparr>op_var = show_nat a, op_id = show_nat (unat ctr), op_value = [], iswrite = False\<rparr>"
  using parse_trace_line[of a k ctr "[]"]
  by (simp add: parse_read_def) (simp add: trace_line_def slice_def eval_nat_numeral)

lemma parse_write_line:
  "parse_write (trace_line ''W'' (show_nat a) k ctr (''='' @ show_int v)) =
     Some \<lparr>op_var = show_nat a, op_id = show_nat (unat ctr), op_value = show_int v, iswrite = True\<rparr>"
proof -
  let ?pre = "''W'' @ show_nat a @ ''@'' @ show_nat k @ ''.'' @ show_nat (unat ctr)"
  have n: "CHR ''='' \<notin> set (show_nat i)" for i by (rule show_nat_no) simp
  have "index_of ''='' (trace_line ''W'' (show_nat a) k ctr (''='' @ show_int v)) = Some (length ?pre)"
    using index_of_char[of "CHR ''=''" ?pre] n by (simp add: trace_line_def)
  then show ?thesis
    using parse_trace_line[of a k ctr "''='' @ show_int v"]
    by (simp add: parse_write_def) (simp add: trace_line_def slice_def eval_nat_numeral)
qed

lemma parse_check_line:
  assumes "oper \<in> {''=='', ''!='', ''>'', ''<'', ''>='', ''<=''}"
    and "index_of [oper] compOpers = Some n"
  shows "parse_check (trace_line ''R'' (show_nat a) k ctr ('' '' @ oper @ '' '' @ show_int v)) =
     Some \<lparr>br_var = show_nat a, br_taskId = show_nat k, compOper = n, br_id = show_nat (unat ctr),
           br_value = show_int v\<rparr>"
proof -
  let ?pre = "''R'' @ show_nat a @ ''@'' @ show_nat k @ ''.'' @ show_nat (unat ctr)"
  let ?s = "trace_line ''R'' (show_nat a) k ctr ('' '' @ oper @ '' '' @ show_int v)"
  have s: "?s = ?pre @ '' '' @ oper @ '' '' @ show_int v" by (simp add: trace_line_def)
  have n: "CHR '' '' \<notin> set (show_nat i)" "CHR ''='' \<notin> set (show_nat i)" "CHR ''!'' \<notin> set (show_nat i)"
    "CHR ''<'' \<notin> set (show_nat i)" "CHR ''>'' \<notin> set (show_nat i)" for i
    by (rule show_nat_no, simp)+
  have b: "index_of '' '' ?s = Some (length ?pre)"
    unfolding s using index_of_char[of "CHR '' ''" ?pre] n by simp
  have r: "rindex_of CHR '' '' ?s = Some (length ?pre + Suc (length oper))"
    unfolding s using rindex_of_char[of "CHR '' ''" "show_int v" "?pre @ '' '' @ oper"]
      show_int_no[of "CHR '' ''" v] by simp
  have o': "index_of oper ?s = Some (Suc (length ?pre))"
    unfolding s using index_of_at[of oper "?pre @ '' ''" "'' '' @ show_int v"] n assms(1) by auto
  have oper: "slice (length ?pre + 1) (length ?pre + Suc (length oper)) ?s = oper"
    unfolding s by (simp add: slice_def eval_nat_numeral)
  have len: "length oper = (if n = 3 \<or> n = 4 then 1 else 2)"
    using assms by (auto simp: compOpers_def split: if_splits)
  show ?thesis
    by (simp only: parse_check_def b r Option.bind.bind_lunit oper Let_def assms(2) o' parse_trace_line)
      (auto simp: trace_line_def slice_def len eval_nat_numeral)
qed

section \<open>Properties\<close>

definition sample_trace :: trace_state where
  "sample_trace = \<lparr>traces = (\<lambda>_. [])(2 := [''traces/Trace_7'']), files = [''traces/Trace_7'' \<mapsto> []],
     br_check = [], thd_ins_ctr = (\<lambda>_. 0)(2 := 5), task_ids = (\<lambda>_. [])(2 := [7])\<rparr>"

lemma sample_task: "task_of 2 sample_trace = Inr 7"
  by (simp add: task_of_def sample_trace_def NUM_THREADS_def)

lemma sample_emit: "emit 2 (task_of 2 sample_trace) c kind var rest sample_trace = Inr
    (sample_trace\<lparr>files := [''traces/Trace_7'' \<mapsto> trace_line kind var 7 (thd_ins_ctr sample_trace c) rest @ [CHR 0x0A]],
       thd_ins_ctr := (thd_ins_ctr sample_trace)(c := thd_ins_ctr sample_trace c + 1)\<rparr>)"
  unfolding sample_task by (simp add: emit_def Let_def) (simp add: sample_trace_def NUM_THREADS_def)

lemma emit_lines:
  assumes "emit t tk c kind var rest st = Inr st'" and "tk = Inr k"
  shows "\<exists>old. files st' (hd (traces st t)) = Some (old @ trace_line kind var k (thd_ins_ctr st c) rest @ [CHR 0x0A])"
  by (rule emit_InrD[OF assms(1)]) (use assms(2) in simp)





text \<open>
  A spawn recorded by a thread other than 0 is numbered by the counter of thread 0 and
  leaves the thread's own counter alone: its line can carry a number that another line of the
  same trace carries too.
\<close>

theorem spawn_counts_on_thread_0:
  assumes "RecordTSpawn t c st = Inr st'" and "t \<noteq> 0" and "task_of t st = Inr k"
  shows "\<exists>old. files st' (hd (traces st t)) =
      Some (old @ trace_line ''S'' [] k (thd_ins_ctr st 0) (show_value c) @ [CHR 0x0A]) \<and>
    thd_ins_ctr st' t = thd_ins_ctr st t \<and> thd_ins_ctr st' 0 = thd_ins_ctr st 0 + 1"
proof -
  have e: "emit t (task_of t st) 0 ''S'' [] (show_value c) st = Inr st'"
    using assms(1) by (simp add: RecordTSpawn_def)
  have "thd_ins_ctr st' = (thd_ins_ctr st)(0 := thd_ins_ctr st 0 + 1)"
    by (rule emit_InrD[OF e])
  then show ?thesis using emit_lines[OF e assms(3)] assms(2) by simp
qed

theorem spawn_counts_on_thread_0_witness:
  "\<exists>st'. RecordTSpawn 2 8 sample_trace = Inr st' \<and> thd_ins_ctr st' 2 = 5 \<and> thd_ins_ctr st' 0 = 1"
proof -
  note k = sample_task
  obtain st' where r: "RecordTSpawn 2 8 sample_trace = Inr st'"
    by (simp add: RecordTSpawn_def sample_emit)
  have "thd_ins_ctr sample_trace 2 = 5" "thd_ins_ctr sample_trace 0 = 0" by (simp_all add: sample_trace_def)
  with spawn_counts_on_thread_0[OF r _ k] r show ?thesis by auto
qed

end
