(* ===== verification/Spd3_Graph.thy ===== *)
theory Spd3_Graph
  imports Task_Ids Two_Slots
begin

text \<open>
  The task graph of \<open>spd3-lib\<close> (\<open>spd3-lib/src/AFTaskGraph.cpp\<close>), the detector of the original
  SPD3 algorithm. It is the graph of \<open>tdebug-lib\<close> with its assertions switched on and one more
  field per node, \<open>sp_root_n_wt_flag\<close>, by which \<open>CaptureReturn\<close> recognises a scope that was
  opened for a spawn and never waited for. The flag is kept beside the other fields. Every
  operation that returns does to those what the one of \<open>tdebug-lib\<close> does, \<open>CaptureReturn\<close> apart.
\<close>

record spd3_graph =
  sg :: AFTaskGraph
  sp_root_n_wt_flag :: "nat \<Rightarrow> bool"

definition spd3_set_flag :: "nat \<Rightarrow> bool \<Rightarrow> spd3_graph \<Rightarrow> spd3_graph" where
  "spd3_set_flag i b s = s\<lparr>sp_root_n_wt_flag := (sp_root_n_wt_flag s)(i := b)\<rparr>"

definition spd3_initialize_task :: "nat \<Rightarrow> NodeType \<Rightarrow> nat \<Rightarrow> spd3_graph \<Rightarrow> spd3_graph" where
  "spd3_initialize_task index node_type val s =
     spd3_set_flag index False (s\<lparr>sg := initialize_task index node_type val (sg s)\<rparr>)"

definition spd3_create_node :: "NodeType \<Rightarrow> nat \<Rightarrow> spd3_graph \<Rightarrow> (nat \<times> spd3_graph) result" where
  "spd3_create_node node_type task_id s =
     (let index = last_allocated_node (sg s) + 1;
          s1 = s\<lparr>sg := (sg s)\<lparr>last_allocated_node := index\<rparr>\<rparr>
      in assert_r (index < NUM_GRAPH_NODES) AssertFail
           (Inr (index, spd3_initialize_task index node_type task_id s1)))"

definition new_spd3_graph :: "bool \<Rightarrow> bool \<Rightarrow> nat \<Rightarrow> (nat \<Rightarrow> nat list) \<Rightarrow> spd3_graph result" where
  "new_spd3_graph mmap_ok malloc_ok base tids =
     assert_r mmap_ok AssertFail
       (bind_r (spd3_create_node FINISH 0 \<lparr>sg = empty_graph base tids, sp_root_n_wt_flag = (\<lambda>_. False)\<rparr>)
         (\<lambda>(head_node, s1).
          let g2 = push_cur 0 head_node (sg s1);
              g3 = upd_node head_node (\<lambda>n. n\<lparr>depth := 0\<rparr>) g2;
              s2 = spd3_set_flag head_node True (s1\<lparr>sg := g3\<rparr>)
          in Inr (s2\<lparr>sg := (sg s2)\<lparr>lca_tab := snd (createHashTable malloc_ok)\<rparr>\<rparr>)))"

definition spd3_link_child :: "NodeType \<Rightarrow> nat \<Rightarrow> nat \<Rightarrow> spd3_graph \<Rightarrow> (nat \<times> spd3_graph) result" where
  "spd3_link_child node_type task_id p s =
     bind_r (spd3_create_node node_type task_id s) (\<lambda>(i, s1).
       let pn = tgraph_nodes (sg s1) p;
           g2 = upd_node i (\<lambda>n. n\<lparr>parent := p, depth := depth pn + 1,
                  seq_num := num_children pn\<rparr>) (sg s1);
           g3 = upd_node p (\<lambda>n. n\<lparr>num_children := num_children n + 1\<rparr>) g2
       in Inr (i, s1\<lparr>sg := g3\<rparr>))"

definition on_sg :: "(AFTaskGraph \<Rightarrow> AFTaskGraph) \<Rightarrow> spd3_graph \<Rightarrow> spd3_graph" where
  "on_sg f s = s\<lparr>sg := f (sg s)\<rparr>"

section \<open>Queries\<close>

definition spd3_getCurTask :: "nat \<Rightarrow> spd3_graph \<Rightarrow> nat result" where
  "spd3_getCurTask threadid s =
     bind_r (top_cur threadid (sg s)) (\<lambda>c.
       assert_r (cur_step (tgraph_nodes (sg s) c) \<noteq> 0) AssertFail
         (Inr (cur_step (tgraph_nodes (sg s) c))))"

text \<open>The walk of \<open>parallel\<close>: once the depths are equal the two nodes must differ.\<close>

definition spd3_walk_up ::
    "(nat \<Rightarrow> AFTask) \<Rightarrow> nat \<Rightarrow> nat \<Rightarrow> (nat \<times> nat option \<times> nat option) result" where
  "spd3_walk_up nds cur_task remote_task =
     bind_r (returns_r
       (if depth (nds remote_task) < depth (nds cur_task)
        then map_option (\<lambda>(c, pc). (c, pc, remote_task, None))
               (climb nds (depth (nds remote_task)) cur_task None)
        else if depth (nds cur_task) < depth (nds remote_task)
        then map_option (\<lambda>(r, pr). (cur_task, None, r, pr))
               (climb nds (depth (nds cur_task)) remote_task None)
        else Some (cur_task, None, remote_task, None)))
     (\<lambda>(c, pc, r, pr). assert_r (r \<noteq> c) AssertFail (returns_r (meet nds c pc r pr)))"

definition spd3_parallel :: "nat \<Rightarrow> nat \<Rightarrow> AFTaskGraph \<Rightarrow> (bool \<times> AFTaskGraph) result" where
  "spd3_parallel cur_task remote_task g =
     bind_r (deref_r (lca_tab g)) (\<lambda>t.
       let ca = node_addr (nodes_base g) cur_task;
           ra = node_addr (nodes_base g) remote_task in
       case checkParallel ca ra t of
         TRUE \<Rightarrow> Inr (True, g)
       | FALSE \<Rightarrow> Inr (False, g)
       | NA \<Rightarrow>
           bind_r (spd3_walk_up (tgraph_nodes g) cur_task remote_task) (\<lambda>(l, pc, pr).
           bind_r (deref_r pc) (\<lambda>prev_cur.
           bind_r (deref_r pr) (\<lambda>prev_remote.
             assert_r (seq_num (tgraph_nodes g prev_remote) \<noteq> seq_num (tgraph_nodes g prev_cur)) AssertFail
               (let ret_val = left_is_async (tgraph_nodes g) prev_cur prev_remote;
                    t1 = updateEntry ca ra ret_val (Some l) t;
                    t2 = updateEntry ra ca ret_val (Some l) t1
                in Inr (ret_val, g\<lparr>lca_tab := Some t2\<rparr>))))))"

definition spd3_areParallel :: "nat \<Rightarrow> nat \<Rightarrow> nat \<Rightarrow> AFTaskGraph \<Rightarrow> (bool \<times> AFTaskGraph) result" where
  "spd3_areParallel cur_task remote_task threadid g =
     (if cur_task = taskId (tgraph_nodes g remote_task) then Inr (False, g)
      else bind_r (top_cur threadid g) (\<lambda>c.
        if taskId (tgraph_nodes g c) = taskId (tgraph_nodes g remote_task) then Inr (False, g)
        else
          assert_r (type (tgraph_nodes g (cur_step (tgraph_nodes g c))) = STEP) AssertFail
          (assert_r (type (tgraph_nodes g remote_task) = STEP) AssertFail
            (spd3_parallel (cur_step (tgraph_nodes g c)) remote_task g))))"

definition spd3_LCA :: "nat \<Rightarrow> nat \<Rightarrow> AFTaskGraph \<Rightarrow> nat result" where
  "spd3_LCA cur_task remote_task g =
     bind_r (deref_r (lca_tab g)) (\<lambda>t.
       case getLCA (node_addr (nodes_base g) cur_task) (node_addr (nodes_base g) remote_task) t of
         Some cached_lca \<Rightarrow> Inr cached_lca
       | None \<Rightarrow> lca_walk (tgraph_nodes g) cur_task remote_task)"

section \<open>Task events\<close>

definition spd3_spawn_scope ::
    "nat \<Rightarrow> nat \<Rightarrow> nat \<Rightarrow> spd3_graph \<Rightarrow> (nat \<times> nat \<times> spd3_graph) result" where
  "spd3_spawn_scope threadid task_id c s =
     (if checkForStep (tgraph_nodes (sg s) c) then
        bind_r (spd3_link_child ASYNC task_id c s) (\<lambda>(newNode, s1).
          Inr (c, newNode, on_sg (set_young c ASYNC) s1))
      else
        bind_r (spd3_link_child FINISH (taskId (tgraph_nodes (sg s) c)) c s) (\<lambda>(newFinish, s1).
        bind_r (spd3_link_child ASYNC task_id newFinish (on_sg (set_young c FINISH) s1)) (\<lambda>(newNode, s2).
          Inr (newFinish, newNode,
            on_sg (push_cur threadid newFinish) (on_sg (set_young newFinish ASYNC) s2)))))"

definition spd3_add_step :: "nat \<Rightarrow> spd3_graph \<Rightarrow> spd3_graph result" where
  "spd3_add_step p s =
     bind_r (spd3_link_child STEP (taskId (tgraph_nodes (sg s) p)) p s) (\<lambda>(newStep, s1).
       Inr (on_sg (set_cur_step p newStep) s1))"

definition spd3_remember :: "nat \<Rightarrow> nat \<Rightarrow> spd3_graph \<Rightarrow> spd3_graph result" where
  "spd3_remember task_id newNode s =
     assert_r (temp_cur_map (sg s) task_id = None) AssertFail
       (Inr (on_sg (\<lambda>g. g\<lparr>temp_cur_map := map_insert (temp_cur_map g) task_id newNode\<rparr>) s))"

definition spd3_CaptureSpawnOnly :: "nat \<Rightarrow> nat \<Rightarrow> spd3_graph \<Rightarrow> spd3_graph result" where
  "spd3_CaptureSpawnOnly threadid task_id s =
     bind_r (top_cur threadid (sg s)) (\<lambda>c.
     bind_r (spd3_spawn_scope threadid task_id c s) (\<lambda>(cur_node, newNode, s1).
     bind_r (spd3_add_step newNode s1) (\<lambda>s2.
     bind_r (spd3_add_step cur_node s2) (\<lambda>s3. spd3_remember task_id newNode s3))))"

definition spd3_CaptureSpawnAndWait :: "nat \<Rightarrow> nat \<Rightarrow> spd3_graph \<Rightarrow> spd3_graph result" where
  "spd3_CaptureSpawnAndWait threadid task_id s =
     bind_r (top_cur threadid (sg s)) (\<lambda>c.
     bind_r (spd3_link_child FINISH task_id c s) (\<lambda>(newFinish, s1).
     bind_r (spd3_add_step newFinish
         (spd3_set_flag newFinish True (on_sg (set_young c FINISH) s1))) (\<lambda>s2.
       spd3_remember task_id newFinish s2)))"

definition spd3_CaptureExecute :: "nat \<Rightarrow> nat \<Rightarrow> spd3_graph \<Rightarrow> spd3_graph result" where
  "spd3_CaptureExecute threadid task_id s =
     assert_r (temp_cur_map (sg s) task_id \<noteq> None) AssertFail
       (bind_r (map_at (temp_cur_map (sg s)) task_id) (\<lambda>temp_cur.
         let g1 = (sg s)\<lparr>temp_cur_map := map_erase (temp_cur_map (sg s)) task_id\<rparr> in
         assert_r (temp_cur \<noteq> 0) AssertFail
           (thread_slot threadid
             (let g2 = push_cur threadid temp_cur g1 in
              Inr (s\<lparr>sg := g2\<lparr>tidToTaskIdMap := (tidToTaskIdMap g2)(threadid :=
                stack_push (taskId (tgraph_nodes g2 temp_cur)) (tidToTaskIdMap g2 threadid))\<rparr>\<rparr>)))))"

definition spd3_CaptureWait :: "nat \<Rightarrow> spd3_graph \<Rightarrow> spd3_graph result" where
  "spd3_CaptureWait threadid s = bind_r (top_cur threadid (sg s)) (\<lambda>c. spd3_add_step c s)"

definition spd3_CaptureReturn :: "nat \<Rightarrow> spd3_graph \<Rightarrow> spd3_graph result" where
  "spd3_CaptureReturn threadid s =
     thread_slot threadid
       (bind_r (stack_pop (tidToTaskIdMap (sg s) threadid)) (\<lambda>ids.
        bind_r (top_cur threadid (sg s)) (\<lambda>c.
        bind_r (if type (tgraph_nodes (sg s) c) = FINISH \<and> \<not> sp_root_n_wt_flag s c
                then stack_pop (cur (sg s) threadid) else Inr (cur (sg s) threadid)) (\<lambda>st1.
        bind_r (stack_pop st1) (\<lambda>st2.
          Inr (on_sg (\<lambda>g. g\<lparr>tidToTaskIdMap := (tidToTaskIdMap g)(threadid := ids),
                           cur := (cur g)(threadid := st2)\<rparr>) s))))))"

definition spd3_CaptureWaitOnly :: "nat \<Rightarrow> spd3_graph \<Rightarrow> spd3_graph result" where
  "spd3_CaptureWaitOnly threadid s =
     thread_slot threadid
       (bind_r (stack_pop (cur (sg s) threadid)) (\<lambda>st.
          let s1 = on_sg (\<lambda>g. g\<lparr>cur := (cur g)(threadid := st)\<rparr>) s in
          bind_r (top_cur threadid (sg s1)) (\<lambda>c. spd3_add_step c s1)))"

definition spd3_CaptureSetTaskId :: "nat \<Rightarrow> nat \<Rightarrow> int \<Rightarrow> spd3_graph \<Rightarrow> spd3_graph result" where
  "spd3_CaptureSetTaskId threadid task_id sp_only s =
     (if sp_only \<noteq> 0 then spd3_CaptureSpawnOnly threadid task_id s
      else spd3_CaptureSpawnAndWait threadid task_id s)"

section \<open>The graph below the flags\<close>

lemma on_sg_simps [simp]:
  "sg (on_sg f s) = f (sg s)" "sp_root_n_wt_flag (on_sg f s) = sp_root_n_wt_flag s"
  "sg (spd3_set_flag i b s) = sg s"
  "sp_root_n_wt_flag (spd3_set_flag i b s) = (sp_root_n_wt_flag s)(i := b)"
  by (simp_all add: on_sg_def spd3_set_flag_def)

lemma spd3_link_child_lift:
  assumes "spd3_link_child ty k p s = Inr (i, s')"
  shows "link_child ty k p (sg s) = Inr (i, sg s')"
    and "sp_root_n_wt_flag s' = (sp_root_n_wt_flag s)(i := False)"
  using assms
  by (auto simp: spd3_link_child_def spd3_create_node_def spd3_initialize_task_def link_child_def
      create_node_def bind_r_Inr_iff assert_r_Inr_iff Let_def)

lemma spd3_add_step_lift:
  assumes "spd3_add_step p s = Inr s'"
  shows "add_step p (sg s) = Inr (sg s')"
    and "\<exists>i g. link_child STEP (taskId (tgraph_nodes (sg s) p)) p (sg s) = Inr (i, g) \<and>
      sp_root_n_wt_flag s' = (sp_root_n_wt_flag s)(i := False)"
proof -
  from assms obtain i s1 where l: "spd3_link_child STEP (taskId (tgraph_nodes (sg s) p)) p s = Inr (i, s1)"
    and s': "s' = on_sg (set_cur_step p i) s1" by (auto simp: spd3_add_step_def bind_r_Inr_iff)
  note L = spd3_link_child_lift[OF l]
  show "add_step p (sg s) = Inr (sg s')" by (simp add: add_step_def L(1) s')
  show "\<exists>i g. link_child STEP (taskId (tgraph_nodes (sg s) p)) p (sg s) = Inr (i, g) \<and>
      sp_root_n_wt_flag s' = (sp_root_n_wt_flag s)(i := False)"
    using L by (auto simp: s')
qed

lemma spd3_remember_lift:
  assumes "spd3_remember k n s = Inr s'"
  shows "sg s' = (sg s)\<lparr>temp_cur_map := map_insert (temp_cur_map (sg s)) k n\<rparr>"
    "sp_root_n_wt_flag s' = sp_root_n_wt_flag s"
  using assms by (auto simp: spd3_remember_def assert_r_Inr_iff)

lemma spd3_spawn_scope_lift:
  assumes "spd3_spawn_scope t k c s = Inr (c', n, s')" and c: "c \<le> last_allocated_node (sg s)"
  shows "spawn_scope t k c (sg s) = Inr (c', n, sg s')"
proof (cases "checkForStep (tgraph_nodes (sg s) c)")
  case True
  with assms show ?thesis
    by (auto simp: spd3_spawn_scope_def spawn_scope_def bind_r_Inr_iff dest!: spd3_link_child_lift(1))
next
  case False
  with assms obtain f s1 s2 where l1: "spd3_link_child FINISH (taskId (tgraph_nodes (sg s) c)) c s = Inr (f, s1)"
    and l2: "spd3_link_child ASYNC k f (on_sg (set_young c FINISH) s1) = Inr (n, s2)"
    and e: "c' = f" "s' = on_sg (push_cur t f) (on_sg (set_young f ASYNC) s2)"
    by (auto simp: spd3_spawn_scope_def bind_r_Inr_iff)
  note L1 = spd3_link_child_lift(1)[OF l1] and L2 = spd3_link_child_lift(1)[OF l2, unfolded on_sg_simps]
  note D1 = link_child_InrD[OF L1 c]
  have "f \<le> last_allocated_node (set_young c FINISH (sg s1))" using D1 by simp
  note D2 = link_child_InrD[OF L2 this]
  have "type (tgraph_nodes (sg s2) f) = FINISH" using D1 D2 c by simp
  then show ?thesis
    using False L1 L2 by (simp add: spawn_scope_def e Let_def)
qed

lemma spd3_SpawnOnly_lift:
  assumes sc: "scopes_ok (sg s)" and "spd3_CaptureSpawnOnly t k s = Inr s'"
  shows "CaptureSpawnOnly t k (sg s) = Inr (sg s')"
proof -
  from assms(2) obtain c c' n s1 s2 s3 where top: "top_cur t (sg s) = Inr c" and
    "spd3_spawn_scope t k c s = Inr (c', n, s1)" "spd3_add_step n s1 = Inr s2"
    "spd3_add_step c' s2 = Inr s3" "spd3_remember k n s3 = Inr s'"
    by (auto simp: spd3_CaptureSpawnOnly_def bind_r_Inr_iff)
  moreover have "c \<le> last_allocated_node (sg s)"
    using top_cur_live[OF sc top] by (simp add: live_scope_def scope_def)
  ultimately show ?thesis
    using spd3_spawn_scope_lift spd3_add_step_lift(1) spd3_remember_lift(1) top
    by (simp add: CaptureSpawnOnly_def)
qed

lemma spd3_SpawnAndWait_lift:
  assumes "spd3_CaptureSpawnAndWait t k s = Inr s'"
  shows "CaptureSpawnAndWait t k (sg s) = Inr (sg s')"
proof -
  from assms obtain c f s1 s2 where "top_cur t (sg s) = Inr c" and l: "spd3_link_child FINISH k c s = Inr (f, s1)"
    and a: "spd3_add_step f (spd3_set_flag f True (on_sg (set_young c FINISH) s1)) = Inr s2"
    and "spd3_remember k f s2 = Inr s'"
    by (auto simp: spd3_CaptureSpawnAndWait_def bind_r_Inr_iff)
  then show ?thesis
    using spd3_link_child_lift(1)[OF l] spd3_add_step_lift(1)[OF a] spd3_remember_lift(1)
    by (simp add: CaptureSpawnAndWait_def)
qed

lemma spd3_SetTaskId_lift:
  "scopes_ok (sg s) \<Longrightarrow> spd3_CaptureSetTaskId t k b s = Inr s' \<Longrightarrow> CaptureSetTaskId t k b (sg s) = Inr (sg s')"
  using spd3_SpawnOnly_lift spd3_SpawnAndWait_lift
  by (simp add: spd3_CaptureSetTaskId_def CaptureSetTaskId_def split: if_splits)

lemma spd3_Execute_lift:
  assumes sc: "scopes_ok (sg s)" and e: "spd3_CaptureExecute t k s = Inr s'"
  shows "CaptureExecute t k (sg s) = Inr (sg s')" and "sp_root_n_wt_flag s' = sp_root_n_wt_flag s"
proof -
  from e obtain n where n: "temp_cur_map (sg s) k = Some n"
    by (auto simp: spd3_CaptureExecute_def assert_r_Inr_iff)
  then have "live_scope (sg s) n" using sc by (simp add: scopes_ok_def)
  note not_step = scopeD(3)[OF live_scopeD[OF this]]
  then show "CaptureExecute t k (sg s) = Inr (sg s')" "sp_root_n_wt_flag s' = sp_root_n_wt_flag s"
    using e n not_step by (auto simp: spd3_CaptureExecute_def CaptureExecute_def bind_r_Inr_iff
        assert_r_Inr_iff Let_def)
qed

lemma spd3_WaitOnly_lift:
  assumes sc: "scopes_ok (sg s)" and e: "spd3_CaptureWaitOnly t s = Inr s'"
  shows "CaptureWaitOnly t (sg s) = Inr (sg s')"
proof -
  let ?pop = "\<lambda>st g. g\<lparr>cur := (cur g)(t := st)\<rparr>"
  from e obtain x st c where st: "cur (sg s) t = x # st" "t < NUM_THREADS"
    and top: "top_cur t (?pop st (sg s)) = Inr c" and a: "spd3_add_step c (on_sg (?pop st) s) = Inr s'"
    by (auto simp: spd3_CaptureWaitOnly_def bind_r_Inr_iff Let_def)
  from top st(1) have "c \<in> set (cur (sg s) t)" "st \<noteq> []" by (auto simp: top_cur_def)
  then have "live_scope (sg s) c" using sc by (simp add: scopes_ok_def)
  note scopeD(3)[OF live_scopeD[OF this]]
  with st top \<open>st \<noteq> []\<close> spd3_add_step_lift(1)[OF a] show ?thesis
    by (simp add: CaptureWaitOnly_def Let_def)
qed

text \<open>\<open>CaptureReturn\<close> drops the scope that was never waited for, then does what \<open>tdebug-lib\<close> does.\<close>

lemma spd3_Return_lift:
  assumes "spd3_CaptureReturn t s = Inr s'"
  obtains g where "CaptureReturn t g = Inr (sg s')" and "sp_root_n_wt_flag s' = sp_root_n_wt_flag s"
    and "g = sg s \<or> (\<exists>c st. cur (sg s) t = c # st \<and> type (tgraph_nodes (sg s) c) = FINISH \<and>
      \<not> sp_root_n_wt_flag s c \<and> g = (sg s)\<lparr>cur := (cur (sg s))(t := st)\<rparr>)"
proof -
  let ?d = "\<lambda>c. type (tgraph_nodes (sg s) c) = FINISH \<and> \<not> sp_root_n_wt_flag s c"
  let ?ret = "\<lambda>ids st g. g\<lparr>tidToTaskIdMap := (tidToTaskIdMap g)(t := ids), cur := (cur g)(t := st)\<rparr>"
  from assms have t: "t < NUM_THREADS" and "tidToTaskIdMap (sg s) t \<noteq> []" "cur (sg s) t \<noteq> []"
    by (auto simp: spd3_CaptureReturn_def bind_r_Inr_iff top_cur_def)
  then obtain k ids c st where ids: "tidToTaskIdMap (sg s) t = k # ids" and c: "cur (sg s) t = c # st"
    by (meson neq_Nil_conv)
  have r: "bind_r (if ?d c then stack_pop (c # st) else Inr (c # st)) (\<lambda>st1. bind_r (stack_pop st1) (\<lambda>st2.
       Inr (on_sg (?ret ids st2) s))) = Inr s'"
    using assms t by (simp add: spd3_CaptureReturn_def top_cur_def ids c thread_slot_def cong: if_cong)
  define st1 where p1: "st1 = (if ?d c then st else c # st)"
  from r obtain y st2 where p2: "st1 = y # st2" and s': "s' = on_sg (?ret ids st2) s"
    by (cases "?d c") (auto simp: p1 bind_r_Inr_iff)
  let ?g = "(sg s)\<lparr>cur := (cur (sg s))(t := st1)\<rparr>"
  have "CaptureReturn t ?g = Inr (sg s')"
    using t ids p2 by (simp add: CaptureReturn_def Let_def s')
  moreover have "?g = sg s" if n: "\<not> ?d c"
  proof -
    have "st1 = cur (sg s) t" unfolding p1 using n c by simp
    then show ?thesis by (simp only: fun_upd_triv) simp
  qed
  moreover have "?g = (sg s)\<lparr>cur := (cur (sg s))(t := st)\<rparr>" if "?d c" using that p1 by simp
  moreover have "sp_root_n_wt_flag s' = sp_root_n_wt_flag s" by (simp add: s')
  ultimately show thesis using that[of ?g] c by (cases "?d c") auto
qed

section \<open>The invariant\<close>

lemma pop_step:
  assumes "core_ok g" and sc: "scopes_ok g" and "cur g t = c # st"
  shows "graph_step g (g\<lparr>cur := (cur g)(t := st)\<rparr>)"
proof (rule graph_step_stacks[OF assms(1)])
  show "live_scope g i" if "i \<in> set (cur (g\<lparr>cur := (cur g)(t := st)\<rparr>) t')" for t' i
  proof -
    have "i \<in> set (cur g t')" using that assms(3) by (auto split: if_splits)
    with sc show ?thesis by (auto simp: scopes_ok_def)
  qed
qed (use sc in \<open>auto simp: scopes_ok_def\<close>)

text \<open>What a handler owes the invariant; \<open>k\<close> is the task number it may use.\<close>

definition keeps :: "nat \<Rightarrow> AFTaskGraph \<Rightarrow> AFTaskGraph \<Rightarrow> bool" where
  "keeps k g g' \<longleftrightarrow> graph_step g g' \<and> g_tasks_ok g' \<and>
     (\<forall>j. j \<noteq> k \<longrightarrow> fresh_id g j \<longrightarrow> fresh_id g' j)"

lemma spd3_handlers_keep:
  assumes core: "core_ok (sg s)" and sc: "scopes_ok (sg s)" and k: "g_tasks_ok (sg s)"
  shows "fresh_id (sg s) j \<Longrightarrow> spd3_CaptureSetTaskId t j b s = Inr s' \<Longrightarrow> keeps j (sg s) (sg s')"
    and "spd3_CaptureExecute t j s = Inr s' \<Longrightarrow> keeps j (sg s) (sg s')"
    and "spd3_CaptureWaitOnly t s = Inr s' \<Longrightarrow> keeps j (sg s) (sg s')"
    and "spd3_CaptureReturn t s = Inr s' \<Longrightarrow> keeps j (sg s) (sg s')"
proof -
  show "keeps j (sg s) (sg s')" if f: "fresh_id (sg s) j" and e: "spd3_CaptureSetTaskId t j b s = Inr s'"
    unfolding keeps_def
    using CaptureSetTaskId_step[OF core sc spd3_SetTaskId_lift[OF sc e]]
      CaptureSetTaskId_tasks[OF core sc k f spd3_SetTaskId_lift[OF sc e]]
      CaptureSetTaskId_fresh[OF core sc spd3_SetTaskId_lift[OF sc e]] by blast
  show "keeps j (sg s) (sg s')" if e: "spd3_CaptureExecute t j s = Inr s'"
    unfolding keeps_def
    using CaptureExecute_step[OF core sc spd3_Execute_lift(1)[OF sc e]]
      CaptureExecute_tasks[OF k spd3_Execute_lift(1)[OF sc e]]
      CaptureExecute_fresh[OF spd3_Execute_lift(1)[OF sc e]] by simp
  show "keeps j (sg s) (sg s')" if e: "spd3_CaptureWaitOnly t s = Inr s'"
    unfolding keeps_def
    using CaptureWaitOnly_step[OF core sc spd3_WaitOnly_lift[OF sc e]]
      CaptureWaitOnly_tasks[OF core sc k spd3_WaitOnly_lift[OF sc e]]
      CaptureWaitOnly_fresh[OF sc spd3_WaitOnly_lift[OF sc e]] by blast
  show "keeps j (sg s) (sg s')" if e: "spd3_CaptureReturn t s = Inr s'"
  proof -
    obtain g where r: "CaptureReturn t g = Inr (sg s')"
      and g: "g = sg s \<or> (\<exists>c st. cur (sg s) t = c # st \<and> type (tgraph_nodes (sg s) c) = FINISH \<and>
        \<not> sp_root_n_wt_flag s c \<and> g = (sg s)\<lparr>cur := (cur (sg s))(t := st)\<rparr>)"
      by (rule spd3_Return_lift[OF e])
    have "graph_step (sg s) (sg s)"
      using core sc by (simp add: graph_step_def)
    then have gs: "graph_step (sg s) g" and same: "tgraph_nodes g = tgraph_nodes (sg s)"
      "last_allocated_node g = last_allocated_node (sg s)"
      using g pop_step[OF core sc] by auto
    note D = graph_stepD[OF gs]
    have "graph_step g (sg s')" by (rule CaptureReturn_step[OF D(1,2) r])
    then have "graph_step (sg s) (sg s')" by (rule graph_step_trans[OF gs])
    moreover have "g_tasks_ok (sg s')" using CaptureReturn_tasks[OF _ r] k same by simp
    moreover have "fresh_id (sg s') = fresh_id (sg s)"
      using CaptureReturn_fresh[OF r] fresh_id_fields[OF same] by simp
    ultimately show ?thesis by (simp add: keeps_def)
  qed
qed

section \<open>The assertions hold\<close>

lemma spd3_walk_up_eq:
  assumes "walk_up nds a b = Inr (l, Some x, Some y)"
  shows "spd3_walk_up nds a b = Inr (l, Some x, Some y)"
proof -
  have m: "meet nds c pc c pr = Some (c, pc, pr)" for c pc pr by (simp add: meet.simps)
  show ?thesis
    using assms unfolding walk_up_def spd3_walk_up_def
    by (auto simp: bind_r_Inr_iff assert_r_Inr_iff m split: if_splits)
qed

lemma spd3_parallel_steps:
  assumes wf: "wf_graph g" and a: "step_node g a" and b: "step_node g b" and ne: "a \<noteq> b"
  shows "spd3_parallel a b g = parallel a b g"
proof -
  note t = wf_tree[OF wf]
  obtain l x y where f: "fork (tgraph_nodes g) (last_allocated_node g) a b l x y"
    using steps_fork[OF t] a b ne by blast
  note F = fork_facts[OF t f]
  obtain l' x' y' where w: "walk_up (tgraph_nodes g) a b = Inr (l', Some x', Some y')"
    and f': "fork (tgraph_nodes g) (last_allocated_node g) a b l' x' y'"
    using walk_up_fork[OF t _ _ F(8,9)] a b by blast
  have "seq_num (tgraph_nodes g y') \<noteq> seq_num (tgraph_nodes g x')"
    using sibs_seq[OF t, of x' y'] f' by (auto simp: fork_def)
  then show ?thesis
    by (cases "lca_tab g")
      (simp_all add: spd3_parallel_def parallel_def w spd3_walk_up_eq[OF w] Let_def split: ParallelStatus.split)
qed

end
