(* ===== verification/Spd3_Detector.thy ===== *)
theory Spd3_Detector
  imports Spd3_Graph Detector_Sound
begin

text \<open>
  The detector of \<open>spd3-lib\<close> (\<open>spd3-lib/src/DR_Detector.cpp\<close>): locks are ignored, a shadow cell
  keeps the last write and two reads. \<open>RecordAccess\<close> and the lock and task hooks have empty
  bodies there.
\<close>

record spd3_cell =
  wr_task :: "nat option"
  rd1_task :: "nat option"
  rd2_task :: "nat option"

record spd3_detector =
  s_graph :: spd3_graph
  s_shadow :: "nat \<Rightarrow> (nat \<Rightarrow> spd3_cell) option"
  s_mapped :: "nat \<Rightarrow> bool"
  s_violations :: "addr \<rightharpoonup> violation"

definition zero_spd3_cell :: spd3_cell where
  "zero_spd3_cell = \<lparr>wr_task = None, rd1_task = None, rd2_task = None\<rparr>"

definition spd3_TD_Activate ::
    "bool \<Rightarrow> bool \<Rightarrow> bool \<Rightarrow> nat \<Rightarrow> (nat \<Rightarrow> nat list) \<Rightarrow> (nat \<Rightarrow> bool) \<Rightarrow> spd3_detector result" where
  "spd3_TD_Activate graph_mmap_ok malloc_ok shadow_mmap_ok base tids pages =
     bind_r (new_spd3_graph graph_mmap_ok malloc_ok base tids) (\<lambda>g.
       assert_r shadow_mmap_ok AssertFail
         (Inr \<lparr>s_graph = g, s_shadow = (\<lambda>_. None), s_mapped = pages, s_violations = Map.empty\<rparr>))"

definition spd3_exceptions :: "nat \<Rightarrow> addr \<Rightarrow> spd3_detector \<Rightarrow> bool result" where
  "spd3_exceptions threadid addr d =
     thread_slot threadid
       (case tidToTaskIdMap (sg (s_graph d)) threadid of
          [] \<Rightarrow> Inr True
        | k # _ \<Rightarrow> Inr (k = 0 \<or> s_violations d addr \<noteq> None))"

section \<open>One access\<close>

text \<open>\<open>areParallel(tidToTaskIdMap[threadid].top(), p, threadid)\<close> for a pointer that may be \<open>NULL\<close>.\<close>

definition spd3_par :: "nat \<Rightarrow> nat option \<Rightarrow> spd3_detector \<Rightarrow> (bool \<times> spd3_detector) result" where
  "spd3_par threadid p d =
     (case p of
        None \<Rightarrow> Inr (False, d)
      | Some r \<Rightarrow>
          bind_r (stack_top (tidToTaskIdMap (sg (s_graph d)) threadid)) (\<lambda>k.
          bind_r (spd3_areParallel k r threadid (sg (s_graph d))) (\<lambda>(b, g).
            Inr (b, d\<lparr>s_graph := on_sg (\<lambda>_. g) (s_graph d)\<rparr>))))"

definition spd3_check ::
    "nat \<Rightarrow> addr \<Rightarrow> AccessType \<Rightarrow> nat option \<Rightarrow> AccessType \<Rightarrow> spd3_detector \<Rightarrow> (bool \<times> spd3_detector) result" where
  "spd3_check threadid addr ty p prior d =
     bind_r (spd3_par threadid p d) (\<lambda>(b, d1).
       if b then
         bind_r (spd3_getCurTask threadid (s_graph d1)) (\<lambda>c.
         bind_r (deref_r p) (\<lambda>r.
           Inr (True, d1\<lparr>s_violations := map_insert (s_violations d1) addr
             \<lparr>a1 = \<lparr>v_task = c, v_access = ty\<rparr>, a2 = \<lparr>v_task = r, v_access = prior\<rparr>\<rparr>\<rparr>)))
       else Inr (False, d1))"

definition spd3_checks :: "nat \<Rightarrow> addr \<Rightarrow> AccessType \<Rightarrow> spd3_cell \<Rightarrow> spd3_detector \<Rightarrow> spd3_detector result" where
  "spd3_checks threadid addr ty c d =
     bind_r (spd3_check threadid addr ty (wr_task c) WRITE d) (\<lambda>(_, d1).
       if ty = WRITE then
         bind_r (spd3_check threadid addr ty (rd1_task c) READ d1) (\<lambda>(b, d2).
           if b then Inr d2
           else bind_r (spd3_check threadid addr ty (rd2_task c) READ d2) (\<lambda>(_, d3). Inr d3))
       else Inr d1)"

definition spd3_update :: "nat \<Rightarrow> AccessType \<Rightarrow> spd3_cell \<Rightarrow> spd3_detector \<Rightarrow> (spd3_cell \<times> spd3_detector) result" where
  "spd3_update threadid ty c d =
     (let cur = spd3_getCurTask threadid (s_graph d) in
      if ty = WRITE then bind_r cur (\<lambda>s. Inr (c\<lparr>wr_task := Some s\<rparr>, d))
      else case rd1_task c of
        None \<Rightarrow> bind_r cur (\<lambda>s. Inr (c\<lparr>rd1_task := Some s\<rparr>, d))
      | Some x \<Rightarrow>
          (case rd2_task c of
             None \<Rightarrow> bind_r cur (\<lambda>s. Inr (c\<lparr>rd2_task := Some s\<rparr>, d))
           | Some y \<Rightarrow>
               bind_r (spd3_par threadid (rd1_task c) d) (\<lambda>(cur_r1, d1).
               bind_r (spd3_par threadid (rd2_task c) d1) (\<lambda>(cur_r2, d2).
                 if \<not> cur_r1 \<and> \<not> cur_r2 then
                   bind_r (spd3_getCurTask threadid (s_graph d2)) (\<lambda>s.
                     Inr (c\<lparr>rd1_task := Some s, rd2_task := None\<rparr>, d2))
                 else if cur_r1 \<and> cur_r2 then
                   bind_r (spd3_getCurTask threadid (s_graph d2)) (\<lambda>s.
                   bind_r (spd3_LCA x y (sg (s_graph d2))) (\<lambda>lca12.
                   bind_r (spd3_LCA x s (sg (s_graph d2))) (\<lambda>lca1s.
                     Inr (if depth (tgraph_nodes (sg (s_graph d2)) lca1s)
                            < depth (tgraph_nodes (sg (s_graph d2)) lca12)
                          then c\<lparr>rd1_task := Some s\<rparr> else c, d2))))
                 else Inr (c, d2)))))"

definition spd3_open_page :: "addr \<Rightarrow> spd3_detector \<Rightarrow> ((nat \<Rightarrow> spd3_cell) \<times> spd3_detector) result" where
  "spd3_open_page addr d =
     (case s_shadow d (primary_index addr) of
        Some page \<Rightarrow> Inr (page, d)
      | None \<Rightarrow>
          assert_r (s_mapped d (primary_index addr)) NullDeref
            (let page = (\<lambda>_. zero_spd3_cell) in
             Inr (page, d\<lparr>s_shadow := (s_shadow d)(primary_index addr := Some page)\<rparr>)))"

definition spd3_store_cell :: "addr \<Rightarrow> spd3_cell \<Rightarrow> spd3_detector \<Rightarrow> spd3_detector" where
  "spd3_store_cell addr c d =
     d\<lparr>s_shadow := (s_shadow d)(primary_index addr :=
        map_option (\<lambda>page. page(cell_offset addr := c)) (s_shadow d (primary_index addr)))\<rparr>"

definition spd3_RecordMem :: "nat \<Rightarrow> addr \<Rightarrow> AccessType \<Rightarrow> spd3_detector \<Rightarrow> spd3_detector result" where
  "spd3_RecordMem threadid addr ty d =
     bind_r (spd3_exceptions threadid addr d) (\<lambda>skip.
       if skip then Inr d
       else
         bind_r (spd3_open_page addr d) (\<lambda>(page, d1).
         let c = page (cell_offset addr) in
         bind_r (spd3_checks threadid addr ty c d1) (\<lambda>d2.
         bind_r (spd3_update threadid ty c d2) (\<lambda>(c', d3).
           Inr (spd3_store_cell addr c' d3)))))"

text \<open>The hooks that have empty bodies.\<close>

definition spd3_RecordAccess ::
    "nat \<Rightarrow> addr \<Rightarrow> addr list \<Rightarrow> addr list \<Rightarrow> AccessType \<Rightarrow> spd3_detector \<Rightarrow> spd3_detector" where
  "spd3_RecordAccess threadid addr locks_acq locks_rel ty d = d"

section \<open>Runs\<close>

text \<open>
  The calls of the instrumented program, with the thread number that \<open>get_cur_tid\<close> gives
  (see \<open>Runtime\<close>; \<open>exec_calls.cpp\<close> and \<open>t_debug_task.h\<close> are the same files in both
  libraries). Task numbers come from \<open>++task_id_ctr\<close>.
\<close>

record spd3_runtime =
  s_det :: spd3_detector
  s_task_id_ctr :: nat

datatype spd3_call =
    S_Begin nat nat
  | S_End nat
  | S_Spawn nat int
  | S_Wait nat
  | S_Mem nat addr AccessType

definition spd3_on_graph :: "(spd3_graph \<Rightarrow> spd3_graph result) \<Rightarrow> spd3_runtime \<Rightarrow> spd3_runtime result" where
  "spd3_on_graph f r =
     bind_r (f (s_graph (s_det r))) (\<lambda>g. Inr (r\<lparr>s_det := (s_det r)\<lparr>s_graph := g\<rparr>\<rparr>))"

fun spd3_do_call :: "spd3_call \<Rightarrow> spd3_runtime \<Rightarrow> spd3_runtime result" where
  "spd3_do_call (S_Begin t k) r = spd3_on_graph (spd3_CaptureExecute t k) r"
| "spd3_do_call (S_End t) r = spd3_on_graph (spd3_CaptureReturn t) r"
| "spd3_do_call (S_Spawn t b) r =
     (let k = s_task_id_ctr r + 1 in
      spd3_on_graph (spd3_CaptureSetTaskId t k b) (r\<lparr>s_task_id_ctr := k\<rparr>))"
| "spd3_do_call (S_Wait t) r = spd3_on_graph (spd3_CaptureWaitOnly t) r"
| "spd3_do_call (S_Mem t addr ty) r =
     bind_r (spd3_RecordMem t addr ty (s_det r)) (\<lambda>d. Inr (r\<lparr>s_det := d\<rparr>))"

fun spd3_run :: "spd3_call list \<Rightarrow> spd3_runtime \<Rightarrow> spd3_runtime result" where
  "spd3_run [] r = Inr r"
| "spd3_run (c # cs) r = bind_r (spd3_do_call c r) (spd3_run cs)"

definition spd3_start :: "spd3_detector \<Rightarrow> spd3_runtime" where
  "spd3_start d = \<lparr>s_det = d, s_task_id_ctr = 0\<rparr>"

inductive spd3_reachable :: "spd3_runtime \<Rightarrow> bool" where
  init: "spd3_TD_Activate True True True base (\<lambda>_. []) pages = Inr d \<Longrightarrow> spd3_reachable (spd3_start d)"
| call: "spd3_reachable r \<Longrightarrow> spd3_do_call c r = Inr r' \<Longrightarrow> spd3_reachable r'"

lemma spd3_run_reachable: "spd3_run cs r = Inr r' \<Longrightarrow> spd3_reachable r \<Longrightarrow> spd3_reachable r'"
  by (induction cs arbitrary: r) (auto simp: bind_r_Inr_iff intro: spd3_reachable.call)

section \<open>Queries\<close>

text \<open>Node 0, the step of a scope that has none, is not a \<open>STEP\<close>, which the assertions rely on.\<close>

definition spd3_graph_ok :: "AFTaskGraph \<Rightarrow> bool" where
  "spd3_graph_ok g \<longleftrightarrow> graph_sound g \<and> type (tgraph_nodes g 0) = NO_TYPE"

lemma spd3_areParallel_sound:
  assumes g: "spd3_graph_ok g" and r: "step_node g r" and q: "spd3_areParallel k r t g = Inr (b, g')"
  shows "query_step g g' \<and> (b \<longrightarrow> (\<exists>s. at_step t g s \<and> step_node g s \<and> g_par g s r))"
proof -
  from g have wf: "wf_graph g" and tk: "g_tasks_ok g" by (simp_all add: spd3_graph_ok_def graph_sound_def)
  show ?thesis
  proof (cases "k = taskId (tgraph_nodes g r)")
    case True
    then show ?thesis using q query_step_refl[OF wf] by (simp add: spd3_areParallel_def)
  next
    case False
    with q obtain c where top: "top_cur t g = Inr c"
      and q1: "(if taskId (tgraph_nodes g c) = taskId (tgraph_nodes g r) then Inr (False, g)
        else assert_r (type (tgraph_nodes g (cur_step (tgraph_nodes g c))) = STEP) AssertFail
          (assert_r (type (tgraph_nodes g r) = STEP) AssertFail
            (spd3_parallel (cur_step (tgraph_nodes g c)) r g))) = Inr (b, g')"
      by (auto simp: spd3_areParallel_def bind_r_Inr_iff)
    show ?thesis
    proof (cases "taskId (tgraph_nodes g c) = taskId (tgraph_nodes g r)")
      case True
      then show ?thesis using q1 query_step_refl[OF wf] by simp
    next
      case id: False
      let ?s = "cur_step (tgraph_nodes g c)"
      from id q1 have ty: "type (tgraph_nodes g ?s) = STEP" and p: "spd3_parallel ?s r g = Inr (b, g')"
        by (auto simp: assert_r_Inr_iff)
      have ne: "?s \<noteq> 0"
      proof
        assume "?s = 0"
        with ty g show False by (simp add: spd3_graph_ok_def)
      qed
      have at: "at_step t g ?s" using top ne by (simp add: at_step_def getCurTask_def)
      have gs: "graph_sound g" using g by (simp add: spd3_graph_ok_def)
      note st = at_step_node[OF gs at]
      have "live_scope g c" using wf top top_cur_live by (auto simp: wf_graph_def)
      then have sp: "parent (tgraph_nodes g ?s) = c" "2 \<le> ?s"
        using wf ne by (auto simp: wf_graph_def core_ok_def step_ok_def live_scope_def scope_def)
      have "taskId (tgraph_nodes g ?s) = taskId (tgraph_nodes g c)"
        using tasks_step[OF tk sp(2)] st sp(1) by (simp add: node_def)
      then have ne2: "?s \<noteq> r" using id by auto
      obtain h where h: "parallel ?s r g = Inr (g_mhp g ?s r, h)" "query_step g h"
        by (rule parallel_steps[OF wf st r ne2])
      with p spd3_parallel_steps[OF wf st r ne2] have "b = g_mhp g ?s r" "g' = h" by simp_all
      then show ?thesis using h(2) at st ne2 by (auto simp: g_par_def)
    qed
  qed
qed

section \<open>Soundness\<close>

abbreviation s_tg :: "spd3_detector \<Rightarrow> AFTaskGraph" where
  "s_tg d \<equiv> sg (s_graph d)"

definition cell_steps :: "spd3_cell \<Rightarrow> nat set" where
  "cell_steps c = set_option (wr_task c) \<union> set_option (rd1_task c) \<union> set_option (rd2_task c)"

definition spd3_cell_at :: "addr \<Rightarrow> spd3_detector \<Rightarrow> spd3_cell" where
  "spd3_cell_at a d = (case s_shadow d (primary_index a) of
     None \<Rightarrow> zero_spd3_cell | Some page \<Rightarrow> page (cell_offset a))"

definition spd3_viols_ok :: "spd3_detector \<Rightarrow> bool" where
  "spd3_viols_ok d \<longleftrightarrow> (\<forall>a w. s_violations d a = Some w \<longrightarrow> genuine (s_tg d) (a1 w) w)"

definition spd3_cells_ok :: "spd3_detector \<Rightarrow> bool" where
  "spd3_cells_ok d \<longleftrightarrow> (\<forall>a. \<forall>r\<in>cell_steps (spd3_cell_at a d). step_node (s_tg d) r)"

definition spd3_sound :: "spd3_detector \<Rightarrow> bool" where
  "spd3_sound d \<longleftrightarrow> spd3_graph_ok (s_tg d) \<and> spd3_cells_ok d \<and> spd3_viols_ok d"

text \<open>Part of an access: only the memo table and the violations change, and those stay genuine.\<close>

definition spd3_part :: "spd3_detector \<Rightarrow> spd3_detector \<Rightarrow> bool" where
  "spd3_part d d' \<longleftrightarrow> query_step (s_tg d) (s_tg d') \<and> s_shadow d' = s_shadow d \<and>
     s_mapped d' = s_mapped d \<and> sp_root_n_wt_flag (s_graph d') = sp_root_n_wt_flag (s_graph d) \<and>
     (spd3_viols_ok d \<longrightarrow> spd3_viols_ok d')"

lemma spd3_part_trans: "spd3_part a b \<Longrightarrow> spd3_part b c \<Longrightarrow> spd3_part a c"
  using query_step_trans by (auto simp: spd3_part_def)

lemma spd3_part_refl: "wf_graph (s_tg d) \<Longrightarrow> spd3_part d d"
  using query_step_refl by (simp add: spd3_part_def)

lemma spd3_part_same:
  assumes p: "spd3_part d d'" and g: "spd3_graph_ok (s_tg d)"
  shows "spd3_graph_ok (s_tg d')" "wf_graph (s_tg d')" "genuine (s_tg d') = genuine (s_tg d)"
    "at_step t (s_tg d') = at_step t (s_tg d)" "step_node (s_tg d') r = step_node (s_tg d) r"
    "g_par (s_tg d') = g_par (s_tg d)"
proof -
  from p have q: "query_step (s_tg d) (s_tg d')" by (simp add: spd3_part_def)
  from g have gs: "graph_sound (s_tg d)" by (simp add: spd3_graph_ok_def)
  note S = query_step_sound[OF q gs] and F = query_step_fields[OF q]
  show "spd3_graph_ok (s_tg d')" using S(1) g F(2) by (simp add: spd3_graph_ok_def)
  show "wf_graph (s_tg d')" by (rule F(1))
  show "genuine (s_tg d') = genuine (s_tg d)" by (rule S(2))
  show "at_step t (s_tg d') = at_step t (s_tg d)" by (rule S(4))
  show "step_node (s_tg d') r = step_node (s_tg d) r" by (rule query_step_same(4)[OF q])
  show "g_par (s_tg d') = g_par (s_tg d)" by (rule query_step_same(1)[OF q])
qed

lemma spd3_getCurTask_at: "spd3_getCurTask t s = Inr c \<longleftrightarrow> at_step t (sg s) c"
  by (auto simp: spd3_getCurTask_def at_step_def getCurTask_def bind_r_Inr_iff assert_r_Inr_iff)

lemma spd3_par_sound:
  assumes g: "spd3_graph_ok (s_tg d)" and p: "\<forall>r\<in>set_option p. step_node (s_tg d) r"
    and q: "spd3_par t p d = Inr (b, d')"
  shows "spd3_part d d'" and "s_violations d' = s_violations d"
    and "b \<Longrightarrow> \<exists>r s. p = Some r \<and> at_step t (s_tg d) s \<and> step_node (s_tg d) s \<and> g_par (s_tg d) s r"
proof -
  have wf: "wf_graph (s_tg d)" using g by (simp add: spd3_graph_ok_def graph_sound_def)
  have "spd3_part d d' \<and> s_violations d' = s_violations d \<and>
    (b \<longrightarrow> (\<exists>r s. p = Some r \<and> at_step t (s_tg d) s \<and> step_node (s_tg d) s \<and> g_par (s_tg d) s r))"
  proof (cases p)
    case None
    then show ?thesis using q spd3_part_refl[OF wf] by (simp add: spd3_par_def)
  next
    case (Some r)
    with q obtain k g' where a: "spd3_areParallel k r t (s_tg d) = Inr (b, g')"
      and d': "d' = d\<lparr>s_graph := on_sg (\<lambda>_. g') (s_graph d)\<rparr>"
      by (auto simp: spd3_par_def bind_r_Inr_iff)
    have r: "step_node (s_tg d) r" using p Some by simp
    note A = spd3_areParallel_sound[OF g r a]
    have "graph_sound (s_tg d)" using g by (simp add: spd3_graph_ok_def)
    then have "genuine g' = genuine (s_tg d)" using query_step_sound(2) A by blast
    then have "spd3_part d d'" using A by (simp add: spd3_part_def d' spd3_viols_ok_def)
    then show ?thesis using A Some by (auto simp: d')
  qed
  then show "spd3_part d d'" "s_violations d' = s_violations d"
    "b \<Longrightarrow> \<exists>r s. p = Some r \<and> at_step t (s_tg d) s \<and> step_node (s_tg d) s \<and> g_par (s_tg d) s r" by auto
qed

lemma spd3_check_sound:
  assumes g: "spd3_graph_ok (s_tg d)" and p: "\<forall>r\<in>set_option p. step_node (s_tg d) r"
    and w: "ty = WRITE \<or> prior = WRITE" and c: "spd3_check t addr ty p prior d = Inr (b, d')"
  shows "spd3_part d d'"
proof -
  from c obtain b0 d1 where q: "spd3_par t p d = Inr (b0, d1)"
    and r: "(if b0 then bind_r (spd3_getCurTask t (s_graph d1)) (\<lambda>c. bind_r (deref_r p) (\<lambda>r.
           Inr (True, d1\<lparr>s_violations := map_insert (s_violations d1) addr
             \<lparr>a1 = \<lparr>v_task = c, v_access = ty\<rparr>, a2 = \<lparr>v_task = r, v_access = prior\<rparr>\<rparr>\<rparr>)))
       else Inr (False, d1)) = Inr (b, d')"
    by (auto simp: spd3_check_def bind_r_Inr_iff)
  note P = spd3_par_sound[OF g p q] and S = spd3_part_same[OF spd3_par_sound(1)[OF g p q] g]
  show ?thesis
  proof (cases b0)
    case False
    then show ?thesis using r P(1) by simp
  next
    case True
    from P(3)[OF True] obtain x s where x: "p = Some x" and s: "at_step t (s_tg d) s" "step_node (s_tg d) s"
      "g_par (s_tg d) s x" by blast
    from True r x obtain c' where c': "at_step t (s_tg d1) c'"
      and d': "d' = d1\<lparr>s_violations := map_insert (s_violations d1) addr
        \<lparr>a1 = \<lparr>v_task = c', v_access = ty\<rparr>, a2 = \<lparr>v_task = x, v_access = prior\<rparr>\<rparr>\<rparr>"
      by (auto simp: bind_r_Inr_iff spd3_getCurTask_at)
    have "c' = s" using c' s(1) S(4)[of t] by (simp add: at_step_def)
    then have "genuine (s_tg d) \<lparr>v_task = c', v_access = ty\<rparr>
        \<lparr>a1 = \<lparr>v_task = c', v_access = ty\<rparr>, a2 = \<lparr>v_task = x, v_access = prior\<rparr>\<rparr>"
      using s x p w by (auto simp: genuine_def)
    then have "spd3_viols_ok d1 \<longrightarrow> spd3_viols_ok d'"
      using S(3) by (auto simp: spd3_viols_ok_def d')
    then show ?thesis using P(1) by (simp add: spd3_part_def d')
  qed
qed

lemma spd3_checks_sound:
  assumes g: "spd3_graph_ok (s_tg d)" and p: "\<forall>r\<in>cell_steps c. step_node (s_tg d) r"
    and c: "spd3_checks t addr ty c d = Inr d'"
  shows "spd3_part d d'"
proof -
  from p have p: "\<forall>r\<in>set_option (wr_task c). step_node (s_tg d) r"
    "\<forall>r\<in>set_option (rd1_task c). step_node (s_tg d) r" "\<forall>r\<in>set_option (rd2_task c). step_node (s_tg d) r"
    by (auto simp: cell_steps_def)
  from c obtain b1 d1 where c1: "spd3_check t addr ty (wr_task c) WRITE d = Inr (b1, d1)"
    and r1: "(if ty = WRITE then bind_r (spd3_check t addr ty (rd1_task c) READ d1) (\<lambda>(b, d2).
           if b then Inr d2 else bind_r (spd3_check t addr ty (rd2_task c) READ d2) (\<lambda>(_, d3). Inr d3))
       else Inr d1) = Inr d'"
    by (auto simp: spd3_checks_def bind_r_Inr_iff)
  have P1: "spd3_part d d1" by (rule spd3_check_sound[OF g p(1) _ c1]) simp
  note S1 = spd3_part_same[OF P1 g]
  show ?thesis
  proof (cases "ty = WRITE")
    case False
    then show ?thesis using r1 P1 by simp
  next
    case True
    with r1 obtain b2 d2 where c2: "spd3_check t addr ty (rd1_task c) READ d1 = Inr (b2, d2)"
      and r2: "(if b2 then Inr d2 else bind_r (spd3_check t addr ty (rd2_task c) READ d2) (\<lambda>(_, d3). Inr d3)) = Inr d'"
      by (auto simp: bind_r_Inr_iff)
    have "spd3_part d1 d2" by (rule spd3_check_sound[OF S1(1) _ _ c2]) (use p S1(5) True in simp_all)
    then have P2: "spd3_part d d2" by (rule spd3_part_trans[OF P1])
    note S2 = spd3_part_same[OF P2 g]
    show ?thesis
    proof (cases b2)
      case True
      then show ?thesis using r2 P2 by simp
    next
      case False
      with r2 obtain b3 where c3: "spd3_check t addr ty (rd2_task c) READ d2 = Inr (b3, d')"
        by (auto simp: bind_r_Inr_iff)
      have "spd3_part d2 d'" by (rule spd3_check_sound[OF S2(1) _ _ c3]) (use p S2(5) True in simp_all)
      then show ?thesis by (rule spd3_part_trans[OF P2])
    qed
  qed
qed

lemma spd3_update_sound:
  assumes g: "spd3_graph_ok (s_tg d)" and p: "\<forall>r\<in>cell_steps c. step_node (s_tg d) r"
    and u: "spd3_update t ty c d = Inr (c', d')"
  shows "spd3_part d d'" and "s_violations d' = s_violations d"
    and "\<forall>r\<in>cell_steps c'. r \<in> cell_steps c \<or> at_step t (s_tg d) r"
proof -
  have wf: "wf_graph (s_tg d)" using g by (simp add: spd3_graph_ok_def graph_sound_def)
  note refl = spd3_part_refl[OF wf]
  have "spd3_part d d' \<and> s_violations d' = s_violations d \<and>
    (\<forall>r\<in>cell_steps c'. r \<in> cell_steps c \<or> at_step t (s_tg d) r)"
  proof (cases "ty = WRITE \<or> rd1_task c = None \<or> rd2_task c = None")
    case True
    then show ?thesis
      using u refl
      by (auto simp: spd3_update_def Let_def bind_r_Inr_iff spd3_getCurTask_at cell_steps_def
          split: if_splits option.splits)
  next
    case False
    then obtain x y where xy: "rd1_task c = Some x" "rd2_task c = Some y" and ty: "ty \<noteq> WRITE" by auto
    with u obtain b1 d1 b2 d2 where q1: "spd3_par t (rd1_task c) d = Inr (b1, d1)"
      and q2: "spd3_par t (rd2_task c) d1 = Inr (b2, d2)"
      and r: "(if \<not> b1 \<and> \<not> b2 then
                   bind_r (spd3_getCurTask t (s_graph d2)) (\<lambda>s.
                     Inr (c\<lparr>rd1_task := Some s, rd2_task := None\<rparr>, d2))
                 else if b1 \<and> b2 then
                   bind_r (spd3_getCurTask t (s_graph d2)) (\<lambda>s.
                   bind_r (spd3_LCA x y (s_tg d2)) (\<lambda>lca12.
                   bind_r (spd3_LCA x s (s_tg d2)) (\<lambda>lca1s.
                     Inr (if depth (tgraph_nodes (s_tg d2) lca1s) < depth (tgraph_nodes (s_tg d2) lca12)
                          then c\<lparr>rd1_task := Some s\<rparr> else c, d2))))
                 else Inr (c, d2)) = Inr (c', d')"
      by (auto simp: spd3_update_def Let_def bind_r_Inr_iff)
    have p1: "\<forall>r\<in>set_option (rd1_task c). step_node (s_tg d) r"
      and p2: "\<forall>r\<in>set_option (rd2_task c). step_node (s_tg d) r"
      using p by (auto simp: cell_steps_def)
    note P1 = spd3_par_sound[OF g p1 q1]
    note S1 = spd3_part_same[OF P1(1) g]
    have "\<forall>r\<in>set_option (rd2_task c). step_node (s_tg d1) r" using p2 S1(5) by blast
    note P2 = spd3_par_sound[OF S1(1) this q2]
    note P = spd3_part_trans[OF P1(1) P2(1)]
    note S = spd3_part_same[OF P g]
    have d': "d' = d2" using r by (auto simp: bind_r_Inr_iff split: if_splits)
    have "\<forall>r\<in>cell_steps c'. r \<in> cell_steps c \<or> at_step t (s_tg d2) r"
      using r by (auto simp: bind_r_Inr_iff spd3_getCurTask_at cell_steps_def split: if_splits)
    then show ?thesis using P P1(2) P2(2) S(4)[of t] by (simp add: d')
  qed
  then show "spd3_part d d'" "s_violations d' = s_violations d"
    "\<forall>r\<in>cell_steps c'. r \<in> cell_steps c \<or> at_step t (s_tg d) r" by auto
qed

lemma spd3_open_page_InrD:
  assumes "spd3_open_page addr d = Inr (page, d1)"
  shows "page (cell_offset addr) = spd3_cell_at addr d" "spd3_cell_at a d1 = spd3_cell_at a d"
    "s_shadow d1 (primary_index addr) = Some page" "\<exists>ss. d1 = d\<lparr>s_shadow := ss\<rparr>"
proof -
  have "page (cell_offset addr) = spd3_cell_at addr d \<and> spd3_cell_at a d1 = spd3_cell_at a d \<and>
    s_shadow d1 (primary_index addr) = Some page \<and> (\<exists>ss. d1 = d\<lparr>s_shadow := ss\<rparr>)"
  proof (cases "s_shadow d (primary_index addr)")
    case (Some pg)
    have "\<exists>ss. d = d\<lparr>s_shadow := ss\<rparr>" by (rule exI[of _ "s_shadow d"]) simp
    with Some assms show ?thesis by (simp add: spd3_open_page_def spd3_cell_at_def)
  next
    case None
    with assms show ?thesis
      by (auto simp: spd3_open_page_def spd3_cell_at_def assert_r_Inr_iff Let_def)
  qed
  then show "page (cell_offset addr) = spd3_cell_at addr d" "spd3_cell_at a d1 = spd3_cell_at a d"
    "s_shadow d1 (primary_index addr) = Some page" "\<exists>ss. d1 = d\<lparr>s_shadow := ss\<rparr>" by auto
qed

lemma spd3_cell_at_store:
  assumes "s_shadow d (primary_index addr) = Some page"
  shows "spd3_cell_at a (spd3_store_cell addr c d) =
    (if cell_key a = cell_key addr then c else spd3_cell_at a d)"
  using assms by (auto simp: spd3_cell_at_def spd3_store_cell_def cell_key_def split: option.splits)

lemma spd3_RecordMem_sound:
  assumes d: "spd3_sound d" and m: "spd3_RecordMem t addr ty d = Inr d'"
  shows "spd3_sound d'" and "query_step (s_tg d) (s_tg d')"
    and "sp_root_n_wt_flag (s_graph d') = sp_root_n_wt_flag (s_graph d)"
proof -
  from d have g: "spd3_graph_ok (s_tg d)" and vs: "spd3_viols_ok d"
    and cells: "\<And>a. \<forall>r\<in>cell_steps (spd3_cell_at a d). step_node (s_tg d) r"
    by (auto simp: spd3_sound_def spd3_cells_ok_def)
  have "spd3_sound d' \<and> query_step (s_tg d) (s_tg d') \<and>
    sp_root_n_wt_flag (s_graph d') = sp_root_n_wt_flag (s_graph d)"
  proof (cases "spd3_exceptions t addr d = Inr True")
    case True
    then have "d' = d" using m by (simp add: spd3_RecordMem_def)
    then show ?thesis using d g query_step_refl by (simp add: spd3_graph_ok_def graph_sound_def)
  next
    case False
    with m obtain page d1 where op: "spd3_open_page addr d = Inr (page, d1)"
      and m1: "bind_r (spd3_checks t addr ty (page (cell_offset addr)) d1) (\<lambda>d2.
           bind_r (spd3_update t ty (page (cell_offset addr)) d2) (\<lambda>(c', d3).
             Inr (spd3_store_cell addr c' d3))) = Inr d'"
      by (auto simp: spd3_RecordMem_def bind_r_Inr_iff Let_def split: if_splits)
    note O = spd3_open_page_InrD[OF op]
    from O(4) obtain ss where d1: "d1 = d\<lparr>s_shadow := ss\<rparr>" by blast
    from m1 obtain d2 d3 c' where c: "spd3_checks t addr ty (spd3_cell_at addr d) d1 = Inr d2"
      and u: "spd3_update t ty (spd3_cell_at addr d) d2 = Inr (c', d3)" and d': "d' = spd3_store_cell addr c' d3"
      by (auto simp: bind_r_Inr_iff O(1))
    have g1: "spd3_graph_ok (s_tg d1)" using g by (simp add: d1)
    have p1: "spd3_part d1 d2" by (rule spd3_checks_sound[OF g1 _ c]) (use cells d1 in simp)
    note S1 = spd3_part_same[OF p1 g1]
    have st2: "\<forall>r\<in>cell_steps (spd3_cell_at addr d). step_node (s_tg d2) r"
      using cells S1(5) by (simp add: d1)
    note U = spd3_update_sound[OF S1(1) st2 u]
    note P = spd3_part_trans[OF p1 U(1)]
    note S = spd3_part_same[OF P g1]
    have g2: "graph_sound (s_tg d2)" using S1(1) by (simp add: spd3_graph_ok_def)
    have steps: "\<forall>r\<in>cell_steps c'. step_node (s_tg d3) r"
    proof
      fix r
      assume "r \<in> cell_steps c'"
      with U(3) consider "r \<in> cell_steps (spd3_cell_at addr d)" | "at_step t (s_tg d2) r" by blast
      then have "step_node (s_tg d2) r" using at_step_node[OF g2] st2 by cases auto
      then show "step_node (s_tg d3) r" using S1(5) S(5) by blast
    qed
    have page: "s_shadow d3 (primary_index addr) = Some page" and cell3: "spd3_cell_at a d3 = spd3_cell_at a d" for a
      using P O(2,3) by (simp_all add: spd3_part_def spd3_cell_at_def)
    have cell: "spd3_cell_at a d' = (if cell_key a = cell_key addr then c' else spd3_cell_at a d)" for a
      using spd3_cell_at_store[OF page, of a c'] cell3 by (simp add: d')
    have tg: "s_tg d' = s_tg d3" "s_violations d' = s_violations d3" "s_graph d' = s_graph d3"
      by (simp_all add: d' spd3_store_cell_def)
    have "spd3_cells_ok d'"
      unfolding spd3_cells_ok_def tg
    proof
      fix a
      show "\<forall>r\<in>cell_steps (spd3_cell_at a d'). step_node (s_tg d3) r"
        using steps cells[of a] S(5) d1 unfolding cell by (cases "cell_key a = cell_key addr") auto
    qed
    moreover have "spd3_viols_ok d3" using P vs by (simp add: spd3_part_def d1 spd3_viols_ok_def)
    then have "spd3_viols_ok d'" by (simp add: spd3_viols_ok_def tg)
    ultimately show ?thesis using S(1) P by (simp add: spd3_sound_def spd3_part_def tg d1)
  qed
  then show "spd3_sound d'" "query_step (s_tg d) (s_tg d')"
    "sp_root_n_wt_flag (s_graph d') = sp_root_n_wt_flag (s_graph d)" by auto
qed

end
