(* ===== verification/Spd3_Runs.thy ===== *)
theory Spd3_Runs
  imports Spd3_Detector
begin

text \<open>
  The runs of \<open>spd3-lib\<close>: the invariant of every reachable state, and the task stacks, which a
  task leaves as it found them even when it returns without waiting for what it spawned.
\<close>

section \<open>What the elementary operations leave alone\<close>

text \<open>The fields of node \<open>j\<close> that the stack discipline looks at.\<close>

definition same_node :: "spd3_graph \<Rightarrow> spd3_graph \<Rightarrow> nat \<Rightarrow> bool" where
  "same_node s s' j \<longleftrightarrow> type (tgraph_nodes (sg s') j) = type (tgraph_nodes (sg s) j) \<and>
     young_ns_child (tgraph_nodes (sg s') j) = young_ns_child (tgraph_nodes (sg s) j) \<and>
     sp_root_n_wt_flag s' j = sp_root_n_wt_flag s j"

lemma same_node_trans: "same_node a b j \<Longrightarrow> same_node b c j \<Longrightarrow> same_node a c j"
  by (simp add: same_node_def)

lemma same_node_refl [simp]: "same_node s s j"
  by (simp add: same_node_def)

lemma spd3_link_child_old:
  assumes l: "spd3_link_child ty k p s = Inr (i, s')" and p: "p \<le> last_allocated_node (sg s)"
  shows "i = Suc (last_allocated_node (sg s))" "last_allocated_node (sg s') = Suc (last_allocated_node (sg s))"
    "\<And>j. j \<le> last_allocated_node (sg s) \<Longrightarrow> same_node s s' j"
    "type (tgraph_nodes (sg s') i) = ty" "young_ns_child (tgraph_nodes (sg s') i) = NO_TYPE"
    "\<not> sp_root_n_wt_flag s' i" "cur (sg s') = cur (sg s)" "temp_cur_map (sg s') = temp_cur_map (sg s)"
    "tidToTaskIdMap (sg s') = tidToTaskIdMap (sg s)"
proof -
  note L = spd3_link_child_lift[OF l]
  note D = link_child_InrD[OF L(1) p]
  show "i = Suc (last_allocated_node (sg s))" "last_allocated_node (sg s') = Suc (last_allocated_node (sg s))"
    "cur (sg s') = cur (sg s)" "temp_cur_map (sg s') = temp_cur_map (sg s)"
    "tidToTaskIdMap (sg s') = tidToTaskIdMap (sg s)" by (fact D)+
  show "same_node s s' j" if "j \<le> last_allocated_node (sg s)" for j
    using that by (simp add: same_node_def D L(2))
  show "type (tgraph_nodes (sg s') i) = ty" "young_ns_child (tgraph_nodes (sg s') i) = NO_TYPE"
    "\<not> sp_root_n_wt_flag s' i" using p by (simp_all add: D L(2))
qed

lemma spd3_add_step_old:
  assumes a: "spd3_add_step p s = Inr s'" and p: "p \<le> last_allocated_node (sg s)"
  shows "last_allocated_node (sg s') = Suc (last_allocated_node (sg s))"
    "\<And>j. j \<le> last_allocated_node (sg s) \<Longrightarrow> same_node s s' j"
    "cur (sg s') = cur (sg s)" "temp_cur_map (sg s') = temp_cur_map (sg s)"
    "tidToTaskIdMap (sg s') = tidToTaskIdMap (sg s)"
proof -
  from a obtain i s1 where l: "spd3_link_child STEP (taskId (tgraph_nodes (sg s) p)) p s = Inr (i, s1)"
    and s': "s' = on_sg (set_cur_step p i) s1" by (auto simp: spd3_add_step_def bind_r_Inr_iff)
  note L = spd3_link_child_old[OF l p]
  show "last_allocated_node (sg s') = Suc (last_allocated_node (sg s))" "cur (sg s') = cur (sg s)"
    "temp_cur_map (sg s') = temp_cur_map (sg s)" "tidToTaskIdMap (sg s') = tidToTaskIdMap (sg s)"
    by (simp_all add: s' L)
  show "same_node s s' j" if "j \<le> last_allocated_node (sg s)" for j
    using L(3)[OF that] by (auto simp: same_node_def s' set_cur_step_def)
qed

lemma same_node_young: "j \<noteq> c \<Longrightarrow> same_node s (on_sg (set_young c ty) s) j"
  by (simp add: same_node_def set_young_def)

section \<open>The stack of a task\<close>

text \<open>
  \<open>in_body\<close>: the thread runs the body of node \<open>n\<close>, on top of \<open>st\<close>; it has not spawned yet, or
  the scope of its spawns is on top.
\<close>

definition task_node :: "spd3_graph \<Rightarrow> nat \<Rightarrow> bool" where
  "task_node s n \<longleftrightarrow> n \<le> last_allocated_node (sg s) \<and>
     (type (tgraph_nodes (sg s) n) = FINISH \<longrightarrow> sp_root_n_wt_flag s n)"

definition spawn_node :: "spd3_graph \<Rightarrow> nat \<Rightarrow> bool" where
  "spawn_node s f \<longleftrightarrow> f \<le> last_allocated_node (sg s) \<and> type (tgraph_nodes (sg s) f) = FINISH \<and>
     \<not> sp_root_n_wt_flag s f \<and> young_ns_child (tgraph_nodes (sg s) f) = ASYNC"

definition in_body :: "nat \<Rightarrow> nat \<Rightarrow> nat list \<Rightarrow> spd3_graph \<Rightarrow> bool" where
  "in_body t n st s \<longleftrightarrow> task_node s n \<and>
     ((cur (sg s) t = n # st \<and> young_ns_child (tgraph_nodes (sg s) n) \<noteq> ASYNC) \<or>
      (\<exists>f. cur (sg s) t = f # n # st \<and> spawn_node s f))"

lemma spd3_spawn_scope_old:
  assumes sp: "spd3_spawn_scope t k c s = Inr (c', n, s')" and c: "c \<le> last_allocated_node (sg s)"
  shows "last_allocated_node (sg s) < n" "n \<le> last_allocated_node (sg s')" "c' \<le> last_allocated_node (sg s')"
    "type (tgraph_nodes (sg s') n) = ASYNC" "young_ns_child (tgraph_nodes (sg s') n) = NO_TYPE"
    "\<not> sp_root_n_wt_flag s' n"
    "\<And>j. j \<le> last_allocated_node (sg s) \<Longrightarrow> j \<noteq> c \<Longrightarrow> same_node s s' j"
    "tidToTaskIdMap (sg s') = tidToTaskIdMap (sg s)" "temp_cur_map (sg s') = temp_cur_map (sg s)"
    "young_ns_child (tgraph_nodes (sg s) c) = ASYNC \<Longrightarrow> same_node s s' c \<and> cur (sg s') = cur (sg s)"
    "young_ns_child (tgraph_nodes (sg s) c) \<noteq> ASYNC \<Longrightarrow>
      cur (sg s') = (cur (sg s))(t := c' # cur (sg s) t) \<and> spawn_node s' c' \<and>
      type (tgraph_nodes (sg s') c) = type (tgraph_nodes (sg s) c) \<and>
      sp_root_n_wt_flag s' c = sp_root_n_wt_flag s c"
proof (atomize (full), cases "checkForStep (tgraph_nodes (sg s) c)", goal_cases)
  case 1
  then have y: "young_ns_child (tgraph_nodes (sg s) c) = ASYNC" by (simp add: checkForStep_def)
  from sp 1 obtain s1 where l: "spd3_link_child ASYNC k c s = Inr (n, s1)"
    and e: "c' = c" "s' = on_sg (set_young c ASYNC) s1"
    by (auto simp: spd3_spawn_scope_def bind_r_Inr_iff)
  note L = spd3_link_child_old[OF l c]
  have old: "same_node s s' j" if "j \<le> last_allocated_node (sg s)" for j
    using L(3)[OF that] y by (auto simp: same_node_def e set_young_def)
  show ?case using y L c old by (auto simp: e set_young_def)
next
  case 2
  then have y: "young_ns_child (tgraph_nodes (sg s) c) \<noteq> ASYNC" by (simp add: checkForStep_def)
  from sp 2 obtain f s1 s2 where l1: "spd3_link_child FINISH (taskId (tgraph_nodes (sg s) c)) c s = Inr (f, s1)"
    and l2: "spd3_link_child ASYNC k f (on_sg (set_young c FINISH) s1) = Inr (n, s2)"
    and e: "c' = f" "s' = on_sg (push_cur t f) (on_sg (set_young f ASYNC) s2)"
    by (auto simp: spd3_spawn_scope_def bind_r_Inr_iff)
  note L1 = spd3_link_child_old[OF l1 c]
  have "f \<le> last_allocated_node (sg (on_sg (set_young c FINISH) s1))" using L1 by simp
  note L2 = spd3_link_child_old[OF l2 this]
  have f: "same_node (on_sg (set_young c FINISH) s1) s2 f" by (rule L2(3)) (simp add: L1)
  have o: "same_node s s' j" if "j \<le> last_allocated_node (sg s)" "j \<noteq> c" for j
    using L1(3)[OF that(1)] L2(3)[of j] that L1(1,2) by (simp add: same_node_def e set_young_def)
  have "same_node s s1 c" "same_node (on_sg (set_young c FINISH) s1) s2 c"
    using L1(3)[OF c] L2(3)[of c] L1(1,2) c by simp_all
  then have oc: "type (tgraph_nodes (sg s') c) = type (tgraph_nodes (sg s) c)"
    "sp_root_n_wt_flag s' c = sp_root_n_wt_flag s c"
    using L1(1) c by (simp_all add: same_node_def e set_young_def)
  have "spawn_node s' c'"
    using f L1 L2(2) c by (simp add: spawn_node_def same_node_def e set_young_def)
  with y o oc show ?case
    using L1 L2 c by (simp add: e stack_push_def set_young_def)
qed

lemma spd3_SpawnOnly_old:
  assumes sp: "spd3_CaptureSpawnOnly t k s = Inr s'" and sc: "scopes_ok (sg s)"
  obtains c c' n s1 where "top_cur t (sg s) = Inr c" and "c \<le> last_allocated_node (sg s)"
    and "spd3_spawn_scope t k c s = Inr (c', n, s1)"
    and "\<forall>j. j \<le> last_allocated_node (sg s1) \<longrightarrow> same_node s1 s' j"
    and "last_allocated_node (sg s1) \<le> last_allocated_node (sg s')"
    and "cur (sg s') = cur (sg s1)" and "tidToTaskIdMap (sg s') = tidToTaskIdMap (sg s)"
    and "temp_cur_map (sg s') = (temp_cur_map (sg s))(k \<mapsto> n)"
proof -
  from sp obtain c c' n s1 s2 s3 where top: "top_cur t (sg s) = Inr c"
    and s1: "spd3_spawn_scope t k c s = Inr (c', n, s1)" and a1: "spd3_add_step n s1 = Inr s2"
    and a2: "spd3_add_step c' s2 = Inr s3" and r: "spd3_remember k n s3 = Inr s'"
    by (auto simp: spd3_CaptureSpawnOnly_def bind_r_Inr_iff)
  have c: "c \<le> last_allocated_node (sg s)"
    using top_cur_live[OF sc top] by (simp add: live_scope_def scope_def)
  note S = spd3_spawn_scope_old[OF s1 c]
  note A1 = spd3_add_step_old[OF a1 S(2)]
  have "c' \<le> last_allocated_node (sg s2)" using S(3) A1(1) by simp
  note A2 = spd3_add_step_old[OF a2 this]
  note R = spd3_remember_lift[OF r]
  have new: "temp_cur_map (sg s3) k = None" using r by (simp add: spd3_remember_def assert_r_Inr_iff)
  have same: "same_node s1 s' j" if j: "j \<le> last_allocated_node (sg s1)" for j
  proof -
    have "same_node s1 s2 j" "same_node s2 s3 j" using A1(1,2) A2(2) j by simp_all
    then show ?thesis by (simp add: same_node_def R)
  qed
  show thesis
    by (rule that[OF top c s1]) (use same A1 A2 S new in \<open>simp_all add: R map_insert_def\<close>)
qed

lemma spd3_SpawnOnly_body:
  assumes b: "in_body t n st s" and sp: "spd3_CaptureSpawnOnly t k s = Inr s'" and sc: "scopes_ok (sg s)"
  shows "in_body t n st s'" and "tidToTaskIdMap (sg s') = tidToTaskIdMap (sg s)"
proof -
  obtain c c' m s1 where top: "top_cur t (sg s) = Inr c" and c: "c \<le> last_allocated_node (sg s)"
    and s1: "spd3_spawn_scope t k c s = Inr (c', m, s1)"
    and same: "\<forall>j. j \<le> last_allocated_node (sg s1) \<longrightarrow> same_node s1 s' j"
    and last: "last_allocated_node (sg s1) \<le> last_allocated_node (sg s')"
    and cur: "cur (sg s') = cur (sg s1)" and tid: "tidToTaskIdMap (sg s') = tidToTaskIdMap (sg s)"
    by (rule spd3_SpawnOnly_old[OF sp sc])
  note S = spd3_spawn_scope_old[OF s1 c]
  have le: "last_allocated_node (sg s) \<le> last_allocated_node (sg s1)" using S(1,2) by simp
  from b have n: "n \<le> last_allocated_node (sg s)" by (simp add: in_body_def task_node_def)
  have st1: "same_node s1 s' n" using same n le by simp
  have "in_body t n st s'"
  proof (cases "cur (sg s) t = n # st \<and> young_ns_child (tgraph_nodes (sg s) n) \<noteq> ASYNC")
    case True
    with top have "c = n" by (auto simp: top_cur_def)
    with True S(11) have *: "cur (sg s1) t = c' # n # st" "spawn_node s1 c'"
      "type (tgraph_nodes (sg s1) n) = type (tgraph_nodes (sg s) n)"
      "sp_root_n_wt_flag s1 n = sp_root_n_wt_flag s n" by simp_all
    have "same_node s1 s' c'" using same S(3) by blast
    with * st1 b n le last cur show ?thesis
      by (auto simp: in_body_def task_node_def spawn_node_def same_node_def)
  next
    case False
    with b obtain f where f: "cur (sg s) t = f # n # st" "spawn_node s f" by (auto simp: in_body_def)
    with top have "c = f" by (auto simp: top_cur_def)
    with f S(10) have *: "same_node s s1 f" "cur (sg s1) = cur (sg s)" by (auto simp: spawn_node_def)
    have "same_node s1 s' f" using same f(2) le by (simp add: spawn_node_def)
    then have "same_node s s' f" by (rule same_node_trans[OF *(1)])
    moreover have "same_node s s1 n"
      using S(7)[OF n] *(1) \<open>c = f\<close> by (cases "n = f") auto
    then have "same_node s s' n" using st1 by (rule same_node_trans)
    ultimately show ?thesis
      using f b n le last cur *(2)
      by (auto simp: in_body_def task_node_def spawn_node_def same_node_def)
  qed
  then show "in_body t n st s'" "tidToTaskIdMap (sg s') = tidToTaskIdMap (sg s)" using tid by simp_all
qed

text \<open>Any number of spawns without a wait.\<close>

fun spawn_all :: "nat \<Rightarrow> nat list \<Rightarrow> spd3_graph \<Rightarrow> spd3_graph result" where
  "spawn_all t [] s = Inr s"
| "spawn_all t (k # ks) s = bind_r (spd3_CaptureSpawnOnly t k s) (spawn_all t ks)"

lemma spawn_all_body:
  assumes "in_body t n st s" and "spawn_all t ks s = Inr s'" and "core_ok (sg s)" and "scopes_ok (sg s)"
  shows "in_body t n st s' \<and> tidToTaskIdMap (sg s') = tidToTaskIdMap (sg s)"
  using assms
proof (induction ks arbitrary: s)
  case (Cons k ks)
  then obtain s1 where s1: "spd3_CaptureSpawnOnly t k s = Inr s1" "spawn_all t ks s1 = Inr s'"
    by (auto simp: bind_r_Inr_iff)
  note B = spd3_SpawnOnly_body[OF Cons.prems(1) s1(1) Cons.prems(4)]
  have "graph_step (sg s) (sg s1)"
    by (rule CaptureSpawnOnly_step[OF Cons.prems(3,4) spd3_SpawnOnly_lift[OF Cons.prems(4) s1(1)]])
  note D = graph_stepD[OF this]
  show ?case using Cons.IH[OF B(1) s1(2) D(1,2)] B(2) by simp
qed simp

lemma spd3_Return_body:
  assumes b: "in_body t n st s" and r: "spd3_CaptureReturn t s = Inr s'"
    and tid: "tidToTaskIdMap (sg s) t = k # ids"
  shows "cur (sg s') t = st" "tidToTaskIdMap (sg s') t = ids"
proof -
  have t: "t < NUM_THREADS" using r by (auto simp: spd3_CaptureReturn_def)
  have "cur (sg s') t = st \<and> tidToTaskIdMap (sg s') t = ids"
    using b unfolding in_body_def
  proof (elim conjE disjE exE)
    assume n: "task_node s n" "cur (sg s) t = n # st"
    then have "\<not> (type (tgraph_nodes (sg s) n) = FINISH \<and> \<not> sp_root_n_wt_flag s n)"
      by (auto simp: task_node_def)
    with n r t tid show ?thesis
      by (auto simp: spd3_CaptureReturn_def top_cur_def thread_slot_def cong: if_cong)
  next
    fix f
    assume f: "cur (sg s) t = f # n # st" "spawn_node s f"
    with r t tid show ?thesis
      by (auto simp: spd3_CaptureReturn_def top_cur_def thread_slot_def spawn_node_def cong: if_cong)
  qed
  then show "cur (sg s') t = st" "tidToTaskIdMap (sg s') t = ids" by auto
qed

lemma spd3_Execute_body:
  assumes e: "spd3_CaptureExecute t k s = Inr s'" and n: "temp_cur_map (sg s) k = Some n"
    and "task_node s n" and "young_ns_child (tgraph_nodes (sg s) n) \<noteq> ASYNC"
  shows "in_body t n (cur (sg s) t) s'"
    and "tidToTaskIdMap (sg s') t = taskId (tgraph_nodes (sg s) n) # tidToTaskIdMap (sg s) t"
  using e n assms(3,4)
  by (auto simp: spd3_CaptureExecute_def in_body_def task_node_def bind_r_Inr_iff assert_r_Inr_iff
      Let_def stack_push_def)

lemma spd3_SetTaskId_node:
  assumes sp: "spd3_CaptureSetTaskId t k b s = Inr s'" and sc: "scopes_ok (sg s)"
  obtains n where "temp_cur_map (sg s') k = Some n" and "task_node s' n"
    and "young_ns_child (tgraph_nodes (sg s') n) \<noteq> ASYNC"
proof (cases "b = 0")
  case False
  then have sp: "spd3_CaptureSpawnOnly t k s = Inr s'" using sp by (simp add: spd3_CaptureSetTaskId_def)
  obtain c c' n s1 where top: "top_cur t (sg s) = Inr c" and c: "c \<le> last_allocated_node (sg s)"
    and s1: "spd3_spawn_scope t k c s = Inr (c', n, s1)"
    and same: "\<forall>j. j \<le> last_allocated_node (sg s1) \<longrightarrow> same_node s1 s' j"
    and last: "last_allocated_node (sg s1) \<le> last_allocated_node (sg s')"
    and m: "temp_cur_map (sg s') = (temp_cur_map (sg s))(k \<mapsto> n)"
    by (rule spd3_SpawnOnly_old[OF sp sc])
  note S = spd3_spawn_scope_old[OF s1 c]
  have "same_node s1 s' n" using same S(2) by blast
  with S last m show thesis
    by (intro that[of n]) (auto simp: task_node_def same_node_def)
next
  case True
  with sp obtain c f s1 s2 where top: "top_cur t (sg s) = Inr c"
    and l: "spd3_link_child FINISH k c s = Inr (f, s1)"
    and a: "spd3_add_step f (spd3_set_flag f True (on_sg (set_young c FINISH) s1)) = Inr s2"
    and r: "spd3_remember k f s2 = Inr s'"
    by (auto simp: spd3_CaptureSetTaskId_def spd3_CaptureSpawnAndWait_def bind_r_Inr_iff)
  have c: "c \<le> last_allocated_node (sg s)"
    using top_cur_live[OF sc top] by (simp add: live_scope_def scope_def)
  note L = spd3_link_child_old[OF l c]
  let ?s1 = "spd3_set_flag f True (on_sg (set_young c FINISH) s1)"
  have f: "f \<le> last_allocated_node (sg ?s1)" using L by simp
  note A = spd3_add_step_old[OF a f] and R = spd3_remember_lift[OF r]
  have "same_node ?s1 s2 f" using A(2) f by blast
  moreover have "temp_cur_map (sg s2) k = None" using r by (simp add: spd3_remember_def assert_r_Inr_iff)
  ultimately show thesis
    using L c A(1) by (intro that[of f]) (auto simp: R map_insert_def task_node_def same_node_def set_young_def)
qed

section \<open>The invariant of every run\<close>

text \<open>The handlers do not write node 0.\<close>

lemma link_child_zero:
  assumes "link_child ty k p g = Inr (i, g')" and "p \<noteq> 0" and "p \<le> last_allocated_node g"
  shows "type (tgraph_nodes g' 0) = type (tgraph_nodes g 0)"
  using assms(2) by (simp add: link_child_InrD[OF assms(1,3)])

lemma add_step_zero:
  assumes a: "add_step p g = Inr g'" and p: "scope g p"
  shows "type (tgraph_nodes g' 0) = type (tgraph_nodes g 0)"
proof -
  from a obtain s g1 where l: "link_child STEP (taskId (tgraph_nodes g p)) p g = Inr (s, g1)"
    and g': "g' = set_cur_step p s g1" by (auto simp: add_step_def bind_r_Inr_iff)
  from link_child_zero[OF l] scopeD(1,2)[OF p] show ?thesis by (simp add: g')
qed

lemma spawn_scope_zero:
  assumes core: "core_ok g" and c: "scope g c" and s: "spawn_scope t k c g = Inr (c', n, g')"
  shows "type (tgraph_nodes g' 0) = type (tgraph_nodes g 0)"
proof (cases "checkForStep (tgraph_nodes g c)")
  case True
  with s obtain g1 where l: "link_child ASYNC k c g = Inr (n, g1)" and g': "g' = set_young c ASYNC g1"
    by (auto simp: spawn_scope_def bind_r_Inr_iff)
  from link_child_zero[OF l] scopeD(1,2)[OF c] show ?thesis by (simp add: g')
next
  case False
  with s obtain f g1 g2 where
    l1: "link_child FINISH (taskId (tgraph_nodes g c)) c g = Inr (f, g1)" and
    l2: "link_child ASYNC k f (set_young c FINISH g1) = Inr (n, g2)" and
    e: "g' = push_cur t f (set_young f ASYNC g2)"
    by (auto simp: spawn_scope_def bind_r_Inr_iff assert_r_Inr_iff Let_def)
  note L1 = link_child_scope[OF core c l1]
  have "type (tgraph_nodes g1 0) = type (tgraph_nodes g 0)"
    using link_child_zero[OF l1] scopeD(1,2)[OF c] by simp
  moreover have "type (tgraph_nodes g2 0) = type (tgraph_nodes (set_young c FINISH g1) 0)"
    by (rule link_child_zero[OF l2]) (use L1(4) in \<open>auto simp: scope_def\<close>)
  ultimately show ?thesis by (simp add: e)
qed

lemma CaptureSetTaskId_zero:
  assumes core: "core_ok g" and sc: "scopes_ok g" and s: "CaptureSetTaskId t k b g = Inr g'"
  shows "type (tgraph_nodes g' 0) = type (tgraph_nodes g 0)"
proof (cases "b = 0")
  case False
  with s obtain c c' n g1 g2 g3 where top: "top_cur t g = Inr c" and
    s1: "spawn_scope t k c g = Inr (c', n, g1)" and a1: "add_step n g1 = Inr g2" and
    a2: "add_step c' g2 = Inr g3" and
    g': "g' = g3\<lparr>temp_cur_map := map_insert (temp_cur_map g3) k n\<rparr>"
    by (auto simp: CaptureSetTaskId_def CaptureSpawnOnly_def bind_r_Inr_iff)
  note c = live_scopeD[OF top_cur_live[OF sc top]]
  note S = spawn_scope_InrD[OF core c s1]
  note A = add_step_InrD[OF a1 S(1) S(4)]
  show ?thesis
    using spawn_scope_zero[OF core c s1] add_step_zero[OF a1 S(4)]
      add_step_zero[OF a2 grows_scope[OF A(2) S(3)]] by (simp add: g')
next
  case True
  with s obtain c f g1 g2 where top: "top_cur t g = Inr c" and
    l: "link_child FINISH k c g = Inr (f, g1)" and a: "add_step f (set_young c FINISH g1) = Inr g2" and
    g': "g' = g2\<lparr>temp_cur_map := map_insert (temp_cur_map g2) k f\<rparr>"
    by (auto simp: CaptureSetTaskId_def CaptureSpawnAndWait_def bind_r_Inr_iff)
  note c = live_scopeD[OF top_cur_live[OF sc top]]
  note L = link_child_scope[OF core c l]
  have "scope (set_young c FINISH g1) f" using L(4) by simp
  from add_step_zero[OF a this] link_child_zero[OF l] scopeD(1,2)[OF c] show ?thesis by (simp add: g')
qed

lemma CaptureExecute_zero: "CaptureExecute t k g = Inr g' \<Longrightarrow> tgraph_nodes g' = tgraph_nodes g"
  by (auto simp: CaptureExecute_def bind_r_Inr_iff assert_r_Inr_iff Let_def)

lemma CaptureReturn_zero: "CaptureReturn t g = Inr g' \<Longrightarrow> tgraph_nodes g' = tgraph_nodes g"
  by (auto simp: CaptureReturn_def bind_r_Inr_iff assert_r_Inr_iff Let_def)

lemma CaptureWaitOnly_zero:
  assumes core: "core_ok g" and sc: "scopes_ok g" and s: "CaptureWaitOnly t g = Inr g'"
  shows "type (tgraph_nodes g' 0) = type (tgraph_nodes g 0)"
proof -
  from s obtain x st c where st: "cur g t = x # st"
    and top: "top_cur t (g\<lparr>cur := (cur g)(t := st)\<rparr>) = Inr c"
    and a: "add_step c (g\<lparr>cur := (cur g)(t := st)\<rparr>) = Inr g'"
    by (auto simp: CaptureWaitOnly_def bind_r_Inr_iff assert_r_Inr_iff Let_def)
  note D = graph_stepD[OF pop_step[OF core sc st]]
  from add_step_zero[OF a live_scopeD[OF top_cur_live[OF D(2) top]]] show ?thesis by simp
qed

definition spd3_sys_ok :: "spd3_runtime \<Rightarrow> bool" where
  "spd3_sys_ok r \<longleftrightarrow> spd3_sound (s_det r) \<and>
     (\<forall>k. s_task_id_ctr r < k \<longrightarrow> fresh_id (s_tg (s_det r)) k)"

lemma spd3_sound_grows:
  assumes d: "spd3_sound d" and gs: "graph_step (s_tg d) (sg g')" and k: "g_tasks_ok (sg g')"
    and z: "type (tgraph_nodes (sg g') 0) = type (tgraph_nodes (s_tg d) 0)"
  shows "spd3_sound (d\<lparr>s_graph := g'\<rparr>)"
proof -
  from d have wf: "wf_graph (s_tg d)" by (simp add: spd3_sound_def spd3_graph_ok_def graph_sound_def)
  have "genuine (sg g') acc v" if "genuine (s_tg d) acc v" for acc v
    using that graph_step_step_node[OF gs] g_par_grows[OF wf gs] by (auto simp: genuine_def)
  moreover have "spd3_cell_at a (d\<lparr>s_graph := g'\<rparr>) = spd3_cell_at a d" for a
    by (simp add: spd3_cell_at_def)
  ultimately show ?thesis
    using d k graph_step_wf[OF wf gs] graph_step_step_node[OF gs] z
    by (auto simp: spd3_sound_def spd3_graph_ok_def graph_sound_def spd3_viols_ok_def spd3_cells_ok_def)
qed

lemma spd3_on_graph_ok:
  assumes r: "spd3_sys_ok r" and s: "spd3_on_graph f r = Inr r'"
    and f: "\<And>g'. f (s_graph (s_det r)) = Inr g' \<Longrightarrow> keeps j (s_tg (s_det r)) (sg g') \<and>
      type (tgraph_nodes (sg g') 0) = type (tgraph_nodes (s_tg (s_det r)) 0)"
    and j: "j \<le> s_task_id_ctr r"
  shows "spd3_sys_ok r'"
proof -
  from s obtain g' where g: "f (s_graph (s_det r)) = Inr g'"
    and r': "r' = r\<lparr>s_det := (s_det r)\<lparr>s_graph := g'\<rparr>\<rparr>"
    by (auto simp: spd3_on_graph_def bind_r_Inr_iff)
  from f[OF g] have K: "graph_step (s_tg (s_det r)) (sg g')" "g_tasks_ok (sg g')"
    "\<And>k. k \<noteq> j \<Longrightarrow> fresh_id (s_tg (s_det r)) k \<Longrightarrow> fresh_id (sg g') k"
    "type (tgraph_nodes (sg g') 0) = type (tgraph_nodes (s_tg (s_det r)) 0)"
    by (auto simp: keeps_def)
  from r have "spd3_sound (s_det r)" by (simp add: spd3_sys_ok_def)
  from spd3_sound_grows[OF this K(1,2,4)] r K(3) j show ?thesis
    by (auto simp: spd3_sys_ok_def r')
qed

lemma spd3_soundD:
  assumes "spd3_sound d"
  shows "core_ok (s_tg d)" "scopes_ok (s_tg d)" "g_tasks_ok (s_tg d)" "wf_graph (s_tg d)"
  using assms by (auto simp: spd3_sound_def spd3_graph_ok_def graph_sound_def wf_graph_def)

lemma spd3_sys_ok_call:
  assumes r: "spd3_sys_ok r" and c: "spd3_do_call c r = Inr r'"
  shows "spd3_sys_ok r'"
proof -
  from r have d: "spd3_sound (s_det r)" by (simp add: spd3_sys_ok_def)
  note D = spd3_soundD[OF d]
  note keep = spd3_handlers_keep[OF D(1-3)]
  show ?thesis
  proof (cases c)
    case (S_Begin t k)
    with c have s: "spd3_on_graph (spd3_CaptureExecute t k) r = Inr r'" by simp
    have "keeps 0 (s_tg (s_det r)) (sg g') \<and>
        type (tgraph_nodes (sg g') 0) = type (tgraph_nodes (s_tg (s_det r)) 0)"
      if "spd3_CaptureExecute t k (s_graph (s_det r)) = Inr g'" for g'
      using keep(2)[OF that] CaptureExecute_zero[OF spd3_Execute_lift(1)[OF D(2) that]]
        CaptureExecute_fresh[OF spd3_Execute_lift(1)[OF D(2) that]] by (simp add: keeps_def)
    then show ?thesis by (rule spd3_on_graph_ok[OF r s]) simp_all
  next
    case (S_End t)
    with c have s: "spd3_on_graph (spd3_CaptureReturn t) r = Inr r'" by simp
    have "keeps 0 (s_tg (s_det r)) (sg g') \<and>
        type (tgraph_nodes (sg g') 0) = type (tgraph_nodes (s_tg (s_det r)) 0)"
      if e: "spd3_CaptureReturn t (s_graph (s_det r)) = Inr g'" for g'
    proof -
      obtain g where "CaptureReturn t g = Inr (sg g')" and "tgraph_nodes g = tgraph_nodes (s_tg (s_det r))"
        by (rule spd3_Return_lift[OF e]) auto
      then show ?thesis using keep(4)[OF e] CaptureReturn_zero by simp
    qed
    then show ?thesis by (rule spd3_on_graph_ok[OF r s]) simp_all
  next
    case (S_Spawn t b)
    let ?k = "s_task_id_ctr r + 1" and ?r = "r\<lparr>s_task_id_ctr := s_task_id_ctr r + 1\<rparr>"
    from c S_Spawn have s: "spd3_on_graph (spd3_CaptureSetTaskId t ?k b) ?r = Inr r'" by simp
    have r1: "spd3_sys_ok ?r" using r by (simp add: spd3_sys_ok_def)
    have fr: "fresh_id (s_tg (s_det r)) ?k" using r by (simp add: spd3_sys_ok_def)
    have "keeps ?k (s_tg (s_det ?r)) (sg g') \<and>
        type (tgraph_nodes (sg g') 0) = type (tgraph_nodes (s_tg (s_det ?r)) 0)"
      if e: "spd3_CaptureSetTaskId t ?k b (s_graph (s_det ?r)) = Inr g'" for g'
      using keep(1)[OF fr] e CaptureSetTaskId_zero[OF D(1,2) spd3_SetTaskId_lift[OF D(2)]] by simp
    then show ?thesis by (rule spd3_on_graph_ok[OF r1 s]) simp_all
  next
    case (S_Wait t)
    with c have s: "spd3_on_graph (spd3_CaptureWaitOnly t) r = Inr r'" by simp
    have "keeps 0 (s_tg (s_det r)) (sg g') \<and>
        type (tgraph_nodes (sg g') 0) = type (tgraph_nodes (s_tg (s_det r)) 0)"
      if e: "spd3_CaptureWaitOnly t (s_graph (s_det r)) = Inr g'" for g'
      using keep(3)[OF e] CaptureWaitOnly_zero[OF D(1,2) spd3_WaitOnly_lift[OF D(2) e]] by simp
    then show ?thesis by (rule spd3_on_graph_ok[OF r s]) simp_all
  next
    case (S_Mem t addr ty)
    with c obtain d' where m: "spd3_RecordMem t addr ty (s_det r) = Inr d'" and r': "r' = r\<lparr>s_det := d'\<rparr>"
      by (auto simp: bind_r_Inr_iff)
    note M = spd3_RecordMem_sound[OF d m]
    have "fresh_id (s_tg d') = fresh_id (s_tg (s_det r))"
      by (rule fresh_id_fields) (use query_step_fields[OF M(2)] in auto)
    with r M(1) show ?thesis by (simp add: spd3_sys_ok_def r')
  qed
qed

lemma new_spd3_graph_lift:
  assumes "new_spd3_graph mmap_ok malloc_ok base tids = Inr s"
  shows "new_AFTaskGraph mmap_ok malloc_ok base tids = Inr (sg s)"
    and "type (tgraph_nodes (sg s) 0) = NO_TYPE"
  using assms
  by (auto simp: new_spd3_graph_def new_AFTaskGraph_def spd3_create_node_def create_node_def
      spd3_initialize_task_def initialize_task_def empty_graph_def zero_task_def upd_node_def Let_def
      bind_r_Inr_iff assert_r_Inr_iff)

lemma spd3_sys_ok_start:
  assumes "spd3_TD_Activate True True True base (\<lambda>_. []) pages = Inr d"
  shows "spd3_sys_ok (spd3_start d)"
proof -
  from assms obtain s where s: "new_spd3_graph True True base (\<lambda>_. []) = Inr s"
    and d: "d = \<lparr>s_graph = s, s_shadow = (\<lambda>_. None), s_mapped = pages, s_violations = Map.empty\<rparr>"
    by (auto simp: spd3_TD_Activate_def bind_r_Inr_iff)
  note G = new_spd3_graph_lift[OF s]
  note N = new_AFTaskGraph_ok[OF G(1)]
  have "g_tasks_ok (sg s)" using N(6,7) by (auto simp: tasks_ok_def node_def)
  moreover have "\<forall>k. 0 < k \<longrightarrow> fresh_id (sg s) k"
    using N(6,7) by (auto simp: fresh_id_def node_def zero_task_def)
  ultimately show ?thesis
    using G(2) new_AFTaskGraph_wf[OF G(1)]
    by (simp add: spd3_sys_ok_def spd3_start_def d spd3_sound_def spd3_graph_ok_def graph_sound_def
        spd3_cells_ok_def spd3_viols_ok_def spd3_cell_at_def zero_spd3_cell_def cell_steps_def)
qed

lemma spd3_reachable_ok: "spd3_reachable r \<Longrightarrow> spd3_sys_ok r"
  by (induction rule: spd3_reachable.induct) (blast intro: spd3_sys_ok_start spd3_sys_ok_call)+

end
