(* ===== verification/Spd3_Checks.thy ===== *)
theory Spd3_Checks
  imports Spd3_Runs Detector_Checks
begin

text \<open>
  One access of the SPD3 detector by a thread that runs a task, as pure functions of the shadow
  cell: which accesses it reports (\<open>cell_races\<close>) and what the cell remembers (\<open>next_cell\<close>).
  Over a sequence of accesses to a cell, the remembered write stands for all the writes.
\<close>

definition cell_races :: "(nat \<Rightarrow> nat \<Rightarrow> bool) \<Rightarrow> nat \<Rightarrow> AccessType \<Rightarrow> spd3_cell \<Rightarrow> bool" where
  "cell_races par s ty c \<longleftrightarrow> par_opt par s (wr_task c) \<or>
     (ty = WRITE \<and> (par_opt par s (rd1_task c) \<or> par_opt par s (rd2_task c)))"

definition next_cell ::
    "(nat \<Rightarrow> nat \<Rightarrow> bool) \<Rightarrow> (nat \<Rightarrow> nat \<Rightarrow> nat) \<Rightarrow> nat \<Rightarrow> AccessType \<Rightarrow> spd3_cell \<Rightarrow> spd3_cell" where
  "next_cell par lev s ty c =
     (if ty = WRITE then c\<lparr>wr_task := Some s\<rparr>
      else case (rd1_task c, rd2_task c) of
        (None, _) \<Rightarrow> c\<lparr>rd1_task := Some s\<rparr>
      | (Some x, None) \<Rightarrow> c\<lparr>rd2_task := Some s\<rparr>
      | (Some x, Some y) \<Rightarrow>
          if \<not> par s x \<and> \<not> par s y then c\<lparr>rd1_task := Some s, rd2_task := None\<rparr>
          else if par s x \<and> par s y \<and> lev x s < lev x y then c\<lparr>rd1_task := Some s\<rparr>
          else c)"

section \<open>Queries of a running thread\<close>

text \<open>The assertions of \<open>spd3_areParallel\<close> hold for a running thread, so it answers as
  \<open>areParallel\<close> does.\<close>

lemma spd3_areParallel_running:
  assumes run: "running t s g" and r: "step_node g r" and k: "tidToTaskIdMap g t = k # ks"
  obtains g' where "spd3_areParallel k r t g = Inr (g_par g s r, g')" and "query_step g g'"
proof -
  from run obtain c where wf: "wf_graph g" and tk: "g_tasks_ok g" and top: "top_cur t g = Inr c"
    and c: "c \<noteq> 1" and s: "s = cur_step (tgraph_nodes g c)" and kc: "k = taskId (tgraph_nodes g c)"
    using k by (auto simp: running_def)
  have st: "step_node g s" by (rule running_step(1)[OF run])
  obtain g' where a: "areParallel k r t g = Inr (g_par g s r, g')" and q: "query_step g g'"
    by (rule areParallel_steps[OF wf tk top c r kc]) (simp add: s g_par_def)
  have "spd3_areParallel k r t g = areParallel k r t g"
  proof (cases "k = taskId (tgraph_nodes g r)")
    case True
    then show ?thesis by (simp add: spd3_areParallel_def areParallel_def)
  next
    case False
    have "live_scope g c" using wf top top_cur_live by (auto simp: wf_graph_def)
    moreover have "s \<noteq> 0" using st by (auto simp: node_def)
    ultimately have "parent (tgraph_nodes g s) = c" "2 \<le> s"
      using wf s by (auto simp: wf_graph_def core_ok_def step_ok_def live_scope_def scope_def)
    then have "taskId (tgraph_nodes g s) = k"
      using tasks_step[OF tk, of s] st kc by (simp add: node_def)
    then have "s \<noteq> r" using False by auto
    then show ?thesis
      using False top kc s st r spd3_parallel_steps[OF wf st r]
      by (simp add: spd3_areParallel_def areParallel_def)
  qed
  with a q that show thesis by simp
qed

lemma spd3_LCA_eq: "spd3_LCA = LCA"
  by (simp add: fun_eq_iff spd3_LCA_def LCA_def)

text \<open>The state of a thread inside a task other than the main one.\<close>

definition s_running :: "nat \<Rightarrow> nat \<Rightarrow> spd3_detector \<Rightarrow> bool" where
  "s_running t s d \<longleftrightarrow> running t s (s_tg d) \<and> t < NUM_THREADS \<and> hd (tidToTaskIdMap (s_tg d) t) \<noteq> 0"

text \<open>What a query leaves alone.\<close>

definition s_query :: "spd3_detector \<Rightarrow> spd3_detector \<Rightarrow> bool" where
  "s_query d d' \<longleftrightarrow> query_step (s_tg d) (s_tg d') \<and> s_shadow d' = s_shadow d \<and>
     s_mapped d' = s_mapped d"

lemma s_query_trans: "s_query a b \<Longrightarrow> s_query b c \<Longrightarrow> s_query a c"
  using query_step_trans by (auto simp: s_query_def)

lemma s_query_same:
  assumes "s_query d d'"
  shows "g_par (s_tg d') = g_par (s_tg d)" "step_node (s_tg d') r = step_node (s_tg d) r"
    "s_running t s d \<Longrightarrow> s_running t s d'" "g_lev (s_tg d') = g_lev (s_tg d)"
proof -
  from assms have q: "query_step (s_tg d) (s_tg d')" by (simp add: s_query_def)
  note Q = query_step_same[OF q] and F = query_step_fields[OF q]
  show "g_par (s_tg d') = g_par (s_tg d)" "step_node (s_tg d') r = step_node (s_tg d) r"
    "g_lev (s_tg d') = g_lev (s_tg d)" by (rule Q)+
  show "s_running t s d \<Longrightarrow> s_running t s d'" using Q(5) F by (simp add: s_running_def)
qed

lemma s_running_top:
  assumes "s_running t s d"
  obtains k ks where "tidToTaskIdMap (s_tg d) t = k # ks" "k \<noteq> 0"
  using assms by (auto simp: s_running_def running_def)

lemma spd3_getCurTask_running:
  assumes "s_running t s d"
  shows "spd3_getCurTask t (s_graph d) = Inr s"
  using running_step(1,2)[of t s "s_tg d"] assms
  by (auto simp: spd3_getCurTask_at at_step_def s_running_def node_def)

lemma spd3_par_running:
  assumes run: "s_running t s d" and p: "\<forall>r\<in>set_option p. step_node (s_tg d) r"
  obtains d' where "spd3_par t p d = Inr (par_opt (g_par (s_tg d)) s p, d')" and "s_query d d'"
    and "s_violations d' = s_violations d"
proof (cases p)
  case None
  have "s_query d d" using run query_step_refl running_step(3) by (auto simp: s_query_def s_running_def)
  with None that[of d] show thesis by (simp add: spd3_par_def)
next
  case (Some r)
  obtain k ks where k: "tidToTaskIdMap (s_tg d) t = k # ks" by (rule s_running_top[OF run])
  have "running t s (s_tg d)" using run by (simp add: s_running_def)
  then obtain g' where "spd3_areParallel k r t (s_tg d) = Inr (g_par (s_tg d) s r, g')"
    "query_step (s_tg d) g'" using spd3_areParallel_running[OF _ _ k] p Some by auto
  with Some k that[of "d\<lparr>s_graph := on_sg (\<lambda>_. g') (s_graph d)\<rparr>"] show thesis
    by (simp add: spd3_par_def s_query_def)
qed

section \<open>One access\<close>

lemma spd3_check_running:
  assumes run: "s_running t s d" and p: "\<forall>r\<in>set_option p. step_node (s_tg d) r"
  obtains d' where "spd3_check t addr ty p prior d = Inr (par_opt (g_par (s_tg d)) s p, d')"
    and "s_query d d'"
    and "s_violations d' addr \<noteq> None \<longleftrightarrow> s_violations d addr \<noteq> None \<or> par_opt (g_par (s_tg d)) s p"
proof -
  obtain d1 where 1: "spd3_par t p d = Inr (par_opt (g_par (s_tg d)) s p, d1)" and q: "s_query d d1"
    and v: "s_violations d1 = s_violations d" by (rule spd3_par_running[OF run p])
  show thesis
  proof (cases "par_opt (g_par (s_tg d)) s p")
    case False
    with 1 q v that[of d1] show thesis by (simp add: spd3_check_def)
  next
    case True
    then obtain r where r: "p = Some r" by (cases p) auto
    let ?d = "d1\<lparr>s_violations := map_insert (s_violations d1) addr
      \<lparr>a1 = \<lparr>v_task = s, v_access = ty\<rparr>, a2 = \<lparr>v_task = r, v_access = prior\<rparr>\<rparr>\<rparr>"
    have "spd3_getCurTask t (s_graph d1) = Inr s"
      by (rule spd3_getCurTask_running) (rule s_query_same(3)[OF q run])
    then have "spd3_check t addr ty p prior d = Inr (True, ?d)"
      using 1 True r by (simp add: spd3_check_def)
    moreover have "s_query d ?d" using q by (simp add: s_query_def)
    moreover have "s_violations ?d addr \<noteq> None" by (simp add: map_insert_def split: option.split)
    ultimately show thesis using that[of ?d] True by simp
  qed
qed

lemma spd3_checks_running:
  assumes run: "s_running t s d" and p: "\<forall>r\<in>cell_steps c. step_node (s_tg d) r"
  obtains d' where "spd3_checks t addr ty c d = Inr d'" and "s_query d d'"
    and "s_violations d' addr \<noteq> None \<longleftrightarrow>
      s_violations d addr \<noteq> None \<or> cell_races (g_par (s_tg d)) s ty c"
proof -
  from p have p: "\<forall>r\<in>set_option (wr_task c). step_node (s_tg d) r"
    "\<forall>r\<in>set_option (rd1_task c). step_node (s_tg d) r" "\<forall>r\<in>set_option (rd2_task c). step_node (s_tg d) r"
    by (auto simp: cell_steps_def)
  let ?P = "par_opt (g_par (s_tg d)) s"
  obtain d1 where 1: "spd3_check t addr ty (wr_task c) WRITE d = Inr (?P (wr_task c), d1)" "s_query d d1"
    "s_violations d1 addr \<noteq> None \<longleftrightarrow> s_violations d addr \<noteq> None \<or> ?P (wr_task c)"
    by (rule spd3_check_running[OF run p(1)])
  show thesis
  proof (cases "ty = WRITE")
    case False
    with 1 that[of d1] show thesis by (simp add: spd3_checks_def cell_races_def)
  next
    case True
    note S1 = s_query_same[OF 1(2)]
    have p1: "\<forall>r\<in>set_option (rd1_task c). step_node (s_tg d1) r" using p(2) S1(2) by blast
    obtain d2 where 2: "spd3_check t addr ty (rd1_task c) READ d1 = Inr (?P (rd1_task c), d2)" "s_query d1 d2"
      "s_violations d2 addr \<noteq> None \<longleftrightarrow> s_violations d1 addr \<noteq> None \<or> ?P (rd1_task c)"
      by (rule spd3_check_running[OF S1(3)[OF run] p1, unfolded S1(1)])
    note q2 = s_query_trans[OF 1(2) 2(2)]
    note S2 = s_query_same[OF q2]
    have p2: "\<forall>r\<in>set_option (rd2_task c). step_node (s_tg d2) r" using p(3) S2(2) by blast
    obtain d3 where 3: "spd3_check t addr ty (rd2_task c) READ d2 = Inr (?P (rd2_task c), d3)" "s_query d2 d3"
      "s_violations d3 addr \<noteq> None \<longleftrightarrow> s_violations d2 addr \<noteq> None \<or> ?P (rd2_task c)"
      by (rule spd3_check_running[OF S2(3)[OF run] p2, unfolded S2(1)])
    note q3 = s_query_trans[OF q2 3(2)]
    show thesis
    proof (cases "?P (rd1_task c)")
      case True
      with \<open>ty = WRITE\<close> 1 2 q2 that[of d2] show thesis by (simp add: spd3_checks_def cell_races_def)
    next
      case False
      with \<open>ty = WRITE\<close> 1 2 3 q3 that[of d3] show thesis by (auto simp: spd3_checks_def cell_races_def)
    qed
  qed
qed

lemma spd3_update_running:
  assumes run: "s_running t s d" and p: "\<forall>r\<in>cell_steps c. step_node (s_tg d) r"
  obtains d' where "spd3_update t ty c d = Inr (next_cell (g_par (s_tg d)) (g_lev (s_tg d)) s ty c, d')"
    and "s_query d d'" and "s_violations d' = s_violations d"
proof (cases "ty = WRITE \<or> rd1_task c = None \<or> rd2_task c = None")
  case True
  have "s_query d d" using run query_step_refl running_step(3) by (auto simp: s_query_def s_running_def)
  moreover have "spd3_update t ty c d = Inr (next_cell (g_par (s_tg d)) (g_lev (s_tg d)) s ty c, d)"
    using True by (auto simp: spd3_update_def next_cell_def spd3_getCurTask_running[OF run] Let_def
        split: option.splits)
  ultimately show thesis using that by blast
next
  case False
  then obtain x y where xy: "rd1_task c = Some x" "rd2_task c = Some y" and ty: "ty \<noteq> WRITE" by auto
  with p have px: "\<forall>r\<in>set_option (rd1_task c). step_node (s_tg d) r"
    and py: "\<forall>r\<in>set_option (rd2_task c). step_node (s_tg d) r" by (auto simp: cell_steps_def)
  let ?P = "par_opt (g_par (s_tg d)) s"
  obtain d1 where 1: "spd3_par t (rd1_task c) d = Inr (?P (rd1_task c), d1)" "s_query d d1"
    "s_violations d1 = s_violations d" by (rule spd3_par_running[OF run px])
  note S1 = s_query_same[OF 1(2)]
  have "\<forall>r\<in>set_option (rd2_task c). step_node (s_tg d1) r" using py S1(2) by blast
  then obtain d2 where 2: "spd3_par t (rd2_task c) d1 = Inr (?P (rd2_task c), d2)" "s_query d1 d2"
    "s_violations d2 = s_violations d1"
    using spd3_par_running[OF S1(3)[OF run], of "rd2_task c"] S1(1) by metis
  note q = s_query_trans[OF 1(2) 2(2)]
  note S = s_query_same[OF q]
  note run2 = S(3)[OF run]
  have wf: "wf_graph (s_tg d2)" using run2 running_step(3) by (auto simp: s_running_def)
  have n: "node (last_allocated_node (s_tg d2)) x" "node (last_allocated_node (s_tg d2)) y"
    "node (last_allocated_node (s_tg d2)) s"
    using px py xy S(2) running_step(1) run2 by (auto simp: s_running_def)
  obtain l12 where l12: "LCA x y (s_tg d2) = Inr l12" "depth (tgraph_nodes (s_tg d2) l12) = g_lev (s_tg d2) x y"
    by (rule LCA_lev[OF wf n(1,2)])
  obtain l1s where l1s: "LCA x s (s_tg d2) = Inr l1s" "depth (tgraph_nodes (s_tg d2) l1s) = g_lev (s_tg d2) x s"
    by (rule LCA_lev[OF wf n(1,3)])
  have "spd3_update t ty c d = Inr (next_cell (g_par (s_tg d)) (g_lev (s_tg d)) s ty c, d2)"
    using 1 2 xy ty l12 l1s S(4) spd3_getCurTask_running[OF run2]
    by (simp add: spd3_update_def next_cell_def spd3_LCA_eq)
  with q 1(3) 2(3) that show thesis by simp
qed

text \<open>
  A whole access: it returns, records a violation exactly when the cell shows a race, and
  leaves \<open>next_cell\<close> behind.
\<close>

lemma spd3_RecordMem_running:
  assumes run: "s_running t s d" and cells: "spd3_cells_ok d" and no: "s_violations d addr = None"
    and pages: "s_mapped d (primary_index addr)"
  obtains d' where "spd3_RecordMem t addr ty d = Inr d'" and "query_step (s_tg d) (s_tg d')"
    and "s_violations d' addr \<noteq> None \<longleftrightarrow> cell_races (g_par (s_tg d)) s ty (spd3_cell_at addr d)"
    and "\<forall>a. spd3_cell_at a d' = (if cell_key a = cell_key addr
      then next_cell (g_par (s_tg d)) (g_lev (s_tg d)) s ty (spd3_cell_at addr d) else spd3_cell_at a d)"
    and "s_mapped d' = s_mapped d"
proof -
  obtain k ks where k: "tidToTaskIdMap (s_tg d) t = k # ks" "k \<noteq> 0" by (rule s_running_top[OF run])
  have t: "t < NUM_THREADS" using run by (simp add: s_running_def)
  have ex: "spd3_exceptions t addr d = Inr False" using k t no by (simp add: spd3_exceptions_def thread_slot_def)
  obtain page d1 where op: "spd3_open_page addr d = Inr (page, d1)"
    using pages by (cases "s_shadow d (primary_index addr)") (auto simp: spd3_open_page_def Let_def)
  note O = spd3_open_page_InrD[OF op]
  obtain ss where d1: "d1 = d\<lparr>s_shadow := ss\<rparr>" using O(4) by blast
  let ?c = "spd3_cell_at addr d"
  have run1: "s_running t s d1" using run by (simp add: d1 s_running_def)
  have c1: "\<forall>r\<in>cell_steps ?c. step_node (s_tg d1) r" using cells by (simp add: d1 spd3_cells_ok_def)
  obtain d2 where 2: "spd3_checks t addr ty ?c d1 = Inr d2" "s_query d1 d2"
    "s_violations d2 addr \<noteq> None \<longleftrightarrow> s_violations d1 addr \<noteq> None \<or> cell_races (g_par (s_tg d1)) s ty ?c"
    by (rule spd3_checks_running[OF run1 c1])
  note S = s_query_same[OF 2(2)]
  have c2: "\<forall>r\<in>cell_steps ?c. step_node (s_tg d2) r" using c1 S(2) by blast
  obtain d3 where 3: "spd3_update t ty ?c d2 = Inr (next_cell (g_par (s_tg d2)) (g_lev (s_tg d2)) s ty ?c, d3)"
    "s_query d2 d3" "s_violations d3 = s_violations d2"
    by (rule spd3_update_running[OF S(3)[OF run1] c2])
  note q = s_query_trans[OF 2(2) 3(2)]
  let ?n = "next_cell (g_par (s_tg d2)) (g_lev (s_tg d2)) s ty ?c"
  let ?d = "spd3_store_cell addr ?n d3"
  have m: "spd3_RecordMem t addr ty d = Inr ?d"
    using ex op 2(1) 3(1) O(1) by (simp add: spd3_RecordMem_def)
  have page: "s_shadow d3 (primary_index addr) = Some page" using q O(3) by (simp add: s_query_def)
  show thesis
  proof (rule that[OF m])
    show "query_step (s_tg d) (s_tg ?d)" using q by (simp add: s_query_def spd3_store_cell_def d1)
    show "s_violations ?d addr \<noteq> None \<longleftrightarrow> cell_races (g_par (s_tg d)) s ty ?c"
      using 2(3) 3(3) no by (simp add: spd3_store_cell_def d1)
    have "spd3_cell_at a d3 = spd3_cell_at a d1" for a using q by (simp add: s_query_def spd3_cell_at_def)
    then show "\<forall>a. spd3_cell_at a ?d = (if cell_key a = cell_key addr
      then next_cell (g_par (s_tg d)) (g_lev (s_tg d)) s ty ?c else spd3_cell_at a d)"
      using spd3_cell_at_store[OF page] S(1,4) O(2) by (simp add: d1)
    show "s_mapped ?d = s_mapped d" using q by (simp add: s_query_def spd3_store_cell_def d1)
  qed
qed

lemma next_cell_write:
  "wr_task (next_cell par lev s ty c) = (if ty = WRITE then Some s else wr_task c)"
  by (simp add: next_cell_def split: option.splits)

section \<open>The remembered write stands for all of them\<close>

text \<open>
  \<open>W\<close> gives for each shadow cell the steps that have written to it. As long as nothing was
  reported for the cell, the remembered write comes after all the others, so a later access
  that may run in parallel with any of them may run in parallel with it.
\<close>

definition writes_ok :: "spd3_detector \<Rightarrow> (nat \<times> nat \<Rightarrow> nat set) \<Rightarrow> bool" where
  "writes_ok d W \<longleftrightarrow> (\<forall>a. \<forall>w\<in>W (cell_key a). step_node (s_tg d) w \<and>
     (\<exists>l. wr_task (spd3_cell_at a d) = Some l \<and> (w = l \<or> g_hb (s_tg d) w l)))"

lemma writes_ok_empty: "writes_ok d (\<lambda>_. {})"
  by (simp add: writes_ok_def)

lemma g_par_last_write:
  assumes wf: "wf_graph g" and l: "step_node g l" and p: "g_par g s w" and w: "w = l \<or> g_hb g w l"
    and late: "\<not> g_hb g s l"
  shows "g_par g s l"
proof (rule ccontr)
  assume n: "\<not> g_par g s l"
  with p have ne: "w \<noteq> l" by auto
  with w have wl: "g_hb g w l" by simp
  show False
  proof (cases "s = l")
    case True
    with p wl show False by (simp add: g_par_def mhp_def)
  next
    case False
    with n late have "g_hb g l s" by (simp add: g_par_def mhp_def)
    then have "g_hb g w s" by (rule hb_trans[rotated 2]) (use l wl in simp_all)
    with p show False by (simp add: g_par_def mhp_def)
  qed
qed

lemma writes_ok_race:
  assumes w: "writes_ok d W" and cells: "spd3_cells_ok d" and wf: "wf_graph (s_tg d)"
    and late: "\<forall>w\<in>W (cell_key a) \<union> set_option (wr_task (spd3_cell_at a d)). \<not> g_hb (s_tg d) s w"
    and r: "x \<in> W (cell_key a)" "g_par (s_tg d) s x"
  shows "cell_races (g_par (s_tg d)) s ty (spd3_cell_at a d)"
proof -
  obtain l where l: "wr_task (spd3_cell_at a d) = Some l" "x = l \<or> g_hb (s_tg d) x l"
    using w r(1) unfolding writes_ok_def by blast
  then have st: "step_node (s_tg d) l" using cells by (auto simp: spd3_cells_ok_def cell_steps_def)
  have "g_par (s_tg d) s l"
    by (rule g_par_last_write[OF wf st r(2) l(2)]) (use late l(1) in simp)
  then show ?thesis using l(1) by (simp add: cell_races_def)
qed

lemma writes_ok_next:
  assumes w: "writes_ok d W" and cells: "spd3_cells_ok d" and run: "s_running t s d"
    and late: "\<forall>w\<in>W (cell_key addr) \<union> set_option (wr_task (spd3_cell_at addr d)). \<not> g_hb (s_tg d) s w"
    and q: "query_step (s_tg d) (s_tg d')"
    and c: "\<forall>a. spd3_cell_at a d' = (if cell_key a = cell_key addr
      then next_cell (g_par (s_tg d)) (g_lev (s_tg d)) s ty (spd3_cell_at addr d) else spd3_cell_at a d)"
    and no: "\<not> cell_races (g_par (s_tg d)) s ty (spd3_cell_at addr d)"
  shows "writes_ok d' (W(cell_key addr := if ty = WRITE then insert s (W (cell_key addr)) else W (cell_key addr)))"
    (is "writes_ok d' ?W")
  unfolding writes_ok_def
proof (intro allI ballI)
  fix a w
  assume w': "w \<in> ?W (cell_key a)"
  note Q = query_step_same[OF q]
  have wf: "wf_graph (s_tg d)" and st: "step_node (s_tg d) s"
    using run running_step by (auto simp: s_running_def)
  show "step_node (s_tg d') w \<and>
     (\<exists>l. wr_task (spd3_cell_at a d') = Some l \<and> (w = l \<or> g_hb (s_tg d') w l))"
  proof (cases "cell_key a = cell_key addr \<and> ty = WRITE")
    case False
    then show ?thesis using w w' Q(3,4) c[rule_format, of a]
      by (cases "cell_key a = cell_key addr") (auto simp: writes_ok_def next_cell_write)
  next
    case True
    then have l: "wr_task (spd3_cell_at a d') = Some s" by (simp add: c next_cell_write)
    have "step_node (s_tg d) w \<and> (w = s \<or> g_hb (s_tg d) w s)"
    proof (cases "w = s")
      case False
      with w' True have x: "w \<in> W (cell_key addr)" by simp
      then have "\<not> g_par (s_tg d) s w" using writes_ok_race[OF w cells wf late] no by blast
      then show ?thesis using x w late False by (auto simp: g_par_def mhp_def writes_ok_def)
    qed (use st in simp)
    then show ?thesis using l Q(3,4) by simp
  qed
qed

lemma writes_ok_grows:
  assumes w: "writes_ok d W" and cells: "spd3_cells_ok d" and wf: "wf_graph (s_tg d)"
    and gs: "graph_step (s_tg d) (sg g')"
  shows "writes_ok (d\<lparr>s_graph := g'\<rparr>) W"
  unfolding writes_ok_def
proof (intro allI ballI)
  fix a x
  assume "x \<in> W (cell_key a)"
  then obtain l where x: "step_node (s_tg d) x" and l: "wr_task (spd3_cell_at a d) = Some l"
    "x = l \<or> g_hb (s_tg d) x l" using w unfolding writes_ok_def by blast
  then have "step_node (s_tg d) l" using cells by (auto simp: spd3_cells_ok_def cell_steps_def)
  then show "step_node (s_tg (d\<lparr>s_graph := g'\<rparr>)) x \<and>
     (\<exists>l. wr_task (spd3_cell_at a (d\<lparr>s_graph := g'\<rparr>)) = Some l \<and>
       (x = l \<or> g_hb (s_tg (d\<lparr>s_graph := g'\<rparr>)) x l))"
    using l x g_hb_grows[OF wf gs] graph_step_step_node[OF gs] by (auto simp: spd3_cell_at_def)
qed

end
