(* ===== verification/Spd3_Props.thy ===== *)
theory Spd3_Props
  imports Spd3_Checks Demo
begin

text \<open>
  What the SPD3 detector does on a small run, and its properties. In the run task 1 reads
  address 64, spawns task 2, which reads it too on a second thread, and reads it again;
  step 6 is the body of task 2, step 7 the rest of task 1, which may run in parallel.
\<close>

lemmas spd3_evals = new_spd3_graph_def spd3_create_node_def spd3_initialize_task_def
  spd3_set_flag_def spd3_link_child_def on_sg_def spd3_getCurTask_def spd3_spawn_scope_def
  spd3_add_step_def spd3_remember_def spd3_CaptureSpawnOnly_def spd3_CaptureSpawnAndWait_def
  spd3_CaptureExecute_def spd3_CaptureReturn_def spd3_CaptureWaitOnly_def spd3_CaptureSetTaskId_def
  spd3_on_graph_def spd3_TD_Activate_def

lemmas spd3_access_evals = spd3_RecordMem_def spd3_exceptions_def spd3_open_page_def
  spd3_checks_def spd3_check_def spd3_par_def spd3_areParallel_def spd3_update_def
  spd3_store_cell_def primary_index_def cell_offset_def zero_spd3_cell_def

definition spd3_demo_detector :: spd3_detector where
  "spd3_demo_detector = (case spd3_TD_Activate True True True 4096 (\<lambda>_. []) (\<lambda>_. True) of
     Inr d \<Rightarrow> d | Inl e \<Rightarrow> undefined)"

definition spd3_demo_calls :: "spd3_call list" where
  "spd3_demo_calls = [S_Spawn 0 0, S_Begin 0 1, S_Mem 0 64 READ, S_Spawn 0 1, S_Begin 1 2,
     S_Mem 1 64 READ]"

definition spd3_demo :: spd3_runtime where
  "spd3_demo = (case spd3_run spd3_demo_calls (spd3_start spd3_demo_detector) of
     Inr r \<Rightarrow> r | Inl e \<Rightarrow> undefined)"

abbreviation spd3_demo_graph :: AFTaskGraph where
  "spd3_demo_graph \<equiv> s_tg (s_det spd3_demo)"

lemma spd3_demo_activate:
  "spd3_TD_Activate True True True 4096 (\<lambda>_. []) (\<lambda>_. True) = Inr spd3_demo_detector"
  by (simp add: spd3_demo_detector_def graph_evals spd3_evals Let_def)

lemma spd3_demo_run: "spd3_run spd3_demo_calls (spd3_start spd3_demo_detector) = Inr spd3_demo"
proof -
  have "\<exists>r. spd3_run spd3_demo_calls (spd3_start spd3_demo_detector) = Inr r"
    by (simp add: spd3_demo_calls_def spd3_demo_detector_def spd3_start_def graph_evals spd3_evals
        spd3_access_evals Let_def)
  then show ?thesis by (auto simp: spd3_demo_def)
qed

lemmas spd3_demo_evals = spd3_demo_def spd3_demo_calls_def spd3_demo_detector_def spd3_start_def
  spd3_cell_at_def graph_evals spd3_evals spd3_access_evals Let_def

lemma spd3_demo_part1:
  "last_allocated_node spd3_demo_graph = 7"
  "cur spd3_demo_graph 0 = [4, 2, 1]"
  "cur spd3_demo_graph 1 = [5]"
  "tidToTaskIdMap spd3_demo_graph 0 = [1]"
  "tidToTaskIdMap spd3_demo_graph 1 = [2]"
  "type (tgraph_nodes spd3_demo_graph 6) = STEP"
  "type (tgraph_nodes spd3_demo_graph 7) = STEP"
  "type (tgraph_nodes spd3_demo_graph 3) = STEP"
  by (simp_all add: spd3_demo_evals)

lemma spd3_demo_part2:
  "type (tgraph_nodes spd3_demo_graph 5) = ASYNC"
  "cur_step (tgraph_nodes spd3_demo_graph 4) = 7"
  "cur_step (tgraph_nodes spd3_demo_graph 5) = 6"
  "taskId (tgraph_nodes spd3_demo_graph 4) = 1"
  "taskId (tgraph_nodes spd3_demo_graph 5) = 2"
  "parent (tgraph_nodes spd3_demo_graph 7) = 4"
  "parent (tgraph_nodes spd3_demo_graph 6) = 5"
  "parent (tgraph_nodes spd3_demo_graph 5) = 4"
  by (simp_all add: spd3_demo_evals)

lemma spd3_demo_part3:
  "parent (tgraph_nodes spd3_demo_graph 4) = 2"
  "parent (tgraph_nodes spd3_demo_graph 3) = 2"
  "depth (tgraph_nodes spd3_demo_graph 7) = 3"
  "depth (tgraph_nodes spd3_demo_graph 6) = 4"
  "depth (tgraph_nodes spd3_demo_graph 5) = 3"
  "depth (tgraph_nodes spd3_demo_graph 4) = 2"
  "depth (tgraph_nodes spd3_demo_graph 3) = 2"
  "depth (tgraph_nodes spd3_demo_graph 2) = 1"
  by (simp_all add: spd3_demo_evals)

lemma spd3_demo_part4:
  "seq_num (tgraph_nodes spd3_demo_graph 7) = 1"
  "seq_num (tgraph_nodes spd3_demo_graph 5) = 0"
  "seq_num (tgraph_nodes spd3_demo_graph 4) = 1"
  "seq_num (tgraph_nodes spd3_demo_graph 3) = 0"
  "s_violations (s_det spd3_demo) = Map.empty"
  "s_mapped (s_det spd3_demo) = (\<lambda>_. True)"
  "spd3_cell_at 64 (s_det spd3_demo) = \<lparr>wr_task = None, rd1_task = Some 3, rd2_task = Some 6\<rparr>"
  by (simp_all add: spd3_demo_evals)

lemmas spd3_demo_fields = spd3_demo_part1 spd3_demo_part2 spd3_demo_part3 spd3_demo_part4

lemma spd3_demo_reachable: "spd3_reachable spd3_demo"
  by (rule spd3_run_reachable[OF spd3_demo_run spd3_reachable.init[OF spd3_demo_activate]])

lemma spd3_demo_ok: "spd3_sound (s_det spd3_demo)" "wf_graph spd3_demo_graph" "g_tasks_ok spd3_demo_graph"
  "spd3_cells_ok (s_det spd3_demo)"
proof -
  show d: "spd3_sound (s_det spd3_demo)"
    using spd3_reachable_ok[OF spd3_demo_reachable] by (simp add: spd3_sys_ok_def)
  show "wf_graph spd3_demo_graph" "g_tasks_ok spd3_demo_graph" by (rule spd3_soundD[OF d])+
  show "spd3_cells_ok (s_det spd3_demo)" using d by (simp add: spd3_sound_def)
qed

lemma spd3_demo_running: "s_running 0 7 (s_det spd3_demo)" "s_running 1 6 (s_det spd3_demo)"
  using spd3_demo_ok(2,3)
  by (simp_all add: s_running_def running_def spd3_demo_fields top_cur_def NUM_THREADS_def del: One_nat_def)

lemma spd3_demo_steps: "step_node spd3_demo_graph 3" "step_node spd3_demo_graph 6"
  "step_node spd3_demo_graph 7"
  by (simp_all add: spd3_demo_fields node_def)

lemma funpow_2: "(f ^^ 2) x = f (f x)"
  by (simp add: numeral_2_eq_2)

lemma spd3_demo_par:
  "g_par spd3_demo_graph 7 6" "g_par spd3_demo_graph 6 7" "\<not> g_par spd3_demo_graph 7 3"
  "\<not> g_par spd3_demo_graph 6 3" "\<not> g_par spd3_demo_graph 6 6"
proof -
  note t = wf_tree[OF spd3_demo_ok(2)]
  have "fork (tgraph_nodes spd3_demo_graph) (last_allocated_node spd3_demo_graph) 7 6 4 7 5"
    by (simp add: fork_def sibs_def spd3_demo_fields under_def anc_def up_def funpow_2)
  from fork_mhp[OF t _ _ _ _ this] show p: "g_par spd3_demo_graph 7 6"
    using spd3_demo_steps by (simp add: g_par_def left_is_async_def spd3_demo_fields)
  then show "g_par spd3_demo_graph 6 7" by (simp add: g_par_sym)
  have "fork (tgraph_nodes spd3_demo_graph) (last_allocated_node spd3_demo_graph) 7 3 2 4 3"
    by (simp add: fork_def sibs_def spd3_demo_fields under_def anc_def up_def funpow_2)
  from fork_mhp[OF t _ _ _ _ this] show "\<not> g_par spd3_demo_graph 7 3"
    using spd3_demo_steps by (simp add: g_par_def left_is_async_def spd3_demo_fields)
  have "fork (tgraph_nodes spd3_demo_graph) (last_allocated_node spd3_demo_graph) 6 3 2 4 3"
    by (simp add: fork_def sibs_def spd3_demo_fields under_def anc_def up_def funpow_2)
  from fork_mhp[OF t _ _ _ _ this] show "\<not> g_par spd3_demo_graph 6 3"
    using spd3_demo_steps by (simp add: g_par_def left_is_async_def spd3_demo_fields)
  show "\<not> g_par spd3_demo_graph 6 6" by (simp add: g_par_def)
qed

section \<open>Properties\<close>

text \<open>
  C14. SPD3, safety: whatever calls the program makes and in whatever order, every violation
  the SPD3 detector records names two steps that may run in parallel, one access being a write.
\<close>

theorem spd3_violations_genuine:
  assumes "spd3_reachable r" and "s_violations (s_det r) addr = Some v"
  shows "step_node (s_tg (s_det r)) (v_task (a1 v)) \<and> step_node (s_tg (s_det r)) (v_task (a2 v)) \<and>
    g_par (s_tg (s_det r)) (v_task (a1 v)) (v_task (a2 v)) \<and>
    (v_access (a1 v) = WRITE \<or> v_access (a2 v) = WRITE)"
  using spd3_reachable_ok[OF assms(1)] assms(2)
  by (auto simp: spd3_sys_ok_def spd3_sound_def spd3_viols_ok_def genuine_def)

lemma spd3_demo_race: "\<exists>r v. spd3_reachable r \<and> s_violations (s_det r) 64 = Some v"
proof -
  obtain d where d: "spd3_RecordMem 0 64 WRITE (s_det spd3_demo) = Inr d"
    "s_violations d 64 \<noteq> None \<longleftrightarrow> cell_races (g_par spd3_demo_graph) 7 WRITE (spd3_cell_at 64 (s_det spd3_demo))"
    by (rule spd3_RecordMem_running[OF spd3_demo_running(1) spd3_demo_ok(4), of 64 WRITE])
      (simp_all add: spd3_demo_fields)
  have "spd3_do_call (S_Mem 0 64 WRITE) spd3_demo = Inr (spd3_demo\<lparr>s_det := d\<rparr>)" using d(1) by simp
  then have "spd3_reachable (spd3_demo\<lparr>s_det := d\<rparr>)" by (rule spd3_reachable.call[OF spd3_demo_reachable])
  moreover have "s_violations d 64 \<noteq> None"
    using d(2) spd3_demo_par by (simp add: cell_races_def spd3_demo_fields)
  ultimately show ?thesis by (metis not_None_eq spd3_runtime.select_convs(1) spd3_runtime.surjective spd3_runtime.update_convs(1))
qed

theorem spd3_violations_genuine_witness:
  "\<exists>r v. spd3_reachable r \<and> s_violations (s_det r) 64 = Some v \<and>
     g_par (s_tg (s_det r)) (v_task (a1 v)) (v_task (a2 v))"
  using spd3_demo_race spd3_violations_genuine by blast

text \<open>
  C15. SPD3, one access of a running task to an address nothing was reported for: it returns,
  a violation is recorded exactly when the step may run in parallel with the remembered write,
  or, for a write, with one of the two remembered reads, and the cell becomes \<open>next_cell\<close>.
\<close>

theorem spd3_access_checks:
  assumes "s_running t s d" and "spd3_sound d" and "s_violations d addr = None"
    and "s_mapped d (primary_index addr)"
  shows "\<exists>d'. spd3_RecordMem t addr ty d = Inr d' \<and> spd3_sound d' \<and>
    (s_violations d' addr \<noteq> None \<longleftrightarrow> cell_races (g_par (s_tg d)) s ty (spd3_cell_at addr d)) \<and>
    spd3_cell_at addr d' = next_cell (g_par (s_tg d)) (g_lev (s_tg d)) s ty (spd3_cell_at addr d)"
proof -
  have cells: "spd3_cells_ok d" using assms(2) by (simp add: spd3_sound_def)
  obtain d' where d': "spd3_RecordMem t addr ty d = Inr d'" "query_step (s_tg d) (s_tg d')"
    "s_violations d' addr \<noteq> None \<longleftrightarrow> cell_races (g_par (s_tg d)) s ty (spd3_cell_at addr d)"
    "\<forall>a. spd3_cell_at a d' = (if cell_key a = cell_key addr
       then next_cell (g_par (s_tg d)) (g_lev (s_tg d)) s ty (spd3_cell_at addr d) else spd3_cell_at a d)"
    "s_mapped d' = s_mapped d"
    by (rule spd3_RecordMem_running[OF assms(1) cells assms(3,4), where ty = ty])
  then show ?thesis using spd3_RecordMem_sound(1)[OF assms(2) d'(1)] by simp
qed

theorem spd3_access_checks_witness:
  "\<exists>d. spd3_RecordMem 0 64 WRITE (s_det spd3_demo) = Inr d \<and> s_violations d 64 \<noteq> None \<and>
     wr_task (spd3_cell_at 64 d) = Some 7"
  using spd3_access_checks[OF spd3_demo_running(1) spd3_demo_ok(1), of 64 WRITE] spd3_demo_par
  by (auto simp: spd3_demo_fields cell_races_def next_cell_write)

text \<open>
  C16. SPD3 never loses a race with a write: if \<open>W\<close> are the steps that have written to the
  cell and nothing was reported, a later access that may run in parallel with any of them is
  reported; otherwise the one remembered write stands for all of them again.
\<close>

theorem spd3_finds_write_races:
  assumes "s_running t s d" and "spd3_sound d" and "s_violations d addr = None"
    and "s_mapped d (primary_index addr)" and "writes_ok d W"
    and "\<forall>w\<in>W (cell_key addr) \<union> set_option (wr_task (spd3_cell_at addr d)). \<not> g_hb (s_tg d) s w"
  shows "\<exists>d'. spd3_RecordMem t addr ty d = Inr d' \<and>
    ((\<exists>w\<in>W (cell_key addr). g_par (s_tg d) s w) \<longrightarrow> s_violations d' addr \<noteq> None) \<and>
    (s_violations d' addr = None \<longrightarrow> writes_ok d'
      (W(cell_key addr := if ty = WRITE then insert s (W (cell_key addr)) else W (cell_key addr))))"
proof -
  have cells: "spd3_cells_ok d" using assms(2) by (simp add: spd3_sound_def)
  have wf: "wf_graph (s_tg d)" by (rule spd3_soundD[OF assms(2)])
  obtain d' where d': "spd3_RecordMem t addr ty d = Inr d'" "query_step (s_tg d) (s_tg d')"
    "s_violations d' addr \<noteq> None \<longleftrightarrow> cell_races (g_par (s_tg d)) s ty (spd3_cell_at addr d)"
    "\<forall>a. spd3_cell_at a d' = (if cell_key a = cell_key addr
       then next_cell (g_par (s_tg d)) (g_lev (s_tg d)) s ty (spd3_cell_at addr d) else spd3_cell_at a d)"
    "s_mapped d' = s_mapped d"
    by (rule spd3_RecordMem_running[OF assms(1) cells assms(3,4), where ty = ty])
  have "s_violations d' addr \<noteq> None" if "w \<in> W (cell_key addr)" "g_par (s_tg d) s w" for w
    using d'(3) writes_ok_race[OF assms(5) cells wf assms(6) that] by blast
  moreover have "s_violations d' addr = None \<longrightarrow> writes_ok d'
      (W(cell_key addr := if ty = WRITE then insert s (W (cell_key addr)) else W (cell_key addr)))"
    using d'(3) writes_ok_next[OF assms(5) cells assms(1,6) d'(2,4)] by blast
  ultimately show ?thesis by (intro exI[of _ d'] conjI d'(1)) auto
qed

theorem spd3_finds_write_races_witness:
  "\<exists>d d2. spd3_RecordMem 0 128 WRITE (s_det spd3_demo) = Inr d \<and>
     spd3_RecordMem 1 128 READ d = Inr d2 \<and> s_violations d2 128 \<noteq> None"
proof -
  have c0: "spd3_cell_at 128 (s_det spd3_demo) = zero_spd3_cell"
    by (simp add: spd3_demo_evals)
  obtain d where d: "spd3_RecordMem 0 128 WRITE (s_det spd3_demo) = Inr d" "query_step spd3_demo_graph (s_tg d)"
    "s_violations d 128 \<noteq> None \<longleftrightarrow> cell_races (g_par spd3_demo_graph) 7 WRITE (spd3_cell_at 128 (s_det spd3_demo))"
    "\<forall>a. spd3_cell_at a d = (if cell_key a = cell_key 128 then next_cell (g_par spd3_demo_graph)
       (g_lev spd3_demo_graph) 7 WRITE (spd3_cell_at 128 (s_det spd3_demo)) else spd3_cell_at a (s_det spd3_demo))"
    "s_mapped d = s_mapped (s_det spd3_demo)"
    by (rule spd3_RecordMem_running[OF spd3_demo_running(1) spd3_demo_ok(4), of 128 WRITE])
      (simp_all add: spd3_demo_fields)
  have no: "s_violations d 128 = None" using d(3) by (simp add: cell_races_def c0 zero_spd3_cell_def)
  have w: "writes_ok d ((\<lambda>_. {})(cell_key 128 := {7}))"
    using spd3_finds_write_races[OF spd3_demo_running(1) spd3_demo_ok(1) _ _ writes_ok_empty, of 128 WRITE] d(1) no
    by (simp add: spd3_demo_fields c0 zero_spd3_cell_def)
  note Q = query_step_same[OF d(2)] and F = query_step_fields[OF d(2)]
  have run: "s_running 1 6 d" using spd3_demo_running(2) Q(5) F by (simp add: s_running_def)
  have wr: "wr_task (spd3_cell_at 128 d) = Some 7" using d(4) by (simp add: next_cell_write)
  have hb: "\<not> g_hb (s_tg d) 6 7" using spd3_demo_par(1) Q(3) by (simp add: g_par_def mhp_def)
  have "\<exists>d'. spd3_RecordMem 1 128 READ d = Inr d' \<and>
    ((\<exists>x\<in>((\<lambda>_. {})(cell_key 128 := {7})) (cell_key 128). g_par (s_tg d) 6 x) \<longrightarrow> s_violations d' 128 \<noteq> None) \<and>
    (s_violations d' 128 = None \<longrightarrow> writes_ok d' (((\<lambda>_. {})(cell_key 128 := {7}))(cell_key 128 :=
       if READ = WRITE then insert 6 (((\<lambda>_. {})(cell_key 128 := {7})) (cell_key 128))
       else ((\<lambda>_. {})(cell_key 128 := {7})) (cell_key 128))))"
    by (rule spd3_finds_write_races[OF run spd3_RecordMem_sound(1)[OF spd3_demo_ok(1) d(1)] no _ w])
      (use hb in \<open>simp_all add: d(5) spd3_demo_fields wr\<close>)
  then show ?thesis using d(1) spd3_demo_par(2) Q(1) by auto
qed


text \<open>
  C18. SPD3 inherits the order of the task graph: on two distinct steps of a reachable state
  its \<open>parallel\<close> never stops at one of its assertions and answers as the one of \<open>tdebug-lib\<close>,
  which decides the order of the program.
\<close>

theorem spd3_parallel_agrees:
  assumes "spd3_reachable r" and "step_node (s_tg (s_det r)) a" and "step_node (s_tg (s_det r)) b" and "a \<noteq> b"
  shows "spd3_parallel a b (s_tg (s_det r)) = parallel a b (s_tg (s_det r)) \<and>
    (\<exists>g'. spd3_parallel a b (s_tg (s_det r)) = Inr (g_mhp (s_tg (s_det r)) a b, g'))"
proof -
  have "wf_graph (s_tg (s_det r))"
    using spd3_reachable_ok[OF assms(1)] spd3_soundD(4) by (simp add: spd3_sys_ok_def)
  then show ?thesis using spd3_parallel_steps[OF _ assms(2-4)] parallel_steps[OF _ assms(2-4)] by metis
qed

theorem spd3_parallel_agrees_witness: "\<exists>g. spd3_parallel 7 6 spd3_demo_graph = Inr (True, g)"
proof -
  have "g_mhp spd3_demo_graph 7 6" using spd3_demo_par(1) by (simp add: g_par_def)
  moreover have "\<exists>g. spd3_parallel 7 6 spd3_demo_graph = Inr (g_mhp spd3_demo_graph 7 6, g)"
    by (rule conjunct2[OF spd3_parallel_agrees[OF spd3_demo_reachable spd3_demo_steps(3,2)]]) simp
  ultimately show ?thesis by simp
qed

text \<open>
  C19. SPD3 leaves the stacks of a thread as it found them: a task that was created by any
  spawn, began on thread \<open>t\<close>, spawned any number of tasks and returned without waiting has
  popped its own node and the scope of its spawns.
\<close>

theorem spd3_return_balances:
  assumes "spd3_reachable r" and "spd3_CaptureSetTaskId u k b (s_graph (s_det r)) = Inr s0"
    and "spd3_CaptureExecute t k s0 = Inr s1" and "spawn_all t ks s1 = Inr s2"
    and "spd3_CaptureReturn t s2 = Inr s3"
  shows "cur (sg s3) t = cur (sg s0) t \<and> tidToTaskIdMap (sg s3) t = tidToTaskIdMap (sg s0) t"
proof -
  have d: "spd3_sound (s_det r)" using spd3_reachable_ok[OF assms(1)] by (simp add: spd3_sys_ok_def)
  note D = spd3_soundD[OF d]
  obtain n where n: "temp_cur_map (sg s0) k = Some n" "task_node s0 n"
    "young_ns_child (tgraph_nodes (sg s0) n) \<noteq> ASYNC" by (rule spd3_SetTaskId_node[OF assms(2) D(2)])
  note E = spd3_Execute_body[OF assms(3) n]
  note k0 = graph_stepD[OF CaptureSetTaskId_step[OF D(1,2) spd3_SetTaskId_lift[OF D(2) assms(2)]]]
  note k1 = graph_stepD[OF CaptureExecute_step[OF k0(1,2) spd3_Execute_lift(1)[OF k0(2) assms(3)]]]
  note B = spawn_all_body[OF E(1) assms(4) k1(1,2)]
  show ?thesis
    using spd3_Return_body[OF _ assms(5), of n "cur (sg s0) t" "taskId (tgraph_nodes (sg s0) n)" "tidToTaskIdMap (sg s0) t"] B E(2)
    by simp
qed

theorem spd3_return_balances_witness:
  "\<exists>s1 s2 s3. spd3_CaptureExecute 1 3 s1 = Inr s2 \<and> spawn_all 1 [4, 5] s2 = Inr s3 \<and>
     (\<exists>s4. spd3_CaptureReturn 1 s3 = Inr s4 \<and> cur (sg s4) 1 = cur (sg s1) 1)"
proof -
  have "\<exists>s1 s2 s3 s4. spd3_CaptureSetTaskId 0 3 1 (s_graph (s_det spd3_demo)) = Inr s1 \<and>
    spd3_CaptureExecute 1 3 s1 = Inr s2 \<and> spawn_all 1 [4, 5] s2 = Inr s3 \<and> spd3_CaptureReturn 1 s3 = Inr s4"
    by (simp add: spd3_demo_evals del: One_nat_def)
  then show ?thesis using spd3_return_balances[OF spd3_demo_reachable] by meson
qed

end
