(* ===== verification/Spd3_Locks.thy ===== *)
theory Spd3_Locks
  imports Lockset "HOL-Library.Multiset"
begin

text \<open>
  The lock sets of \<open>spd3-lib\<close> (\<open>Lockset_data.H/.cpp\<close>, \<open>Lock_version.H/.cpp\<close>,
  \<open>Address_data.H/.cpp\<close>): sets of locks with a version each, and the tests on two accesses.
  The library compiles them, but its detector looks at no locks.
\<close>

record Lock_version =
  lv_lock :: addr
  lv_version :: nat

definition compareLock :: "Lock_version \<Rightarrow> Lock_version \<Rightarrow> bool" where
  "compareLock l1 l2 \<longleftrightarrow> lv_lock l1 = lv_lock l2 \<and> lv_version l1 = lv_version l2"

record spd3_lockset =
  sl_lockset :: "addr list"
  sl_version :: "addr \<rightharpoonup> nat"
  sl_locks :: "addr list"

text \<open>\<open>lock_version.at\<close> throws for a lock without a version.\<close>

fun createLockset_of :: "addr list \<Rightarrow> (addr \<rightharpoonup> nat) \<Rightarrow> Lock_version list result" where
  "createLockset_of [] vs = Inr []"
| "createLockset_of (l # ls) vs =
     bind_r (map_at vs l) (\<lambda>v. bind_r (createLockset_of ls vs) (\<lambda>rest.
       Inr (\<lparr>lv_lock = l, lv_version = v\<rparr> # rest)))"

definition spd3_createLockset :: "spd3_lockset \<Rightarrow> Lock_version list result" where
  "spd3_createLockset s = createLockset_of (sl_lockset s) (sl_version s)"

definition isLockPresent :: "addr \<Rightarrow> spd3_lockset \<Rightarrow> bool" where
  "isLockPresent l s \<longleftrightarrow> (\<exists>x \<in> set (sl_lockset s). x = l)"

definition spd3_removeLock :: "addr \<Rightarrow> spd3_lockset \<Rightarrow> spd3_lockset" where
  "spd3_removeLock l s = s\<lparr>sl_lockset := remove1 l (sl_lockset s)\<rparr>"

definition spd3_addLockToStack :: "addr \<Rightarrow> spd3_lockset \<Rightarrow> spd3_lockset" where
  "spd3_addLockToStack l s = s\<lparr>sl_locks := l # sl_locks s\<rparr>"

definition spd3_addLockToLockset :: "addr \<Rightarrow> spd3_lockset \<Rightarrow> spd3_lockset" where
  "spd3_addLockToLockset l s =
     (let s1 = spd3_addLockToStack l s in s1\<lparr>sl_lockset := sl_lockset s1 @ [l]\<rparr>)"

definition spd3_removeLockFromLockset :: "spd3_lockset \<Rightarrow> spd3_lockset result" where
  "spd3_removeLockFromLockset s =
     bind_r (stack_top (sl_locks s)) (\<lambda>l.
     let s1 = spd3_removeLock l s in
     bind_r (stack_pop (sl_locks s1)) (\<lambda>ls. Inr (s1\<lparr>sl_locks := ls\<rparr>)))"

text \<open>The version is a \<open>size_t\<close> that counts from 0, and wraps.\<close>

definition updateVersionNumber :: "addr \<Rightarrow> spd3_lockset \<Rightarrow> spd3_lockset" where
  "updateVersionNumber l s =
     s\<lparr>sl_version := (case sl_version s l of
        None \<Rightarrow> map_insert (sl_version s) l 0
      | Some v \<Rightarrow> (sl_version s)(l \<mapsto> (v + 1) mod 2 ^ 64))\<rparr>"

record spd3_address_data =
  ad_task :: AFTask
  ad_lockset :: "Lock_version list"
  ad_accessType :: AccessType

definition R_LOCK :: addr where "R_LOCK = 0"
definition R_LOCK_VERSION :: nat where "R_LOCK_VERSION = 0"

definition checkForRLock :: "spd3_address_data \<Rightarrow> spd3_address_data" where
  "checkForRLock a =
     (if ad_accessType a = READ
      then a\<lparr>ad_lockset := ad_lockset a @ [\<lparr>lv_lock = R_LOCK, lv_version = R_LOCK_VERSION\<rparr>]\<rparr>
      else a)"

definition locksetEmpty :: "Lock_version list \<Rightarrow> Lock_version list \<Rightarrow> bool" where
  "locksetEmpty l1 l2 = (\<not> list_ex (\<lambda>x. list_ex (compareLock x) l2) l1)"

definition compareTaskId :: "spd3_address_data \<Rightarrow> spd3_address_data \<Rightarrow> bool" where
  "compareTaskId a b \<longleftrightarrow> taskId (ad_task a) = taskId (ad_task b)"

definition conflictingAccess :: "spd3_address_data \<Rightarrow> spd3_address_data \<Rightarrow> bool" where
  "conflictingAccess a b \<longleftrightarrow> taskId (ad_task a) \<noteq> taskId (ad_task b) \<and>
     (ad_accessType a = WRITE \<or> ad_accessType b = WRITE)"

definition bothReads :: "spd3_address_data \<Rightarrow> spd3_address_data \<Rightarrow> bool" where
  "bothReads a b \<longleftrightarrow> ad_accessType a = READ \<and> ad_accessType b = READ"

section \<open>What they mean\<close>

lemma compareLock_eq [simp]: "compareLock x y \<longleftrightarrow> x = y"
  by (cases x; cases y) (simp add: compareLock_def)

lemma locksetEmpty_disjoint: "locksetEmpty l1 l2 \<longleftrightarrow> set l1 \<inter> set l2 = {}"
  by (auto simp: locksetEmpty_def list_ex_iff)

text \<open>The read lock: two reads never have an empty common lock set.\<close>

lemma reads_share_R_LOCK:
  "bothReads a b \<Longrightarrow> \<not> locksetEmpty (ad_lockset (checkForRLock a)) (ad_lockset (checkForRLock b))"
  by (auto simp: bothReads_def locksetEmpty_disjoint checkForRLock_def)

text \<open>Taking a lock and dropping it again leaves the held locks as they were, up to order.\<close>

lemma spd3_take_drop:
  "\<exists>s'. spd3_removeLockFromLockset (spd3_addLockToLockset l s) = Inr s' \<and>
     mset (sl_lockset s') = mset (sl_lockset s) \<and> sl_locks s' = sl_locks s \<and> sl_version s' = sl_version s"
  by (auto simp: spd3_removeLockFromLockset_def spd3_addLockToLockset_def spd3_addLockToStack_def
      spd3_removeLock_def Let_def remove1_append)

lemma spd3_drop_without_take: "sl_locks s = [] \<Longrightarrow> spd3_removeLockFromLockset s = Inl EmptyStack"
  by (simp add: spd3_removeLockFromLockset_def)

text \<open>
  The set of an access lists the locks held with their versions, and fails with the exception
  of \<open>at\<close> exactly when one of them has none; a lock taken again has another version.
\<close>

lemma createLockset_of_ok:
  "set ls \<subseteq> dom vs \<Longrightarrow>
     createLockset_of ls vs = Inr (map (\<lambda>l. \<lparr>lv_lock = l, lv_version = the (vs l)\<rparr>) ls)"
  by (induction ls) auto

lemma createLockset_of_fails: "\<not> set ls \<subseteq> dom vs \<Longrightarrow> createLockset_of ls vs = Inl KeyMissing"
proof (induction ls)
  case (Cons l ls)
  then show ?case by (cases "vs l") (auto simp: domIff dom_def)
qed simp

lemma next_version: "0 < (m :: nat) \<Longrightarrow> m \<noteq> 1 \<Longrightarrow> (v + 1) mod m \<noteq> v"
proof (cases "v + 1 < m")
  case False
  assume "0 < m" "m \<noteq> 1"
  then show ?thesis
  proof (cases "v + 1 = m")
    case True
    with \<open>m \<noteq> 1\<close> show ?thesis by auto
  next
    case False
    with \<open>\<not> v + 1 < m\<close> have "m \<le> v" by simp
    moreover have "(v + 1) mod m < m" using \<open>0 < m\<close> by simp
    ultimately show ?thesis by linarith
  qed
qed simp

lemma version_changes: "sl_version (updateVersionNumber l s) l \<noteq> sl_version s l"
  using next_version[of "2 ^ 64"] by (auto simp: updateVersionNumber_def split: option.splits)

end
