(* ===== verification/Llvm_IR.thy ===== *)
theory Llvm_IR
  imports Prelude
begin

text \<open>
  What the two instrumentation passes (\<open>llvm/lib/Transforms/TaskDebug\<close>) read and write of
  LLVM's intermediate representation, and the annotations they look for. LLVM itself is not
  modelled: an instruction is its opcode, operands, called function and \<open>tyann\<close> metadata, a
  block is a list of instructions with the successors of its terminator, a function a list of
  blocks (a block is named by its position, the entry is block 0), a module a list of functions.

  Instructions have identities, because the branch pass compares pointers to them. An operand
  that is an instruction carries what the passes read of that instruction; this does not
  change while the passes run. Values that are neither instructions, globals, constants nor
  null are \<open>OtherVal\<close>; among them are constant expressions such as a \<open>getelementptr\<close> of a
  global.
\<close>

datatype opcode = Op_Load | Op_Store | Op_Call | Op_GetElementPtr | Op_PHI | Op_Alloca | Op_BitCast | Op_Other

type_synonym tyann = "string \<times> 8 word"

datatype val =
    InstVal nat opcode "tyann option"
  | GlobalVal string
  | ConstInt nat
  | NullVal
  | OtherVal nat

record inst =
  i_id :: nat
  i_opcode :: opcode
  i_callee :: "string option"
  i_operands :: "val list"
  i_tyann :: "tyann option"

record block =
  b_insts :: "inst list"
  b_term :: "nat list option"

record func =
  f_name :: string
  f_blocks :: "block list"

definition as_val :: "inst \<Rightarrow> val" where
  "as_val i = InstVal (i_id i) (i_opcode i) (i_tyann i)"

text \<open>The operand \<open>k\<close>; asking for one that is not there is out of bounds.\<close>

definition getOperand :: "nat \<Rightarrow> inst \<Rightarrow> val result" where
  "getOperand k i = (if k < length (i_operands i) then Inr (i_operands i ! k) else Inl OutOfBounds)"

text \<open>A new instruction takes the next identity.\<close>

definition new_inst :: "nat \<Rightarrow> opcode \<Rightarrow> string option \<Rightarrow> val list \<Rightarrow> inst" where
  "new_inst n op callee args =
     \<lparr>i_id = n, i_opcode = op, i_callee = callee, i_operands = args, i_tyann = None\<rparr>"

definition is_phi :: "inst \<Rightarrow> bool" where
  "is_phi i = (i_opcode i = Op_PHI)"

text \<open>
  \<open>getFirstNonPHI\<close> as an identity; \<open>None\<close> is the terminator, which is not in \<open>b_insts\<close>.
\<close>

definition getFirstNonPHI :: "block \<Rightarrow> nat option" where
  "getFirstNonPHI b = (case dropWhile is_phi (b_insts b) of [] \<Rightarrow> None | i # _ \<Rightarrow> Some (i_id i))"

definition insert_at_first_non_phi :: "inst list \<Rightarrow> block \<Rightarrow> block" where
  "insert_at_first_non_phi new b =
     b\<lparr>b_insts := takeWhile is_phi (b_insts b) @ new @ dropWhile is_phi (b_insts b)\<rparr>"

section \<open>Modules\<close>

definition getFunction :: "string \<Rightarrow> func list \<Rightarrow> func option" where
  "getFunction name m = find (\<lambda>f. f_name f = name) m"

definition getOrInsertFunction :: "string \<Rightarrow> func list \<Rightarrow> func list" where
  "getOrInsertFunction name m =
     (case getFunction name m of
        Some _ \<Rightarrow> m
      | None \<Rightarrow> m @ [\<lparr>f_name = name, f_blocks = []\<rparr>])"

lemma getFunction_append:
  "getFunction name (m @ ms) = (case getFunction name m of None \<Rightarrow> getFunction name ms | Some f \<Rightarrow> Some f)"
  by (induction m) (simp_all add: getFunction_def)

lemma getFunction_inserted: "getFunction name (getOrInsertFunction name m) \<noteq> None"
  by (simp add: getOrInsertFunction_def getFunction_append split: option.split)
    (simp add: getFunction_def)

lemma getFunction_kept:
  "getFunction name m \<noteq> None \<Longrightarrow> getFunction name (getOrInsertFunction other m) \<noteq> None"
  by (auto simp: getOrInsertFunction_def getFunction_append split: option.split)

lemma getOrInsertFunction_prefix: "\<exists>ds. getOrInsertFunction name m = m @ ds \<and> (\<forall>f\<in>set ds. f_blocks f = [])"
  by (auto simp: getOrInsertFunction_def split: option.split intro: exI[of _ "[]"])

section \<open>Annotations\<close>

text \<open>
  \<open>hasAnnotation\<close>, the same in both passes. For an access through a \<open>getelementptr\<close> or to a
  global the annotation is looked up on the access itself and its level is ignored.
\<close>

definition hasAnnotation :: "inst \<Rightarrow> val \<Rightarrow> string \<Rightarrow> 8 word \<Rightarrow> bool" where
  "hasAnnotation i V Ann level =
     (case V of
        InstVal n op md \<Rightarrow>
          if op = Op_GetElementPtr then
            (case i_tyann i of Some (s, l) \<Rightarrow> s = Ann | None \<Rightarrow> False)
          else
            (case md of Some (s, l) \<Rightarrow> s = Ann \<and> l = level | None \<Rightarrow> False)
      | GlobalVal g \<Rightarrow> (case i_tyann i of Some (s, l) \<Rightarrow> s = Ann | None \<Rightarrow> False)
      | _ \<Rightarrow> False)"

text \<open>\<open>AnnotationInfo::hasAnnotation\<close>, which looks at instructions only.\<close>

definition AnnotationInfo_hasAnnotation :: "val \<Rightarrow> string \<Rightarrow> 8 word \<Rightarrow> bool" where
  "AnnotationInfo_hasAnnotation V Ann level =
     (case V of
        InstVal n op md \<Rightarrow> (case md of Some (s, l) \<Rightarrow> s = Ann \<and> l = level | None \<Rightarrow> False)
      | _ \<Rightarrow> False)"

section \<open>Which functions are instrumented\<close>

text \<open>
  \<open>StringRef::find\<close> says whether a line of \<open>functions.txt\<close> occurs in the name. \<open>file\<close> is
  the text of the file, empty when it cannot be opened; \<open>getlines\<close> is the loop over
  \<open>std::getline\<close>, which does not return a last line that is empty.
\<close>

fun occurs_in :: "string \<Rightarrow> string \<Rightarrow> bool" where
  "occurs_in p [] = (p = [])"
| "occurs_in p (c # s) = (take (length p) (c # s) = p \<or> occurs_in p s)"

fun split_lines :: "string \<Rightarrow> string \<Rightarrow> string list" where
  "split_lines acc [] = (if acc = [] then [] else [rev acc])"
| "split_lines acc (c # s) = (if c = CHR 0x0A then rev acc # split_lines [] s else split_lines (c # acc) s)"

definition getlines :: "string \<Rightarrow> string list" where
  "getlines file = split_lines [] file"

definition instru_fn :: "string \<Rightarrow> string \<Rightarrow> bool" where
  "instru_fn file fn_name = list_ex (\<lambda>line. occurs_in line fn_name) (getlines file)"

lemma occurs_in_iff: "occurs_in p s \<longleftrightarrow> (\<exists>u v. s = u @ p @ v)"
proof (induction s)
  case (Cons c s)
  have "take (length p) (c # s) = p \<longleftrightarrow> (\<exists>v. c # s = p @ v)"
    by (metis append_eq_conv_conj append_take_drop_id)
  moreover have "(\<exists>u v. c # s = u @ p @ v) \<longleftrightarrow> (\<exists>v. c # s = p @ v) \<or> (\<exists>u v. s = u @ p @ v)"
    by (metis append_Cons append_Nil list.exhaust list.inject)
  ultimately show ?case using Cons by simp
qed simp

lemma occurs_in_empty [simp]: "occurs_in [] s"
  by (cases s) simp_all

lemma split_lines_join:
  "CHR 0x0A \<notin> set l \<Longrightarrow> split_lines acc (l @ CHR 0x0A # s) = (rev acc @ l) # split_lines [] s"
  by (induction l arbitrary: acc) auto

lemma getlines_join: "\<forall>l\<in>set ls. CHR 0x0A \<notin> set l \<Longrightarrow>
    getlines (concat (map (\<lambda>l. l @ [CHR 0x0A]) ls)) = ls"
  unfolding getlines_def by (induction ls) (simp_all add: split_lines_join)

lemma instru_fn_lines:
  assumes "\<forall>l\<in>set ls. CHR 0x0A \<notin> set l"
  shows "instru_fn (concat (map (\<lambda>l. l @ [CHR 0x0A]) ls)) name \<longleftrightarrow> (\<exists>l\<in>set ls. \<exists>u v. name = u @ l @ v)"
  by (simp add: instru_fn_def getlines_join[OF assms] list_ex_iff occurs_in_iff)

end
