(* ===== verification/Access_Pass.thy ===== *)
theory Access_Pass
  imports Llvm_IR
begin

text \<open>
  The access pass (\<open>TaskDebug.cpp\<close>): in every function that \<open>functions.txt\<close> names, a call of
  \<open>RecordMem\<close> goes before each load and store of annotated data. \<open>Prelude.result\<close> stands for
  the failed assertion when a function is missing.
\<close>

text \<open>The state of the pass: the next identity and \<open>num_accesses\<close>.\<close>

record access_pass =
  next_id :: nat
  num_accesses :: nat

definition instrument_access :: "val \<Rightarrow> nat \<Rightarrow> nat \<Rightarrow> inst list \<times> nat" where
  "instrument_access op rdWr n =
     (let get_tid = new_inst n Op_Call (Some ''get_cur_tid'') [];
          bitcast = new_inst (n + 1) Op_BitCast None [op];
          recordMemCall = new_inst (n + 2) Op_Call (Some ''RecordMem'')
            [as_val get_tid, as_val bitcast, ConstInt rdWr]
      in ([get_tid, bitcast, recordMemCall], n + 3))"

definition instrument_if :: "inst \<Rightarrow> nat \<Rightarrow> nat \<Rightarrow> access_pass \<Rightarrow> (inst list \<times> access_pass) result" where
  "instrument_if i k rdWr p =
     bind_r (getOperand k i) (\<lambda>op.
       if hasAnnotation i op ''check_av'' 1 then
         (let (new, n) = instrument_access op rdWr (next_id p) in
          Inr (new, p\<lparr>next_id := n, num_accesses := num_accesses p + 1\<rparr>))
       else Inr ([], p))"

definition before_inst :: "inst \<Rightarrow> access_pass \<Rightarrow> (inst list \<times> access_pass) result" where
  "before_inst i p =
     (if i_opcode i = Op_Load then instrument_if i 0 0 p
      else if i_opcode i = Op_Store then instrument_if i 1 1 p
      else Inr ([], p))"

fun access_insts :: "inst list \<Rightarrow> access_pass \<Rightarrow> (inst list \<times> access_pass) result" where
  "access_insts [] p = Inr ([], p)"
| "access_insts (i # is) p =
     bind_r (before_inst i p) (\<lambda>(new, p1).
     bind_r (access_insts is p1) (\<lambda>(rest, p2). Inr (new @ i # rest, p2)))"

definition access_parseBB :: "block \<Rightarrow> access_pass \<Rightarrow> (block \<times> access_pass) result" where
  "access_parseBB b p = bind_r (access_insts (b_insts b) p) (\<lambda>(is, p1). Inr (b\<lparr>b_insts := is\<rparr>, p1))"

fun access_blocks :: "block list \<Rightarrow> access_pass \<Rightarrow> (block list \<times> access_pass) result" where
  "access_blocks [] p = Inr ([], p)"
| "access_blocks (b # bs) p =
     bind_r (access_parseBB b p) (\<lambda>(b1, p1).
     bind_r (access_blocks bs p1) (\<lambda>(bs1, p2). Inr (b1 # bs1, p2)))"

fun access_functions :: "string \<Rightarrow> func list \<Rightarrow> access_pass \<Rightarrow> (func list \<times> access_pass) result" where
  "access_functions file [] p = Inr ([], p)"
| "access_functions file (f # fs) p =
     bind_r (if instru_fn file (f_name f)
             then bind_r (access_blocks (f_blocks f) p) (\<lambda>(bs, p1). Inr (f\<lparr>f_blocks := bs\<rparr>, p1))
             else Inr (f, p)) (\<lambda>(f1, p1).
     bind_r (access_functions file fs p1) (\<lambda>(fs1, p2). Inr (f1 # fs1, p2)))"

definition intializeTaskDebugFunctions :: "func list \<Rightarrow> func list" where
  "intializeTaskDebugFunctions m = getOrInsertFunction ''RecordMem'' (getOrInsertFunction ''get_cur_tid'' m)"

definition intializeTaskDebugVariables :: "func list \<Rightarrow> unit result" where
  "intializeTaskDebugVariables m =
     assert_r (getFunction ''get_cur_tid'' m \<noteq> None) AssertFail
       (assert_r (getFunction ''RecordMem'' m \<noteq> None) AssertFail (Inr ()))"

definition access_runOnModule :: "string \<Rightarrow> func list \<Rightarrow> access_pass \<Rightarrow> (func list \<times> access_pass) result" where
  "access_runOnModule file m p =
     (let m1 = intializeTaskDebugFunctions m in
      bind_r (intializeTaskDebugVariables m1) (\<lambda>_. access_functions file m1 p))"

section \<open>What the pass does\<close>

text \<open>The accesses that are recorded, with what is recorded of them.\<close>

definition watched :: "inst \<Rightarrow> (val \<times> nat) option" where
  "watched i =
     (case i_opcode i of
        Op_Load \<Rightarrow> if hasAnnotation i (i_operands i ! 0) ''check_av'' 1 then Some (i_operands i ! 0, 0) else None
      | Op_Store \<Rightarrow> if hasAnnotation i (i_operands i ! 1) ''check_av'' 1 then Some (i_operands i ! 1, 1) else None
      | _ \<Rightarrow> None)"

text \<open>Loads have an operand, stores two; identities are below the next one.\<close>

definition inst_ok :: "nat \<Rightarrow> inst \<Rightarrow> bool" where
  "inst_ok n i \<longleftrightarrow> i_id i < n \<and> (i_opcode i = Op_Load \<longrightarrow> i_operands i \<noteq> []) \<and>
     (i_opcode i = Op_Store \<longrightarrow> 2 \<le> length (i_operands i))"

lemma inst_ok_mono: "inst_ok n i \<Longrightarrow> n \<le> m \<Longrightarrow> inst_ok m i"
  by (simp add: inst_ok_def)

definition recorded :: "nat \<Rightarrow> val \<times> nat \<Rightarrow> inst list" where
  "recorded n = (\<lambda>(op, rdWr). fst (instrument_access op rdWr n))"

lemma before_inst_watched:
  assumes "inst_ok n i"
  shows "before_inst i p =
    (case watched i of None \<Rightarrow> Inr ([], p)
     | Some w \<Rightarrow> Inr (recorded (next_id p) w, p\<lparr>next_id := next_id p + 3, num_accesses := num_accesses p + 1\<rparr>))"
  using assms
  by (cases "i_opcode i") (auto simp: before_inst_def watched_def instrument_if_def getOperand_def
      inst_ok_def recorded_def instrument_access_def Let_def)

lemma recorded_ids: "\<forall>j\<in>set (recorded n w). n \<le> i_id j"
  by (cases w) (simp add: recorded_def instrument_access_def Let_def new_inst_def)

text \<open>
  \<open>recorded_at n is is'\<close>: \<open>is'\<close> is \<open>is\<close> with the record of every watched access right before
  it, new identities starting at \<open>n\<close>.
\<close>

fun with_records :: "nat \<Rightarrow> inst list \<Rightarrow> inst list" where
  "with_records n [] = []"
| "with_records n (i # is) =
     (case watched i of None \<Rightarrow> i # with_records n is
      | Some w \<Rightarrow> recorded n w @ i # with_records (n + 3) is)"

definition count_watched :: "inst list \<Rightarrow> nat" where
  "count_watched is = length (filter (\<lambda>i. watched i \<noteq> None) is)"

lemma access_insts_records:
  assumes "\<forall>i\<in>set is. inst_ok (next_id p) i"
  shows "access_insts is p = Inr (with_records (next_id p) is,
    p\<lparr>next_id := next_id p + 3 * count_watched is, num_accesses := num_accesses p + count_watched is\<rparr>)"
  using assms
proof (induction "is" arbitrary: p)
  case (Cons i "is")
  then have b: "before_inst i p = (case watched i of None \<Rightarrow> Inr ([], p)
     | Some w \<Rightarrow> Inr (recorded (next_id p) w, p\<lparr>next_id := next_id p + 3, num_accesses := num_accesses p + 1\<rparr>))"
    using before_inst_watched[of "next_id p"] by simp
  show ?case
  proof (cases "watched i")
    case None
    have "access_insts is p = Inr (with_records (next_id p) is,
      p\<lparr>next_id := next_id p + 3 * count_watched is, num_accesses := num_accesses p + count_watched is\<rparr>)"
      by (rule Cons.IH) (use Cons.prems in simp)
    then show ?thesis using b None by (simp add: count_watched_def)
  next
    case (Some w)
    let ?p = "p\<lparr>next_id := next_id p + 3, num_accesses := num_accesses p + 1\<rparr>"
    have "\<forall>i\<in>set is. inst_ok (next_id ?p) i" using Cons.prems inst_ok_mono by fastforce
    from Cons.IH[OF this] show ?thesis using b Some by (simp add: count_watched_def)
  qed
qed (simp add: count_watched_def)

text \<open>Taking the new instructions out again gives back the code.\<close>

lemma with_records_erase:
  assumes "\<forall>i\<in>set is. i_id i < m" and "m \<le> n"
  shows "filter (\<lambda>i. i_id i < m) (with_records n is) = is"
  using assms
proof (induction "is" arbitrary: n)
  case (Cons i "is")
  then have "filter (\<lambda>i. i_id i < m) (recorded n w) = []" for w
    using recorded_ids[of n w] by (auto simp: filter_empty_conv)
  with Cons show ?case by (auto split: option.split)
qed simp

lemma with_records_before:
  assumes "watched i = Some w"
  shows "\<exists>k us' vs'. n \<le> k \<and> with_records n (us @ i # vs) = us' @ recorded k w @ i # vs'"
proof (induction us arbitrary: n)
  case Nil
  show ?case using assms
    by (intro exI[of _ n] exI[of _ "[]"] exI[of _ "with_records (n + 3) vs"]) simp
next
  case (Cons u us)
  show ?case
  proof (cases "watched u")
    case None
    obtain k us' vs' where "n \<le> k" "with_records n (us @ i # vs) = us' @ recorded k w @ i # vs'"
      using Cons by blast
    with None show ?thesis by (intro exI[of _ k] exI[of _ "u # us'"] exI[of _ vs']) simp
  next
    case (Some x)
    obtain k us' vs' where "n + 3 \<le> k" "with_records (n + 3) (us @ i # vs) = us' @ recorded k w @ i # vs'"
      using Cons by blast
    with Some show ?thesis by (intro exI[of _ k] exI[of _ "recorded n x @ u # us'"] exI[of _ vs']) simp
  qed
qed

section \<open>Blocks, functions, modules\<close>

definition block_ok :: "nat \<Rightarrow> block \<Rightarrow> bool" where
  "block_ok n b \<longleftrightarrow> (\<forall>i\<in>set (b_insts b). inst_ok n i)"

definition func_ok :: "nat \<Rightarrow> func \<Rightarrow> bool" where
  "func_ok n f \<longleftrightarrow> (\<forall>b\<in>set (f_blocks f). block_ok n b)"

lemma ok_mono: "block_ok n b \<Longrightarrow> n \<le> m \<Longrightarrow> block_ok m b" "func_ok n f \<Longrightarrow> n \<le> m \<Longrightarrow> func_ok m f"
  by (meson block_ok_def func_ok_def inst_ok_mono)+

definition block_recorded :: "nat \<Rightarrow> block \<Rightarrow> block \<Rightarrow> bool" where
  "block_recorded m b b' \<longleftrightarrow> b_term b' = b_term b \<and> (\<exists>n\<ge>m. b_insts b' = with_records n (b_insts b))"

definition func_recorded :: "string \<Rightarrow> nat \<Rightarrow> func \<Rightarrow> func \<Rightarrow> bool" where
  "func_recorded file m f f' \<longleftrightarrow> f_name f' = f_name f \<and>
     (if instru_fn file (f_name f) then list_all2 (block_recorded m) (f_blocks f) (f_blocks f') else f' = f)"

definition watched_in :: "func \<Rightarrow> nat" where
  "watched_in f = sum_list (map (\<lambda>b. count_watched (b_insts b)) (f_blocks f))"

lemma access_blocks_recorded:
  assumes "\<forall>b\<in>set bs. block_ok (next_id p) b" and "m \<le> next_id p"
  shows "\<exists>bs' p'. access_blocks bs p = Inr (bs', p') \<and> list_all2 (block_recorded m) bs bs' \<and>
    next_id p \<le> next_id p' \<and>
    num_accesses p' = num_accesses p + sum_list (map (\<lambda>b. count_watched (b_insts b)) bs)"
  using assms
proof (induction bs arbitrary: p)
  case (Cons b bs)
  let ?c = "count_watched (b_insts b)"
  let ?p = "p\<lparr>next_id := next_id p + 3 * ?c, num_accesses := num_accesses p + ?c\<rparr>"
  let ?b = "b\<lparr>b_insts := with_records (next_id p) (b_insts b)\<rparr>"
  have 1: "access_parseBB b p = Inr (?b, ?p)"
    using Cons.prems access_insts_records[of "b_insts b" p] by (simp add: access_parseBB_def block_ok_def)
  have ok: "\<forall>b\<in>set bs. block_ok (next_id ?p) b" "m \<le> next_id ?p" using Cons.prems ok_mono(1) by fastforce+
  obtain bs' p' where "access_blocks bs ?p = Inr (bs', p')" "list_all2 (block_recorded m) bs bs'"
    "next_id ?p \<le> next_id p'"
    "num_accesses p' = num_accesses ?p + sum_list (map (\<lambda>b. count_watched (b_insts b)) bs)"
    using Cons.IH[OF ok] by blast
  moreover have "block_recorded m b ?b" using Cons.prems by (auto simp: block_recorded_def)
  ultimately show ?case using 1 by simp
qed simp

lemma access_functions_recorded:
  assumes "\<forall>f\<in>set fs. func_ok (next_id p) f" and "m \<le> next_id p"
  shows "\<exists>fs' p'. access_functions file fs p = Inr (fs', p') \<and> list_all2 (func_recorded file m) fs fs' \<and>
    num_accesses p' = num_accesses p +
      sum_list (map watched_in (filter (\<lambda>f. instru_fn file (f_name f)) fs))"
  using assms
proof (induction fs arbitrary: p)
  case (Cons f fs)
  show ?case
  proof (cases "instru_fn file (f_name f)")
    case False
    have ok: "\<forall>f\<in>set fs. func_ok (next_id p) f" using Cons.prems by simp
    have "func_recorded file m f f" using False by (simp add: func_recorded_def)
    with Cons.IH[OF ok Cons.prems(2)] False show ?thesis by auto
  next
    case True
    obtain bs' p1 where 1: "access_blocks (f_blocks f) p = Inr (bs', p1)"
      "list_all2 (block_recorded m) (f_blocks f) bs'" "next_id p \<le> next_id p1"
      "num_accesses p1 = num_accesses p + watched_in f"
      using access_blocks_recorded[of "f_blocks f" p m] Cons.prems by (auto simp: func_ok_def watched_in_def)
    have ok: "\<forall>f\<in>set fs. func_ok (next_id p1) f" "m \<le> next_id p1"
      using Cons.prems 1(3) ok_mono(2) by fastforce+
    obtain fs' p' where 2: "access_functions file fs p1 = Inr (fs', p')" "list_all2 (func_recorded file m) fs fs'"
      "num_accesses p' = num_accesses p1 + sum_list (map watched_in (filter (\<lambda>f. instru_fn file (f_name f)) fs))"
      using Cons.IH[OF ok] by blast
    have "func_recorded file m f (f\<lparr>f_blocks := bs'\<rparr>)" using True 1(2) by (simp add: func_recorded_def)
    then show ?thesis using True 1 2 by simp
  qed
qed simp

lemma module_funcs:
  "\<exists>ds. intializeTaskDebugFunctions m = m @ ds \<and> (\<forall>f\<in>set ds. f_blocks f = [])"
proof -
  obtain ds where 1: "getOrInsertFunction ''get_cur_tid'' m = m @ ds" "\<forall>f\<in>set ds. f_blocks f = []"
    using getOrInsertFunction_prefix by blast
  obtain es where 2: "getOrInsertFunction ''RecordMem'' (m @ ds) = (m @ ds) @ es" "\<forall>f\<in>set es. f_blocks f = []"
    using getOrInsertFunction_prefix by blast
  show ?thesis
    using 1 2 by (intro exI[of _ "ds @ es"]) (auto simp: intializeTaskDebugFunctions_def)
qed

lemma module_variables: "intializeTaskDebugVariables (intializeTaskDebugFunctions m) = Inr ()"
  using getFunction_inserted getFunction_kept
  by (simp add: intializeTaskDebugVariables_def intializeTaskDebugFunctions_def)


text \<open>A function with a load of an annotated local and a store through an annotated pointer.\<close>

definition sample_insts :: "inst list" where
  "sample_insts = [
     \<lparr>i_id = 1, i_opcode = Op_Load, i_callee = None,
        i_operands = [InstVal 0 Op_Alloca (Some (''check_av'', 1))], i_tyann = None\<rparr>,
     \<lparr>i_id = 2, i_opcode = Op_Store, i_callee = None,
        i_operands = [ConstInt 5, OtherVal 7], i_tyann = Some (''check_av'', 0)\<rparr>]"

definition sample_module :: "func list" where
  "sample_module = [\<lparr>f_name = ''work'', f_blocks = [\<lparr>b_insts = sample_insts, b_term = Some []\<rparr>]\<rparr>]"

lemma sample_module_ok: "\<forall>f\<in>set sample_module. func_ok 3 f"
  by (simp add: sample_module_def sample_insts_def func_ok_def block_ok_def inst_ok_def)


text \<open>
  The access pass does not disturb the program: taking the instructions it made out of a
  block of a function it instrumented gives back the block, and each annotated access in it has
  its record, a call of \<open>RecordMem\<close> with the thread, the address and the kind of access, right
  before it.
\<close>

theorem access_pass_block:
  assumes "block_ok m b" and "block_recorded m b b'"
  shows "b\<lparr>b_insts := filter (\<lambda>i. i_id i < m) (b_insts b')\<rparr> = b \<and>
    (\<forall>us i vs op k. b_insts b = us @ i # vs \<longrightarrow> watched i = Some (op, k) \<longrightarrow>
      (\<exists>n us' vs'. b_insts b' = us' @
        [new_inst n Op_Call (Some ''get_cur_tid'') [], new_inst (n + 1) Op_BitCast None [op],
         new_inst (n + 2) Op_Call (Some ''RecordMem'')
           [InstVal n Op_Call None, InstVal (n + 1) Op_BitCast None, ConstInt k]] @ i # vs'))"
proof (intro conjI allI impI)
  obtain n where n: "m \<le> n" "b_insts b' = with_records n (b_insts b)"
    using assms(2) by (auto simp: block_recorded_def)
  have "\<forall>i\<in>set (b_insts b). i_id i < m" using assms(1) by (simp add: block_ok_def inst_ok_def)
  then show "b\<lparr>b_insts := filter (\<lambda>i. i_id i < m) (b_insts b')\<rparr> = b"
    using with_records_erase n by simp
  fix us i vs op k
  assume "b_insts b = us @ i # vs" "watched i = Some (op, k)"
  then obtain l us' vs' where "b_insts b' = us' @ recorded l (op, k) @ i # vs'"
    using with_records_before[of i "(op, k)" n us vs] n(2) by auto
  then show "\<exists>n us' vs'. b_insts b' = us' @
        [new_inst n Op_Call (Some ''get_cur_tid'') [], new_inst (n + 1) Op_BitCast None [op],
         new_inst (n + 2) Op_Call (Some ''RecordMem'')
           [InstVal n Op_Call None, InstVal (n + 1) Op_BitCast None, ConstInt k]] @ i # vs'"
    by (intro exI[of _ l] exI[of _ us'] exI[of _ vs'])
      (simp add: recorded_def instrument_access_def Let_def as_val_def new_inst_def)
qed

theorem access_pass_block_witness:
  "filter (\<lambda>i. i_id i < 3) (with_records 3 sample_insts) = sample_insts"
proof -
  let ?b = "\<lparr>b_insts = sample_insts, b_term = Some []\<rparr>"
    and ?b' = "\<lparr>b_insts = with_records 3 sample_insts, b_term = Some []\<rparr>"
  have "block_ok 3 ?b" using sample_module_ok by (simp add: sample_module_def func_ok_def)
  moreover have "block_recorded 3 ?b ?b'" by (auto simp: block_recorded_def)
  ultimately show ?thesis using access_pass_block[of 3 ?b ?b'] by simp
qed

end
