(* ===== verification/Branch_Pass.thy ===== *)
theory Branch_Pass
  imports Access_Pass
begin

text \<open>
  The branch pass (\<open>TaskDebugBranchCheck.cpp\<close>): for two blocks of which a branch takes one,
  each gets, right after its \<open>phi\<close>s, a call of \<open>RecordAccess\<close> for every annotated access of the
  other, with the locks that the other block has taken and dropped before that access. The
  blocks of a function are visited depth first from the entry; the recursion takes fuel, which
  \<open>dfs_returns\<close> bounds by the number of blocks.
\<close>

section \<open>One recorded access\<close>

text \<open>
  An array of locks on the stack: the \<open>alloca\<close>, and for each lock the address of its element
  and the store. No locks make a null pointer and no instruction.
\<close>

fun store_locks :: "inst \<Rightarrow> nat \<Rightarrow> val list \<Rightarrow> nat \<Rightarrow> inst list \<times> nat" where
  "store_locks a j [] n = ([], n)"
| "store_locks a j (l # ls) n =
     (let lock_elem = new_inst n Op_GetElementPtr None [as_val a, ConstInt 0, ConstInt j];
          str_inst = new_inst (n + 1) Op_Store None [l, as_val lock_elem];
          (rest, m) = store_locks a (j + 1) ls (n + 2)
      in (lock_elem # str_inst # rest, m))"

definition lock_array :: "val list \<Rightarrow> nat \<Rightarrow> inst list \<times> val \<times> nat" where
  "lock_array locks n =
     (if locks = [] then ([], NullVal, n)
      else (let a = new_inst n Op_Alloca None [ConstInt (length locks)];
                (stores, m) = store_locks a 0 locks (n + 1)
            in (a # stores, as_val a, m)))"

definition summary_access :: "val \<Rightarrow> nat \<Rightarrow> val list \<Rightarrow> val list \<Rightarrow> nat \<Rightarrow> inst list \<times> nat" where
  "summary_access addr rdWr locks_acq locks_rel n =
     (let get_tid = new_inst n Op_Call (Some ''get_cur_tid'') [];
          bitcast = new_inst (n + 1) Op_BitCast None [addr];
          (acq, acq_ptr, n1) = lock_array locks_acq (n + 2);
          (rel, rel_ptr, n2) = lock_array locks_rel n1;
          recordAccCall = new_inst n2 Op_Call (Some ''RecordAccess'')
            [as_val get_tid, as_val bitcast, acq_ptr, ConstInt (length locks_acq),
             rel_ptr, ConstInt (length locks_rel), ConstInt rdWr]
      in (get_tid # bitcast # acq @ rel @ [recordAccCall], n2 + 1))"

section \<open>The summary of a block\<close>

text \<open>
  The pass: the blocks of the function at hand and the next identity. Instructions go in at the
  first non-\<open>phi\<close> of the receiving block, in front of what went in there before.
\<close>

record branch_pass =
  blocks :: "block list"
  fresh :: nat

definition insert_summary :: "nat \<Rightarrow> val \<Rightarrow> nat \<Rightarrow> val list \<Rightarrow> val list \<Rightarrow> branch_pass \<Rightarrow> branch_pass" where
  "insert_summary to_bb addr rdWr acq rel p =
     (let (new, n) = summary_access addr rdWr acq rel (fresh p)
      in p\<lparr>blocks := (blocks p)[to_bb := insert_at_first_non_phi new (blocks p ! to_bb)], fresh := n\<rparr>)"

definition summarise_access ::
    "inst \<Rightarrow> nat \<Rightarrow> nat \<Rightarrow> nat \<Rightarrow> val list \<Rightarrow> val list \<Rightarrow> branch_pass \<Rightarrow> branch_pass result" where
  "summarise_access i k rdWr to_bb acq rel p =
     bind_r (getOperand k i) (\<lambda>op.
       Inr (if hasAnnotation i op ''check_av'' 1 then insert_summary to_bb op rdWr acq rel p else p))"

fun summarise :: "inst list \<Rightarrow> nat \<Rightarrow> val list \<Rightarrow> val list \<Rightarrow> branch_pass \<Rightarrow> branch_pass result" where
  "summarise [] to_bb acq rel p = Inr p"
| "summarise (i # is) to_bb acq rel p =
     (if i_opcode i = Op_Call then
        (if i_callee i = Some ''CaptureLockAcquire'' then
           bind_r (getOperand 1 i) (\<lambda>l. summarise is to_bb (acq @ [l]) rel p)
         else if i_callee i = Some ''CaptureLockRelease'' then
           bind_r (getOperand 1 i) (\<lambda>l. summarise is to_bb acq (rel @ [l]) p)
         else summarise is to_bb acq rel p)
      else if i_opcode i = Op_Load then
        bind_r (summarise_access i 0 0 to_bb acq rel p) (\<lambda>p1. summarise is to_bb acq rel p1)
      else if i_opcode i = Op_Store then
        bind_r (summarise_access i 1 1 to_bb acq rel p) (\<lambda>p1. summarise is to_bb acq rel p1)
      else summarise is to_bb acq rel p)"

text \<open>
  The loop starts at \<open>first_inst\<close>; what goes into the block itself while it runs (when both
  successors are the same block) goes in before that instruction, so the loop does not see it.
\<close>

definition addFunctionSummaries :: "nat \<Rightarrow> nat \<Rightarrow> nat option \<Rightarrow> branch_pass \<Rightarrow> branch_pass result" where
  "addFunctionSummaries from_bb to_bb first_inst p =
     summarise (dropWhile (\<lambda>i. Some (i_id i) \<noteq> first_inst) (b_insts (blocks p ! from_bb))) to_bb [] [] p"

definition checkForBranch :: "nat list \<Rightarrow> branch_pass \<Rightarrow> branch_pass result" where
  "checkForBranch succs p =
     (if length succs = 0 \<or> length succs = 1 then Inr p
      else
        (let s1 = succs ! 0; s2 = succs ! 1;
             first1 = getFirstNonPHI (blocks p ! s1); first2 = getFirstNonPHI (blocks p ! s2) in
         bind_r (deref_r (b_term (blocks p ! s1))) (\<lambda>t1.
         bind_r (deref_r (b_term (blocks p ! s2))) (\<lambda>t2.
           if length t1 = 0 \<and> length t2 = 0 \<or>
              length t1 = 1 \<and> length t2 = 1 \<and> t1 ! 0 = t2 ! 0 then
             bind_r (addFunctionSummaries s1 s2 first1 p) (addFunctionSummaries s2 s1 first2)
           else if length t1 = 1 \<and> t1 ! 0 = s2 then addFunctionSummaries s1 s2 first1 p
           else if length t2 = 1 \<and> t2 ! 0 = s1 then addFunctionSummaries s2 s1 first2 p
           else Inr p))))"

section \<open>The depth-first visit\<close>

definition successor_visited :: "nat \<Rightarrow> nat set \<Rightarrow> bool \<times> nat set" where
  "successor_visited blk bbVisitedMap =
     (if blk \<in> bbVisitedMap then (True, bbVisitedMap) else (False, insert blk bbVisitedMap))"

fun branch_parseBB :: "nat \<Rightarrow> nat \<Rightarrow> nat set \<times> branch_pass \<Rightarrow> (nat set \<times> branch_pass) result"
and visit_succs :: "nat \<Rightarrow> nat list \<Rightarrow> nat set \<times> branch_pass \<Rightarrow> (nat set \<times> branch_pass) result" where
  "branch_parseBB 0 blk st = Inl Diverges"
| "branch_parseBB (Suc fuel) blk (visited, p) =
     (case b_term (blocks p ! blk) of
        None \<Rightarrow> Inr (visited, p)
      | Some succs \<Rightarrow>
          bind_r (checkForBranch succs p) (\<lambda>p1. visit_succs fuel succs (visited, p1)))"
| "visit_succs fuel [] st = Inr st"
| "visit_succs fuel (s # ss) (visited, p) =
     (case successor_visited s visited of
        (True, v1) \<Rightarrow> visit_succs fuel ss (v1, p)
      | (False, v1) \<Rightarrow> bind_r (branch_parseBB fuel s (v1, p)) (visit_succs fuel ss))"

section \<open>The module\<close>

definition intializeBranchCheckFunctions :: "func list \<Rightarrow> func list" where
  "intializeBranchCheckFunctions m =
     getOrInsertFunction ''CaptureLockRelease'' (getOrInsertFunction ''CaptureLockAcquire''
       (getOrInsertFunction ''RecordAccess'' (getOrInsertFunction ''get_cur_tid'' m)))"

definition intializeBranchCheckVariables :: "func list \<Rightarrow> unit result" where
  "intializeBranchCheckVariables m =
     assert_r (getFunction ''get_cur_tid'' m \<noteq> None) AssertFail
       (assert_r (getFunction ''RecordAccess'' m \<noteq> None) AssertFail
         (assert_r (getFunction ''CaptureLockAcquire'' m \<noteq> None) AssertFail
           (assert_r (getFunction ''CaptureLockRelease'' m \<noteq> None) AssertFail (Inr ()))))"

text \<open>\<open>getEntryBlock\<close> of a declaration reads past the end of its empty list of blocks.\<close>

fun branch_functions :: "string \<Rightarrow> func list \<Rightarrow> nat \<Rightarrow> (func list \<times> nat) result" where
  "branch_functions file [] n = Inr ([], n)"
| "branch_functions file (f # fs) n =
     bind_r (if \<not> instru_fn file (f_name f) then Inr (f, n)
             else if f_blocks f = [] then Inl OutOfBounds
             else bind_r (branch_parseBB (length (f_blocks f) + 1) 0 ({0}, \<lparr>blocks = f_blocks f, fresh = n\<rparr>))
                    (\<lambda>(visited, p). Inr (f\<lparr>f_blocks := blocks p\<rparr>, fresh p))) (\<lambda>(f1, n1).
     bind_r (branch_functions file fs n1) (\<lambda>(fs1, n2). Inr (f1 # fs1, n2)))"

definition branch_runOnModule :: "string \<Rightarrow> func list \<Rightarrow> nat \<Rightarrow> (func list \<times> nat) result" where
  "branch_runOnModule file m n =
     (let m1 = intializeBranchCheckFunctions m in
      bind_r (intializeBranchCheckVariables m1) (\<lambda>_. branch_functions file m1 n))"

end
