(* ===== verification/Branch_Checks.thy ===== *)
theory Branch_Checks
  imports Branch_Pass
begin

text \<open>
  The branch pass keeps the code: every block keeps its instructions, its \<open>phi\<close>s and its
  terminator, new instructions aside. It returns, having visited the blocks that the entry
  reaches, and the summary it leaves in a block is \<open>summary\<close>.
\<close>

section \<open>Well-formed code\<close>

definition branch_inst_ok :: "nat \<Rightarrow> inst \<Rightarrow> bool" where
  "branch_inst_ok n i \<longleftrightarrow> inst_ok n i \<and>
     (i_opcode i = Op_Call \<and> i_callee i \<in> {Some ''CaptureLockAcquire'', Some ''CaptureLockRelease''} \<longrightarrow>
        2 \<le> length (i_operands i))"

definition pass_ok :: "nat \<Rightarrow> branch_pass \<Rightarrow> bool" where
  "pass_ok N p \<longleftrightarrow> length (blocks p) = N \<and>
     (\<forall>b\<in>set (blocks p). (\<forall>i\<in>set (b_insts b). branch_inst_ok (fresh p) i) \<and>
        (\<exists>ss. b_term b = Some ss \<and> set ss \<subseteq> {..<N}))"

definition same_code :: "nat \<Rightarrow> block \<Rightarrow> block \<Rightarrow> bool" where
  "same_code m b b' \<longleftrightarrow> b_term b' = b_term b \<and>
     filter (\<lambda>i. i_id i < m) (b_insts b') = filter (\<lambda>i. i_id i < m) (b_insts b) \<and>
     takeWhile is_phi (b_insts b') = takeWhile is_phi (b_insts b)"

definition keeps_code :: "nat \<Rightarrow> branch_pass \<Rightarrow> branch_pass \<Rightarrow> bool" where
  "keeps_code m p p' \<longleftrightarrow> list_all2 (same_code m) (blocks p) (blocks p') \<and> fresh p \<le> fresh p'"

lemma same_code_trans: "same_code m a b \<Longrightarrow> same_code m b c \<Longrightarrow> same_code m a c"
  by (simp add: same_code_def)

lemma same_code_refl: "same_code m b b"
  by (simp add: same_code_def)

lemma keeps_code_refl [simp]: "keeps_code m p p"
  by (simp add: keeps_code_def same_code_refl list.rel_refl)

lemma keeps_code_trans: "keeps_code m p q \<Longrightarrow> keeps_code m q r \<Longrightarrow> keeps_code m p r"
  using list_all2_trans[of "same_code m" "same_code m" "same_code m" "blocks p" "blocks q" "blocks r"]
    same_code_trans by (auto simp: keeps_code_def)

lemma keeps_code_block: "keeps_code m p p' \<Longrightarrow> k < length (blocks p) \<Longrightarrow> same_code m (blocks p ! k) (blocks p' ! k)"
  by (simp add: keeps_code_def list_all2_nthD)

lemma keeps_code_length: "keeps_code m p p' \<Longrightarrow> length (blocks p') = length (blocks p)"
  unfolding keeps_code_def using list_all2_lengthD by metis

lemma pass_ok_block:
  assumes "pass_ok N p" and "k < N"
  obtains ss where "b_term (blocks p ! k) = Some ss" and "set ss \<subseteq> {..<N}"
    and "\<forall>i\<in>set (b_insts (blocks p ! k)). branch_inst_ok (fresh p) i"
proof -
  have "blocks p ! k \<in> set (blocks p)" using assms by (simp add: pass_ok_def)
  then show thesis using assms(1) that unfolding pass_ok_def by blast
qed

section \<open>New instructions\<close>

definition all_new :: "nat \<Rightarrow> nat \<Rightarrow> inst list \<Rightarrow> bool" where
  "all_new n m is \<longleftrightarrow> n \<le> m \<and> (\<forall>i\<in>set is. n \<le> i_id i \<and> branch_inst_ok m i \<and> \<not> is_phi i)"

lemma all_new_append: "all_new n m is \<Longrightarrow> all_new m l js \<Longrightarrow> all_new n l (is @ js)"
  by (force simp: all_new_def branch_inst_ok_def inst_ok_def)

lemma all_new_Cons: "all_new n (Suc n) [i] \<Longrightarrow> all_new (Suc n) l js \<Longrightarrow> all_new n l (i # js)"
  using all_new_append[of n "Suc n" "[i]" l js] by simp

lemma new_inst_new:
  assumes "op = Op_Call \<longrightarrow> callee \<notin> {Some ''CaptureLockAcquire'', Some ''CaptureLockRelease''}"
    and "op \<noteq> Op_Load" and "op = Op_Store \<longrightarrow> 2 \<le> length args" and "op \<noteq> Op_PHI"
  shows "all_new n (Suc n) [new_inst n op callee args]"
  using assms by (auto simp: all_new_def new_inst_def branch_inst_ok_def inst_ok_def is_phi_def)

lemma store_locks_new: "store_locks a j ls n = (is, m) \<Longrightarrow> all_new n m is"
proof (induction a j ls n arbitrary: "is" m rule: store_locks.induct)
  case (2 a j l ls n)
  obtain r m' where r: "store_locks a (j + 1) ls (n + 2) = (r, m')" by fastforce
  note R = "2.IH"[OF refl refl r]
  have "all_new (Suc n) m' (new_inst (n + 1) Op_Store None
      [l, as_val (new_inst n Op_GetElementPtr None [as_val a, ConstInt 0, ConstInt j])] # r)"
    by (rule all_new_Cons) (use new_inst_new[of Op_Store None _ "n + 1"] R in simp_all)
  then have "all_new n m' (new_inst n Op_GetElementPtr None [as_val a, ConstInt 0, ConstInt j] #
     new_inst (n + 1) Op_Store None
      [l, as_val (new_inst n Op_GetElementPtr None [as_val a, ConstInt 0, ConstInt j])] # r)"
    by (rule all_new_Cons[rotated]) (rule new_inst_new; simp)
  with "2.prems" r show ?case by (simp add: Let_def)
qed (simp add: all_new_def)

lemma lock_array_new:
  assumes "lock_array ls n = (is, v, m)"
  shows "all_new n m is"
proof (cases "ls = []")
  case False
  let ?a = "new_inst n Op_Alloca None [ConstInt (length ls)]"
  obtain s where s: "store_locks ?a 0 ls (n + 1) = (s, m)" "is = ?a # s"
    using assms False by (auto simp: lock_array_def Let_def split: prod.splits)
  have "all_new n m (?a # s)"
    by (rule all_new_Cons) (use new_inst_new[of Op_Alloca None _ n] store_locks_new[OF s(1)] in simp_all)
  with s(2) show ?thesis by simp
qed (use assms in \<open>simp add: lock_array_def all_new_def\<close>)

lemma summary_access_new:
  assumes "summary_access addr rdWr acq rel n = (is, m)"
  shows "all_new n m is"
proof -
  obtain a ap n1 where a: "lock_array acq (n + 2) = (a, ap, n1)" by (metis prod_cases3)
  obtain r rp n2 where r: "lock_array rel n1 = (r, rp, n2)" by (metis prod_cases3)
  let ?t = "new_inst n Op_Call (Some ''get_cur_tid'') []" and ?b = "new_inst (n + 1) Op_BitCast None [addr]"
  let ?c = "new_inst n2 Op_Call (Some ''RecordAccess'') [as_val ?t, as_val ?b, ap, ConstInt (length acq),
    rp, ConstInt (length rel), ConstInt rdWr]"
  have 1: "all_new n (Suc n) [?t]" "all_new (Suc n) (Suc (Suc n)) [?b]" "all_new n2 (Suc n2) [?c]"
    using new_inst_new[of Op_Call _ _ n] new_inst_new[of Op_BitCast None "[addr]" "Suc n"]
      new_inst_new[of Op_Call "Some ''RecordAccess''" _ n2] by simp_all
  have "all_new n (Suc (Suc n)) ([?t] @ [?b])" by (rule all_new_append[OF 1(1,2)])
  moreover have "all_new (Suc (Suc n)) (Suc n2) ((a @ r) @ [?c])"
    using all_new_append[OF all_new_append[OF lock_array_new[OF a] lock_array_new[OF r]] 1(3)] by simp
  ultimately have "all_new n (Suc n2) (([?t] @ [?b]) @ ((a @ r) @ [?c]))" by (rule all_new_append)
  with assms a r show ?thesis by (simp add: summary_access_def Let_def)
qed

section \<open>Insertions keep the code\<close>

lemma takeWhile_dropWhile: "takeWhile P (dropWhile P xs) = []" "dropWhile P (dropWhile P xs) = dropWhile P xs"
  by (induction xs) simp_all

lemma filter_new: "all_new n l new \<Longrightarrow> m \<le> n \<Longrightarrow> filter (\<lambda>i. i_id i < m) new = []"
  by (auto simp: all_new_def filter_empty_conv)

lemma insert_same_code:
  assumes n: "all_new n l new" and m: "m \<le> n"
  shows "same_code m b (insert_at_first_non_phi new b)"
proof -
  let ?t = "takeWhile is_phi (b_insts b)" and ?d = "dropWhile is_phi (b_insts b)"
  have "takeWhile is_phi (?t @ new @ ?d) = ?t @ takeWhile is_phi (new @ ?d)"
    by (rule takeWhile_append2) (blast dest: set_takeWhileD)
  moreover have "takeWhile is_phi (new @ ?d) = []"
  proof (cases new)
    case Nil
    then show ?thesis by (simp add: takeWhile_dropWhile)
  next
    case (Cons i is')
    then show ?thesis using n by (simp add: all_new_def)
  qed
  moreover have "filter (\<lambda>i. i_id i < m) ?t @ filter (\<lambda>i. i_id i < m) ?d = filter (\<lambda>i. i_id i < m) (b_insts b)"
    by (metis filter_append takeWhile_dropWhile_id)
  then have "filter (\<lambda>i. i_id i < m) (?t @ new @ ?d) = filter (\<lambda>i. i_id i < m) (b_insts b)"
    using filter_new[OF n m] by simp
  ultimately show ?thesis by (simp add: same_code_def insert_at_first_non_phi_def)
qed

lemma branch_inst_ok_mono: "branch_inst_ok n i \<Longrightarrow> n \<le> m \<Longrightarrow> branch_inst_ok m i"
  by (auto simp: branch_inst_ok_def inst_ok_def)

lemma insert_summary_ok:
  assumes p: "pass_ok N p" and t: "to < N" and m: "m \<le> fresh p"
    and p': "p' = insert_summary to addr rdWr acq rel p"
  shows "pass_ok N p'" and "keeps_code m p p'"
proof -
  obtain new n where s: "summary_access addr rdWr acq rel (fresh p) = (new, n)" by fastforce
  note new = summary_access_new[OF s]
  have len: "length (blocks p) = N" using p by (simp add: pass_ok_def)
  have p': "p' = p\<lparr>blocks := (blocks p)[to := insert_at_first_non_phi new (blocks p ! to)], fresh := n\<rparr>"
    using p' s by (simp add: insert_summary_def)
  have n: "fresh p \<le> n" using new by (simp add: all_new_def)
  have b: "b_term (insert_at_first_non_phi new b) = b_term b"
    "set (b_insts (insert_at_first_non_phi new b)) = set (b_insts b) \<union> set new" for b
  proof -
    have "set (takeWhile is_phi (b_insts b)) \<union> set (dropWhile is_phi (b_insts b)) = set (b_insts b)"
      by (metis set_append takeWhile_dropWhile_id)
    then show "b_term (insert_at_first_non_phi new b) = b_term b"
      "set (b_insts (insert_at_first_non_phi new b)) = set (b_insts b) \<union> set new"
      by (auto simp: insert_at_first_non_phi_def)
  qed
  have ok: "(\<forall>i\<in>set (b_insts c). branch_inst_ok n i) \<and> (\<exists>ss. b_term c = Some ss \<and> set ss \<subseteq> {..<N})"
    if c: "c \<in> set (blocks p) \<or> c = insert_at_first_non_phi new (blocks p ! to)" for c
  proof -
    define c0 where "c0 = (if c \<in> set (blocks p) then c else blocks p ! to)"
    have c0: "c0 \<in> set (blocks p)" "b_term c = b_term c0" "set (b_insts c) \<subseteq> set (b_insts c0) \<union> set new"
      using c b t len by (auto simp: c0_def)
    then have old: "\<forall>i\<in>set (b_insts c0). branch_inst_ok (fresh p) i" "\<exists>ss. b_term c0 = Some ss \<and> set ss \<subseteq> {..<N}"
      using p unfolding pass_ok_def by blast+
    have "branch_inst_ok n i" if i: "i \<in> set (b_insts c)" for i
    proof -
      consider "i \<in> set (b_insts c0)" | "i \<in> set new" using i c0(3) by blast
      then show ?thesis using old(1) new n branch_inst_ok_mono by cases (auto simp: all_new_def)
    qed
    then show ?thesis using old(2) c0(2) by simp
  qed
  have "set (blocks p') \<subseteq> insert (insert_at_first_non_phi new (blocks p ! to)) (set (blocks p))"
    by (simp add: p' set_update_subset_insert)
  then show "pass_ok N p'" using ok len by (auto simp: pass_ok_def p')
  show "keeps_code m p p'"
    unfolding keeps_code_def p'
  proof
    show "list_all2 (same_code m) (blocks p) (blocks (p\<lparr>blocks := (blocks p)
        [to := insert_at_first_non_phi new (blocks p ! to)], fresh := n\<rparr>))"
      using insert_same_code[OF new m] same_code_refl
      using t len by (auto simp: list_all2_conv_all_nth nth_list_update)
    show "fresh p \<le> fresh (p\<lparr>blocks := (blocks p)
        [to := insert_at_first_non_phi new (blocks p ! to)], fresh := n\<rparr>)" using n by simp
  qed
qed

section \<open>The summary\<close>

text \<open>
  The accesses of a block that are summarised, in their order, each with its address, its kind,
  and the locks taken and dropped before it.
\<close>

fun summary :: "inst list \<Rightarrow> val list \<Rightarrow> val list \<Rightarrow> (val \<times> nat \<times> val list \<times> val list) list" where
  "summary [] acq rel = []"
| "summary (i # is) acq rel =
     (if i_opcode i = Op_Call \<and> i_callee i = Some ''CaptureLockAcquire''
      then summary is (acq @ [i_operands i ! 1]) rel
      else if i_opcode i = Op_Call \<and> i_callee i = Some ''CaptureLockRelease''
      then summary is acq (rel @ [i_operands i ! 1])
      else (case watched i of
              None \<Rightarrow> summary is acq rel
            | Some (op, rdWr) \<Rightarrow> (op, rdWr, acq, rel) # summary is acq rel))"

fun insert_summaries :: "nat \<Rightarrow> (val \<times> nat \<times> val list \<times> val list) list \<Rightarrow> branch_pass \<Rightarrow> branch_pass" where
  "insert_summaries to [] p = p"
| "insert_summaries to ((op, rdWr, acq, rel) # xs) p =
     insert_summaries to xs (insert_summary to op rdWr acq rel p)"

lemma summarise_access_ok:
  assumes "branch_inst_ok n i" and "i_opcode i = Op_Load \<and> k = 0 \<and> rdWr = 0 \<or> i_opcode i = Op_Store \<and> k = 1 \<and> rdWr = 1"
  shows "summarise_access i k rdWr to acq rel p = Inr (case watched i of None \<Rightarrow> p
     | Some (op, rw) \<Rightarrow> insert_summary to op rw acq rel p)"
  using assms
  by (auto simp: summarise_access_def getOperand_def branch_inst_ok_def inst_ok_def watched_def)

lemma summarise_summary:
  assumes "\<forall>i\<in>set is. branch_inst_ok n i"
  shows "summarise is to acq rel p = Inr (insert_summaries to (summary is acq rel) p)"
  using assms
proof (induction "is" arbitrary: acq rel p)
  case (Cons i "is")
  then have i: "branch_inst_ok n i" and IH: "summarise is to acq rel p = Inr (insert_summaries to (summary is acq rel) p)"
    for acq rel p by simp_all
  consider "i_opcode i = Op_Call" | "i_opcode i = Op_Load" | "i_opcode i = Op_Store"
    | "i_opcode i \<notin> {Op_Call, Op_Load, Op_Store}" by blast
  then show ?case
  proof cases
    case 1
    then have "watched i = None" by (simp add: watched_def)
    with 1 i show ?thesis by (auto simp: IH getOperand_def branch_inst_ok_def)
  next
    case 2
    then show ?thesis using summarise_access_ok[OF i, of 0 0 to acq rel p]
      by (simp add: IH split: option.split)
  next
    case 3
    then show ?thesis using summarise_access_ok[OF i, of 1 1 to acq rel p]
      by (simp add: IH del: One_nat_def split: option.split)
  next
    case 4
    then have "watched i = None" by (cases "i_opcode i") (simp_all add: watched_def)
    with 4 show ?thesis by (simp add: IH)
  qed
qed simp

lemma insert_summaries_ok:
  assumes "pass_ok N p" and "to < N" and "m \<le> fresh p"
  shows "pass_ok N (insert_summaries to xs p) \<and> keeps_code m p (insert_summaries to xs p)"
  using assms
proof (induction xs arbitrary: p)
  case (Cons x xs)
  obtain op rdWr acq rel where x: "x = (op, rdWr, acq, rel)" by (metis prod_cases4)
  note I = insert_summary_ok[OF Cons.prems refl, of op rdWr acq rel]
  have "m \<le> fresh (insert_summary to op rdWr acq rel p)"
    using I(2) Cons.prems(3) by (simp add: keeps_code_def)
  from Cons.IH[OF I(1) Cons.prems(2) this] show ?case using keeps_code_trans[OF I(2)] by (simp add: x)
qed simp

text \<open>What goes into one block, the calls of one summary, last one first.\<close>

fun summary_calls :: "(val \<times> nat \<times> val list \<times> val list) list \<Rightarrow> nat \<Rightarrow> inst list" where
  "summary_calls [] n = []"
| "summary_calls ((op, rdWr, acq, rel) # xs) n =
     (let (new, n1) = summary_access op rdWr acq rel n in summary_calls xs n1 @ new)"

lemma insert_at_twice:
  assumes "\<forall>i\<in>set new. \<not> is_phi i"
  shows "insert_at_first_non_phi new2 (insert_at_first_non_phi new b) = insert_at_first_non_phi (new2 @ new) b"
proof -
  let ?t = "takeWhile is_phi (b_insts b)" and ?d = "dropWhile is_phi (b_insts b)"
  have t: "takeWhile is_phi (?t @ new @ ?d) = ?t" "dropWhile is_phi (?t @ new @ ?d) = new @ ?d"
  proof -
    have 1: "takeWhile is_phi (new @ ?d) = [] \<and> dropWhile is_phi (new @ ?d) = new @ ?d"
    proof (cases new)
      case Nil
      then show ?thesis by (simp add: takeWhile_dropWhile)
    qed (use assms in simp)
    have "\<forall>i\<in>set ?t. is_phi i" by (blast dest: set_takeWhileD)
    then show "takeWhile is_phi (?t @ new @ ?d) = ?t" "dropWhile is_phi (?t @ new @ ?d) = new @ ?d"
      using 1 by (simp_all add: takeWhile_append2 dropWhile_append2)
  qed
  show ?thesis by (simp add: insert_at_first_non_phi_def t)
qed

lemma insert_at_nothing [simp]: "insert_at_first_non_phi [] b = b"
  by (simp add: insert_at_first_non_phi_def)

lemma insert_summaries_calls:
  assumes "to < length (blocks p)"
  shows "blocks (insert_summaries to xs p) =
    (blocks p)[to := insert_at_first_non_phi (summary_calls xs (fresh p)) (blocks p ! to)]"
  using assms
proof (induction xs arbitrary: p)
  case (Cons x xs)
  obtain op rdWr acq rel where x: "x = (op, rdWr, acq, rel)" by (metis prod_cases4)
  obtain new n where s: "summary_access op rdWr acq rel (fresh p) = (new, n)" by fastforce
  have np: "\<forall>i\<in>set new. \<not> is_phi i" using summary_access_new[OF s] by (simp add: all_new_def)
  let ?p = "p\<lparr>blocks := (blocks p)[to := insert_at_first_non_phi new (blocks p ! to)], fresh := n\<rparr>"
  have "blocks (insert_summaries to xs ?p) =
    (blocks ?p)[to := insert_at_first_non_phi (summary_calls xs (fresh ?p)) (blocks ?p ! to)]"
    by (rule Cons.IH) (use Cons.prems in simp)
  then show ?case
    using Cons.prems insert_at_twice[OF np] by (simp add: x insert_summary_def s)
qed simp

end
