(* ===== verification/Branch_Props.thy ===== *)
theory Branch_Props
  imports Branch_Checks
begin

text \<open>
  The visit of a function by the branch pass returns and reaches exactly the blocks that the
  entry reaches; what it does to a pair of alternatives; and a function it breaks.
\<close>

section \<open>One branch\<close>

lemma addFunctionSummaries_summary:
  assumes "pass_ok N p" and "from < N"
  shows "addFunctionSummaries from to first_inst p = Inr (insert_summaries to
    (summary (dropWhile (\<lambda>i. Some (i_id i) \<noteq> first_inst) (b_insts (blocks p ! from))) [] []) p)"
proof -
  have "\<forall>i\<in>set (b_insts (blocks p ! from)). branch_inst_ok (fresh p) i"
    by (rule pass_ok_block[OF assms])
  then show ?thesis
    unfolding addFunctionSummaries_def by (intro summarise_summary) (blast dest: set_dropWhileD)
qed

lemma addFunctionSummaries_ok:
  assumes "pass_ok N p" and "from < N" and "to < N" and "m \<le> fresh p"
  shows "\<exists>p'. addFunctionSummaries from to first_inst p = Inr p' \<and> pass_ok N p' \<and> keeps_code m p p'"
  using addFunctionSummaries_summary[OF assms(1,2)] insert_summaries_ok[OF assms(1,3,4)] by blast

lemma checkForBranch_ok:
  assumes p: "pass_ok N p" and s: "set succs \<subseteq> {..<N}" and m: "m \<le> fresh p"
  shows "\<exists>p'. checkForBranch succs p = Inr p' \<and> pass_ok N p' \<and> keeps_code m p p'"
proof (cases "length succs = 0 \<or> length succs = 1")
  case True
  then show ?thesis using p by (auto simp: checkForBranch_def)
next
  case False
  let ?a = "succs ! 0" and ?b = "succs ! 1"
  have "0 < length succs" "1 < length succs" using False by (cases succs; auto simp: neq_Nil_conv)+
  then have "?a \<in> set succs" "?b \<in> set succs" by (blast intro: nth_mem)+
  then have ab: "?a < N" "?b < N" using s by auto
  obtain ta where ta: "b_term (blocks p ! ?a) = Some ta" by (rule pass_ok_block[OF p ab(1)])
  obtain tb where tb: "b_term (blocks p ! ?b) = Some tb" by (rule pass_ok_block[OF p ab(2)])
  let ?fa = "getFirstNonPHI (blocks p ! ?a)" and ?fb = "getFirstNonPHI (blocks p ! ?b)"
  obtain p1 where 1: "addFunctionSummaries ?a ?b ?fa p = Inr p1" "pass_ok N p1" "keeps_code m p p1"
    using addFunctionSummaries_ok[OF p ab m] by blast
  have "m \<le> fresh p1" using 1(3) m by (simp add: keeps_code_def)
  from addFunctionSummaries_ok[OF 1(2) ab(2,1) this] obtain p2 where
    2: "addFunctionSummaries ?b ?a ?fb p1 = Inr p2" "pass_ok N p2" "keeps_code m p1 p2" by blast
  obtain p3 where 3: "addFunctionSummaries ?b ?a ?fb p = Inr p3" "pass_ok N p3" "keeps_code m p p3"
    using addFunctionSummaries_ok[OF p ab(2,1) m] by blast
  show ?thesis
    using False ta tb 1 2 3 keeps_code_trans[OF 1(3) 2(3)] p
    unfolding checkForBranch_def Let_def by simp
qed

section \<open>The visit\<close>

definition succs_of :: "branch_pass \<Rightarrow> nat \<Rightarrow> nat list" where
  "succs_of p k = (case b_term (blocks p ! k) of None \<Rightarrow> [] | Some ss \<Rightarrow> ss)"

definition flow :: "branch_pass \<Rightarrow> (nat \<times> nat) set" where
  "flow p = {(u, v). u < length (blocks p) \<and> v \<in> set (succs_of p u)}"

lemma keeps_code_flow:
  assumes "keeps_code m p p'"
  shows "k < length (blocks p) \<Longrightarrow> succs_of p' k = succs_of p k" and "flow p' = flow p"
proof -
  show s: "succs_of p' k = succs_of p k" if "k < length (blocks p)" for k
    using keeps_code_block[OF assms that] by (simp add: succs_of_def same_code_def)
  show "flow p' = flow p"
    using s keeps_code_length[OF assms] by (auto simp: flow_def)
qed

text \<open>What a visit that starts from the blocks \<open>S\<close> leaves behind.\<close>

definition visit_done ::
    "nat \<Rightarrow> nat \<Rightarrow> nat set \<Rightarrow> nat set \<Rightarrow> branch_pass \<Rightarrow> nat set \<Rightarrow> branch_pass \<Rightarrow> bool" where
  "visit_done N m S v p v' p' \<longleftrightarrow> pass_ok N p' \<and> keeps_code m p p' \<and> v \<subseteq> v' \<and> v' \<subseteq> {..<N} \<and>
     (\<forall>u\<in>v' - v. set (succs_of p u) \<subseteq> v' \<and> (\<exists>s\<in>S. (s, u) \<in> (flow p)\<^sup>*))"

lemma visit_done_refl: "pass_ok N p \<Longrightarrow> v \<subseteq> {..<N} \<Longrightarrow> visit_done N m S v p v p"
  by (simp add: visit_done_def)

lemma visit_done_trans:
  assumes a: "visit_done N m S v p v1 p1" and b: "visit_done N m S v1 p1 v2 p2" and p: "pass_ok N p"
  shows "visit_done N m S v p v2 p2"
proof -
  from a have k: "keeps_code m p p1" and v1: "v1 \<subseteq> {..<N}" "v \<subseteq> v1" by (simp_all add: visit_done_def)
  from b have v2: "v1 \<subseteq> v2" "v2 \<subseteq> {..<N}" "pass_ok N p2" "keeps_code m p1 p2" by (simp_all add: visit_done_def)
  have len: "length (blocks p) = N" using p by (simp add: pass_ok_def)
  have "set (succs_of p u) \<subseteq> v2 \<and> (\<exists>s\<in>S. (s, u) \<in> (flow p)\<^sup>*)" if u: "u \<in> v2" "u \<notin> v" for u
  proof (cases "u \<in> v1")
    case True
    then show ?thesis using a u v2(1) unfolding visit_done_def by blast
  next
    case False
    then have "set (succs_of p1 u) \<subseteq> v2" "\<exists>s\<in>S. (s, u) \<in> (flow p1)\<^sup>*"
      using b u unfolding visit_done_def by blast+
    moreover have "succs_of p1 u = succs_of p u" using keeps_code_flow(1)[OF k] u v2(2) len by blast
    ultimately show ?thesis using keeps_code_flow(2)[OF k] by simp
  qed
  then show ?thesis using v1 v2 keeps_code_trans[OF k] by (auto simp: visit_done_def)
qed

lemma visit_done_more: "visit_done N m S v p v' p' \<Longrightarrow> S \<subseteq> T \<Longrightarrow> visit_done N m T v p v' p'"
  unfolding visit_done_def by blast

lemma card_unvisited: "(s::nat) < N \<Longrightarrow> s \<notin> v \<Longrightarrow> v \<subseteq> {..<N} \<Longrightarrow> card ({..<N} - insert s v) < card ({..<N} - v)"
  by (intro psubset_card_mono) auto

lemma dfs_returns:
  "pass_ok N p \<Longrightarrow> blk < N \<Longrightarrow> v \<subseteq> {..<N} \<Longrightarrow> m \<le> fresh p \<Longrightarrow> card ({..<N} - v) < fuel \<Longrightarrow>
     \<exists>v' p'. branch_parseBB fuel blk (v, p) = Inr (v', p') \<and>
       visit_done N m (set (succs_of p blk)) v p v' p' \<and> set (succs_of p blk) \<subseteq> v'"
  "pass_ok N p \<Longrightarrow> set ss \<subseteq> {..<N} \<Longrightarrow> v \<subseteq> {..<N} \<Longrightarrow> m \<le> fresh p \<Longrightarrow> card ({..<N} - v) \<le> fuel \<Longrightarrow>
     \<exists>v' p'. visit_succs fuel ss (v, p) = Inr (v', p') \<and>
       visit_done N m (set ss) v p v' p' \<and> set ss \<subseteq> v'"
proof (induction fuel blk "(v, p)" and fuel ss "(v, p)" arbitrary: v p and v p
    rule: branch_parseBB_visit_succs.induct)
  case (2 fuel blk v p)
  obtain ss where ss: "b_term (blocks p ! blk) = Some ss" "set ss \<subseteq> {..<N}"
    by (rule pass_ok_block[OF "2.prems"(1,2)])
  obtain p1 where 1: "checkForBranch ss p = Inr p1" "pass_ok N p1" "keeps_code m p p1"
    using checkForBranch_ok[OF "2.prems"(1) ss(2) "2.prems"(4)] by blast
  have f: "m \<le> fresh p1" "card ({..<N} - v) \<le> fuel" using 1(3) "2.prems"(4,5) by (simp_all add: keeps_code_def)
  obtain v' p' where 2: "visit_succs fuel ss (v, p1) = Inr (v', p')" "visit_done N m (set ss) v p1 v' p'"
    "set ss \<subseteq> v'" using "2.hyps"[OF ss(1) 1(1,2) ss(2) "2.prems"(3) f] by blast
  have s: "succs_of p blk = ss" by (simp add: succs_of_def ss(1))
  have "visit_done N m (set ss) v p v p1"
    using 1 "2.prems"(3) by (simp add: visit_done_def)
  from visit_done_trans[OF this 2(2) "2.prems"(1)] show ?case using 1 2 s by (simp add: ss(1))
next
  case (3 fuel v p)
  then show ?case using visit_done_refl by auto
next
  case (4 fuel s ss v p)
  have s: "s < N" and ss: "set ss \<subseteq> {..<N}" using "4.prems"(2) by auto
  show ?case
  proof (cases "s \<in> v")
    case True
    then have sv: "successor_visited s v = (True, v)" by (simp add: successor_visited_def)
    obtain v' p' where "visit_succs fuel ss (v, p) = Inr (v', p')" "visit_done N m (set ss) v p v' p'" "set ss \<subseteq> v'"
      using "4.hyps"(1)[OF sv[symmetric] refl "4.prems"(1) ss "4.prems"(3-5)] by blast
    moreover from this have "v \<subseteq> v'" by (simp add: visit_done_def)
    ultimately show ?thesis using True sv visit_done_more[of N m "set ss" v p v' p' "set (s # ss)"] by auto
  next
    case False
    let ?v = "insert s v"
    have sv: "successor_visited s v = (False, ?v)" using False by (simp add: successor_visited_def)
    have v: "?v \<subseteq> {..<N}" using s "4.prems"(3) by simp
    have c: "card ({..<N} - ?v) < fuel" using card_unvisited[OF s False "4.prems"(3)] "4.prems"(5) by simp
    obtain v1 p1 where 1: "branch_parseBB fuel s (?v, p) = Inr (v1, p1)"
      "visit_done N m (set (succs_of p s)) ?v p v1 p1" "set (succs_of p s) \<subseteq> v1"
      using "4.hyps"(2)[OF sv[symmetric] refl "4.prems"(1) s v "4.prems"(4) c] by blast
    from 1(2) have p1: "pass_ok N p1" "keeps_code m p p1" "?v \<subseteq> v1" "v1 \<subseteq> {..<N}" by (simp_all add: visit_done_def)
    have c1: "card ({..<N} - v1) \<le> fuel"
      using card_mono[of "{..<N} - ?v" "{..<N} - v1"] p1(3) c by (simp add: Diff_mono)
    have f1: "m \<le> fresh p1" using p1(2) "4.prems"(4) by (simp add: keeps_code_def)
    obtain v2 p2 where 2: "visit_succs fuel ss (v1, p1) = Inr (v2, p2)" "visit_done N m (set ss) v1 p1 v2 p2"
      "set ss \<subseteq> v2" using "4.hyps"(3)[OF sv[symmetric] refl 1(1) p1(1) ss p1(4) f1 c1] by blast
    have len: "length (blocks p) = N" using "4.prems"(1) by (simp add: pass_ok_def)
    have "visit_done N m {s} v p v1 p1"
    proof -
      have "set (succs_of p u) \<subseteq> v1 \<and> (s, u) \<in> (flow p)\<^sup>*" if u: "u \<in> v1" "u \<notin> v" for u
      proof (cases "u = s")
        case False
        then have "u \<in> v1 - ?v" using u by simp
        then have "set (succs_of p u) \<subseteq> v1 \<and> (\<exists>x\<in>set (succs_of p s). (x, u) \<in> (flow p)\<^sup>*)"
          using 1(2) unfolding visit_done_def by (elim conjE) (rule bspec)
        then obtain x where x: "set (succs_of p u) \<subseteq> v1" "x \<in> set (succs_of p s)" "(x, u) \<in> (flow p)\<^sup>*"
          by blast
        have "(s, x) \<in> flow p" using x(2) s len by (simp add: flow_def)
        from converse_rtrancl_into_rtrancl[OF this x(3)] x(1) show ?thesis by simp
      qed (use 1(3) in simp)
      then show ?thesis using p1 by (auto simp: visit_done_def)
    qed
    then have "visit_done N m (set (s # ss)) v p v1 p1" by (rule visit_done_more) simp
    moreover have "visit_done N m (set (s # ss)) v1 p1 v2 p2" by (rule visit_done_more[OF 2(2)]) auto
    ultimately have "visit_done N m (set (s # ss)) v p v2 p2"
      using visit_done_trans "4.prems"(1) by blast
    moreover have "s \<in> v2" using p1(3) 2(2) by (auto simp: visit_done_def)
    ultimately show ?thesis using 1 2 sv by simp
  qed
qed simp_all

section \<open>Properties\<close>

text \<open>
  C21. The branch pass returns on every well-formed function, with fuel one more than the
  number of its blocks; it has visited exactly the blocks that the entry reaches, and every
  block keeps its instructions, its \<open>phi\<close>s in front, and its terminator.
\<close>

theorem branch_pass_returns:
  assumes "pass_ok N p" and "0 < N"
  shows "\<exists>v p'. branch_parseBB (N + 1) 0 ({0}, p) = Inr (v, p') \<and> v = {u. (0, u) \<in> (flow p)\<^sup>*} \<and>
    list_all2 (same_code (fresh p)) (blocks p) (blocks p')"
proof -
  have "card ({..<N} - {0}) < N + 1" using card_mono[of "{..<N}" "{..<N} - {0}"] by simp
  with dfs_returns(1)[OF assms(1,2), of "{0}" "fresh p" "N + 1"] assms(2) obtain v p' where
    r: "branch_parseBB (N + 1) 0 ({0}, p) = Inr (v, p')" and
    d: "visit_done N (fresh p) (set (succs_of p 0)) {0} p v p'" and s: "set (succs_of p 0) \<subseteq> v" by auto
  have len: "length (blocks p) = N" using assms(1) by (simp add: pass_ok_def)
  have "0 \<in> v" using d by (simp add: visit_done_def)
  have "(0, u) \<in> (flow p)\<^sup>*" if u: "u \<in> v" for u
  proof (cases "u = 0")
    case False
    with d u obtain x where "x \<in> set (succs_of p 0)" "(x, u) \<in> (flow p)\<^sup>*"
      unfolding visit_done_def by blast
    moreover from this have "(0, x) \<in> flow p" using assms(2) len by (simp add: flow_def)
    ultimately show ?thesis using converse_rtrancl_into_rtrancl by metis
  qed simp
  moreover have "u \<in> v" if "(0, u) \<in> (flow p)\<^sup>*" for u
    using that
  proof (induction rule: rtrancl_induct)
    case (step y z)
    then have "z \<in> set (succs_of p y)" by (simp add: flow_def)
    then show ?case using d s step.IH by (cases "y = 0") (auto simp: visit_done_def)
  qed (rule \<open>0 \<in> v\<close>)
  ultimately have "v = {u. (0, u) \<in> (flow p)\<^sup>*}" by blast
  then show ?thesis using r d by (auto simp: visit_done_def keeps_code_def)
qed

text \<open>
  A function with a branch: block 1 takes a lock, stores to shared data through a pointer it
  computes, drops the lock; block 2 does nothing.
\<close>

definition lock_call :: "nat \<Rightarrow> string \<Rightarrow> inst" where
  "lock_call n callee = \<lparr>i_id = n, i_opcode = Op_Call, i_callee = Some callee,
     i_operands = [OtherVal 0, OtherVal 100], i_tyann = None\<rparr>"

definition gep :: inst where
  "gep = \<lparr>i_id = 2, i_opcode = Op_GetElementPtr, i_callee = None, i_operands = [OtherVal 1], i_tyann = None\<rparr>"

definition shared_store :: inst where
  "shared_store = \<lparr>i_id = 3, i_opcode = Op_Store, i_callee = None,
     i_operands = [ConstInt 5, as_val gep], i_tyann = Some (''check_av'', 0)\<rparr>"

definition branch_sample :: branch_pass where
  "branch_sample = \<lparr>blocks = [
     \<lparr>b_insts = [], b_term = Some [1, 2]\<rparr>,
     \<lparr>b_insts = [lock_call 1 ''CaptureLockAcquire'', gep, shared_store, lock_call 4 ''CaptureLockRelease''],
        b_term = Some [3]\<rparr>,
     \<lparr>b_insts = [], b_term = Some [3]\<rparr>,
     \<lparr>b_insts = [], b_term = Some []\<rparr>], fresh = 5\<rparr>"

lemmas sample_defs = branch_sample_def lock_call_def gep_def shared_store_def as_val_def

lemma branch_sample_ok: "pass_ok 4 branch_sample"
  by (simp add: pass_ok_def sample_defs branch_inst_ok_def inst_ok_def)

theorem branch_pass_returns_witness:
  "\<exists>v p. branch_parseBB 5 0 ({0}, branch_sample) = Inr (v, p) \<and> 0 \<in> v"
  using branch_pass_returns[OF branch_sample_ok] by fastforce

lemma dropWhile_first:
  assumes "distinct (map i_id (b_insts b))"
  shows "dropWhile (\<lambda>i. Some (i_id i) \<noteq> getFirstNonPHI b) (b_insts b) = dropWhile is_phi (b_insts b)"
proof (cases "dropWhile is_phi (b_insts b)")
  case Nil
  then have f: "getFirstNonPHI b = None" unfolding getFirstNonPHI_def Nil by simp
  show ?thesis unfolding f Nil by (induction "b_insts b") simp_all
next
  case (Cons d ds)
  then have f: "getFirstNonPHI b = Some (i_id d)" by (simp add: getFirstNonPHI_def)
  let ?t = "takeWhile is_phi (b_insts b)"
  have e: "b_insts b = ?t @ d # ds" using takeWhile_dropWhile_id[of is_phi "b_insts b"] Cons by simp
  have "distinct (map i_id (?t @ d # ds))" using assms e by simp
  then have "i_id d \<notin> i_id ` set ?t" by simp
  then have "\<forall>i\<in>set ?t. i_id i \<noteq> i_id d" by (metis image_eqI)
  then have "dropWhile (\<lambda>i. Some (i_id i) \<noteq> Some (i_id d)) (?t @ d # ds) = d # ds"
    by (simp add: dropWhile_append2)
  then show ?thesis using e f Cons by simp
qed

lemma dropWhile_first_inserted:
  assumes "distinct (map i_id (b_insts b))" and "all_new n l new" and "\<forall>i\<in>set (b_insts b). i_id i < n"
  shows "dropWhile (\<lambda>i. Some (i_id i) \<noteq> getFirstNonPHI b) (b_insts (insert_at_first_non_phi new b)) =
    dropWhile is_phi (b_insts b)"
proof -
  let ?t = "takeWhile is_phi (b_insts b)" and ?d = "dropWhile is_phi (b_insts b)"
  let ?P = "\<lambda>i. Some (i_id i) \<noteq> getFirstNonPHI b"
  have t: "\<forall>i\<in>set ?t. ?P i"
  proof (rule ccontr)
    assume "\<not> ?thesis"
    then obtain i where i: "i \<in> set ?t" "\<not> ?P i" by blast
    then have ph: "is_phi i" by (blast dest: set_takeWhileD)
    from i(2) obtain e es where e: "?d = e # es" "i_id e = i_id i"
      by (auto simp: getFirstNonPHI_def split: list.splits)
    have "distinct (map i_id (?t @ ?d))" using assms(1) by simp
    with i(1) e show False by auto
  qed
  have new: "\<forall>i\<in>set new. ?P i"
  proof
    fix i
    assume "i \<in> set new"
    then have "n \<le> i_id i" using assms(2) by (simp add: all_new_def)
    moreover have "k < n" if "getFirstNonPHI b = Some k" for k
    proof -
      from that obtain e es where e: "?d = e # es" "i_id e = k"
        by (auto simp: getFirstNonPHI_def split: list.splits)
      then have "e \<in> set (b_insts b)" by (metis list.set_intros(1) set_dropWhileD)
      then show ?thesis using assms(3) e(2) by blast
    qed
    ultimately show "?P i" by (cases "getFirstNonPHI b") auto
  qed
  have "dropWhile ?P ?d = ?d" using dropWhile_first[OF assms(1)] takeWhile_dropWhile(2)[of ?P "b_insts b"] by simp
  then have "dropWhile ?P (?t @ new @ ?d) = ?d" using t new by (simp add: dropWhile_append2)
  then show ?thesis by (simp add: insert_at_first_non_phi_def)
qed

lemma summary_calls_new: "\<exists>l. all_new n l (summary_calls xs n)"
proof (induction xs arbitrary: n)
  case (Cons x xs)
  obtain op rdWr acq rel where x: "x = (op, rdWr, acq, rel)" by (metis prod_cases4)
  obtain new k where s: "summary_access op rdWr acq rel n = (new, k)" by fastforce
  obtain l where l: "all_new k l (summary_calls xs k)" using Cons by blast
  from all_new_append[OF summary_access_new[OF s] l] have "all_new n l (summary_calls xs k @ new)"
    by (auto simp: all_new_def)
  then show ?case using x s by auto
qed (auto simp: all_new_def)




section \<open>The whole module\<close>

definition branch_func_ok :: "nat \<Rightarrow> func \<Rightarrow> bool" where
  "branch_func_ok n f \<longleftrightarrow> f_blocks f \<noteq> [] \<longrightarrow> pass_ok (length (f_blocks f)) \<lparr>blocks = f_blocks f, fresh = n\<rparr>"

definition func_same_code :: "string \<Rightarrow> nat \<Rightarrow> func \<Rightarrow> func \<Rightarrow> bool" where
  "func_same_code file n f f' \<longleftrightarrow> f_name f' = f_name f \<and>
     (if instru_fn file (f_name f) then list_all2 (same_code n) (f_blocks f) (f_blocks f') else f' = f)"

text \<open>A declaration that \<open>functions.txt\<close> names.\<close>

definition named_declaration :: "string \<Rightarrow> func \<Rightarrow> bool" where
  "named_declaration file f \<longleftrightarrow> instru_fn file (f_name f) \<and> f_blocks f = []"

lemma branch_func_ok_mono: "branch_func_ok n f \<Longrightarrow> n \<le> m \<Longrightarrow> branch_func_ok m f"
  using branch_inst_ok_mono by (fastforce simp: branch_func_ok_def pass_ok_def)

lemma branch_functions_cases:
  assumes "\<forall>f\<in>set fs. branch_func_ok n f" and "k \<le> n"
  shows "if \<exists>f\<in>set fs. named_declaration file f then branch_functions file fs n = Inl OutOfBounds
    else \<exists>fs' n'. branch_functions file fs n = Inr (fs', n') \<and> list_all2 (func_same_code file k) fs fs'"
  using assms
proof (induction fs arbitrary: n)
  case (Cons f fs)
  have ok: "\<forall>f\<in>set fs. branch_func_ok n f" using Cons.prems by simp
  consider "\<not> instru_fn file (f_name f)" | "named_declaration file f" | "instru_fn file (f_name f)" "f_blocks f \<noteq> []"
    by (auto simp: named_declaration_def)
  then show ?case
  proof cases
    case 1
    then have "\<not> named_declaration file f" "func_same_code file k f f"
      by (simp_all add: named_declaration_def func_same_code_def)
    with Cons.IH[OF ok Cons.prems(2)] 1 show ?thesis by (auto split: if_splits)
  next
    case 2
    then show ?thesis by (simp add: named_declaration_def)
  next
    case 3
    let ?p = "\<lparr>blocks = f_blocks f, fresh = n\<rparr>"
    have p: "pass_ok (length (f_blocks f)) ?p" using 3 Cons.prems by (simp add: branch_func_ok_def)
    have "card ({..<length (f_blocks f)} - {0}) < length (f_blocks f) + 1"
      using card_mono[of "{..<length (f_blocks f)}" "{..<length (f_blocks f)} - {0}"] by simp
    then obtain v p' where r: "branch_parseBB (length (f_blocks f) + 1) 0 ({0}, ?p) = Inr (v, p')"
      and d: "keeps_code k ?p p'"
      using dfs_returns(1)[OF p, of 0 "{0}" k "length (f_blocks f) + 1"] 3(2) Cons.prems(2)
      unfolding visit_done_def by auto
    have n: "n \<le> fresh p'" and same: "list_all2 (same_code k) (f_blocks f) (blocks p')"
      using d by (simp_all add: keeps_code_def)
    have ok': "\<forall>f\<in>set fs. branch_func_ok (fresh p') f" using ok branch_func_ok_mono[OF _ n] by blast
    have k: "k \<le> fresh p'" using Cons.prems(2) n by simp
    have nd: "\<not> named_declaration file f" using 3 by (simp add: named_declaration_def)
    have sc: "func_same_code file k f (f\<lparr>f_blocks := blocks p'\<rparr>)" using 3 same by (simp add: func_same_code_def)
    have step: "branch_functions file (f # fs) n = bind_r (branch_functions file fs (fresh p'))
        (\<lambda>(fs1, n2). Inr (f\<lparr>f_blocks := blocks p'\<rparr> # fs1, n2))" using 3 r by simp
    show ?thesis
    proof (cases "\<exists>f\<in>set fs. named_declaration file f")
      case True
      with Cons.IH[OF ok' k] step show ?thesis by simp
    next
      case False
      with Cons.IH[OF ok' k] obtain fs' n' where "branch_functions file fs (fresh p') = Inr (fs', n')"
        "list_all2 (func_same_code file k) fs fs'" by auto
      then show ?thesis using False nd sc step by simp
    qed
  qed
qed simp

lemma branch_variables: "intializeBranchCheckVariables (intializeBranchCheckFunctions m) = Inr ()"
  using getFunction_inserted getFunction_kept
  by (simp add: intializeBranchCheckVariables_def intializeBranchCheckFunctions_def)

text \<open>
  C24. The branch pass over a well-formed module: it stops reading past the end of a list of
  blocks exactly when \<open>functions.txt\<close> names a function that is only declared (the four
  declarations the pass adds included, which a blank line names); otherwise it returns and every
  block of every function keeps its code.
\<close>

theorem branch_pass_declarations:
  assumes "\<forall>f\<in>set (intializeBranchCheckFunctions m). branch_func_ok n f"
  shows "if \<exists>f\<in>set (intializeBranchCheckFunctions m). named_declaration file f
    then branch_runOnModule file m n = Inl OutOfBounds
    else \<exists>m' n'. branch_runOnModule file m n = Inr (m', n') \<and>
      list_all2 (func_same_code file n) (intializeBranchCheckFunctions m) m'"
proof -
  have r: "branch_runOnModule file m n = branch_functions file (intializeBranchCheckFunctions m) n"
    by (simp add: branch_runOnModule_def branch_variables)
  show ?thesis unfolding r by (rule branch_functions_cases[OF assms le_refl])
qed

theorem branch_pass_declarations_witness:
  "branch_runOnModule [CHR 0x0A] [] 0 = Inl OutOfBounds"
proof -
  have "\<forall>f\<in>set (intializeBranchCheckFunctions []). branch_func_ok 0 f \<and> named_declaration [CHR 0x0A] f"
    by (simp add: intializeBranchCheckFunctions_def getOrInsertFunction_def getFunction_def branch_func_ok_def
        named_declaration_def instru_fn_def getlines_def)
  moreover have "set (intializeBranchCheckFunctions []) \<noteq> {}"
    by (simp add: intializeBranchCheckFunctions_def getOrInsertFunction_def getFunction_def)
  ultimately show ?thesis using branch_pass_declarations[of "[]" 0 "[CHR 0x0A]"] by (auto split: if_splits)
qed

end
