(* ===== verification/Blocked_Range.thy ===== *)
theory Blocked_Range
  imports Prelude
begin

text \<open>
  The iteration ranges of the modified TBB (\<open>blocked_range.h\<close>) and the requirements every
  range class meets (its page \<open>range_req\<close>) as the locale \<open>splittable\<close>. The value type of
  \<open>blocked_range\<close> is \<open>size_t\<close>, the one the test programs use, so differences and the middle
  of a range are computed modulo \<open>2 ^ 64\<close>.
\<close>

type_synonym size_t = "64 word"

lemma size_t_bound: "unat (w :: size_t) < 18446744073709551616"
  using unsigned_less[of w] by simp

record blocked_range =
  my_end :: size_t
  my_begin :: size_t
  my_grainsize :: size_t

definition new_blocked_range :: "size_t \<Rightarrow> size_t \<Rightarrow> size_t \<Rightarrow> blocked_range" where
  "new_blocked_range b e g =
     \<lparr>my_end = e, my_begin = b, my_grainsize = g\<rparr>"

definition range_size :: "blocked_range \<Rightarrow> size_t" where
  "range_size r = my_end r - my_begin r"

definition range_empty :: "blocked_range \<Rightarrow> bool" where
  "range_empty r = (\<not> my_begin r < my_end r)"

definition range_divisible :: "blocked_range \<Rightarrow> bool" where
  "range_divisible r = (my_grainsize r < range_size r)"

text \<open>
  \<open>do_split\<close> moves the end of the old range to the middle and returns the middle; the splitting
  constructor reads the end before it calls it, in the order of the members.
\<close>

definition do_split :: "blocked_range \<Rightarrow> size_t \<times> blocked_range" where
  "do_split r =
     (let middle = my_begin r + (my_end r - my_begin r) div 2 in (middle, r\<lparr>my_end := middle\<rparr>))"

definition split_range :: "blocked_range \<Rightarrow> blocked_range \<times> blocked_range" where
  "split_range r =
     (let e = my_end r;
          (b, r1) = do_split r
      in (r1, \<lparr>my_end = e, my_begin = b, my_grainsize = my_grainsize r1\<rparr>))"

section \<open>What a range promises\<close>

text \<open>The iterations of a range, in order, and the ranges the constructor's assertion allows.\<close>

definition range_items :: "blocked_range \<Rightarrow> nat list" where
  "range_items r = [unat (my_begin r)..<unat (my_end r)]"

definition range_wf :: "blocked_range \<Rightarrow> bool" where
  "range_wf r \<longleftrightarrow> my_begin r < my_end r \<and> 0 < my_grainsize r"

text \<open>
  The documented requirements on a range class: the two halves of a divisible range hold its
  iterations, in order, and none of them is empty.
\<close>

locale splittable =
  fixes dv :: "'r \<Rightarrow> bool" and sp :: "'r \<Rightarrow> 'r \<times> 'r" and items :: "'r \<Rightarrow> 'i list"
    and ok :: "'r \<Rightarrow> bool"
  assumes split_items: "ok r \<Longrightarrow> dv r \<Longrightarrow> sp r = (a, b) \<Longrightarrow> items r = items a @ items b"
    and split_ok: "ok r \<Longrightarrow> dv r \<Longrightarrow> sp r = (a, b) \<Longrightarrow> ok a \<and> ok b"
    and items_ne: "ok r \<Longrightarrow> items r \<noteq> []"
begin

lemma split_shrinks:
  assumes "ok r" and "dv r" and "sp r = (a, b)"
  shows "length (items a) < length (items r)" "length (items b) < length (items r)"
  using split_items[OF assms] split_ok[OF assms] items_ne[of a] items_ne[of b] by auto

end

lemma middle_between:
  fixes b e :: size_t
  assumes "b < e" and "1 < e - b"
  shows "unat (b + (e - b) div 2) = unat b + unat (e - b) div 2"
    "b < b + (e - b) div 2" "b + (e - b) div 2 < e"
proof -
  have d: "unat (e - b) = unat e - unat b"
    using assms(1) by (metis less_le_not_le unat_sub word_le_nat_alt)
  have "unat b < unat e" using assms(1) by (simp add: word_less_nat_alt)
  moreover have "1 < unat (e - b)" using assms(2) by (simp add: word_less_nat_alt)
  moreover have h: "unat ((e - b) div 2) = unat (e - b) div 2" by (simp add: unat_div_distrib)
  moreover have "unat e < 2 ^ 64" using unsigned_less[of e] by simp
  ultimately have s: "unat b + unat ((e - b) div 2) < unat e"
    "0 < unat ((e - b) div 2)" using d by auto
  then have "unat b + unat ((e - b) div 2) < 2 ^ 64" using \<open>unat e < 2 ^ 64\<close> by linarith
  then have u: "unat (b + (e - b) div 2) = unat b + unat ((e - b) div 2)"
    by (simp add: unat_word_ariths)
  then show "unat (b + (e - b) div 2) = unat b + unat (e - b) div 2" by (simp add: h)
  from u s show "b < b + (e - b) div 2" "b + (e - b) div 2 < e"
    by (simp_all add: word_less_nat_alt)
qed

lemma range_divisible_size:
  assumes "range_wf r" and "range_divisible r"
  shows "1 < my_end r - my_begin r"
proof -
  have "0 < unat (my_grainsize r)" using assms(1) by (simp add: range_wf_def word_less_nat_alt)
  moreover have "unat (my_grainsize r) < unat (my_end r - my_begin r)"
    using assms(2) by (simp add: range_divisible_def range_size_def word_less_nat_alt)
  ultimately show ?thesis by (simp add: word_less_nat_alt)
qed

interpretation br: splittable range_divisible split_range range_items range_wf
proof (unfold_locales, goal_cases)
  case (1 r a b)
  let ?m = "my_begin r + (my_end r - my_begin r) div 2"
  from 1(1) have "my_begin r < my_end r" by (simp add: range_wf_def)
  note m = middle_between[OF this range_divisible_size[OF 1(1,2)]]
  from m(2,3) have "unat (my_begin r) \<le> unat ?m" "unat ?m \<le> unat (my_end r)"
    by (simp_all add: word_less_nat_alt)
  then have "[unat (my_begin r)..<unat (my_end r)] =
      [unat (my_begin r)..<unat ?m] @ [unat ?m..<unat (my_end r)]"
    by (metis le_iff_add upt_add_eq_append)
  with 1(3) show ?case by (auto simp: split_range_def do_split_def Let_def range_items_def)
next
  case (2 r a b)
  from 2(1) have "my_begin r < my_end r" by (simp add: range_wf_def)
  from middle_between[OF this range_divisible_size[OF 2(1,2)]] 2 show ?case
    by (auto simp: split_range_def do_split_def Let_def range_wf_def)
next
  case (3 r)
  then show ?case by (simp add: range_items_def range_wf_def word_less_nat_alt)
qed

lemma range_items_size: "range_wf r \<Longrightarrow> length (range_items r) = unat (range_size r)"
  by (simp add: range_items_def range_wf_def range_size_def) (metis less_le_not_le unat_sub word_le_nat_alt)

lemma range_empty_items: "range_empty r \<longleftrightarrow> range_items r = []"
  by (auto simp: range_empty_def range_items_def word_less_nat_alt)

end
