(* ===== verification/Range_Pool.thy ===== *)
theory Range_Pool
  imports Blocked_Range
begin

text \<open>
  \<open>range_vector\<close> of \<open>partitioner.h\<close>: the pool of ranges a task keeps in a circular buffer of
  \<open>MaxCapacity\<close> slots. A slot of the raw storage is \<open>None\<close> while it holds no object. The
  abstract pool is the list of ranges with their depths, the back of the pool first.
\<close>

type_synonym depth_t = "8 word"

definition MaxCapacity :: nat where
  "MaxCapacity = 8"

record 'r range_vector =
  my_head :: nat
  my_tail :: nat
  my_size :: nat
  my_depth :: "nat \<Rightarrow> depth_t"
  my_pool :: "nat \<Rightarrow> 'r option"

definition new_range_vector :: "'r \<Rightarrow> 'r range_vector" where
  "new_range_vector elem = \<lparr>my_head = 0, my_tail = 0, my_size = 1,
     my_depth = (\<lambda>_. 0), my_pool = [0 \<mapsto> elem]\<rparr>"

definition live :: "'r option \<Rightarrow> 'r result" where
  "live s = (case s of None \<Rightarrow> Inl DeadObject | Some r \<Rightarrow> Inr r)"

definition rv_back :: "'r range_vector \<Rightarrow> 'r result" where
  "rv_back v = live (my_pool v (my_head v))"

definition rv_front :: "'r range_vector \<Rightarrow> 'r result" where
  "rv_front v = live (my_pool v (my_tail v))"

definition rv_empty :: "'r range_vector \<Rightarrow> bool" where
  "rv_empty v = (my_size v = 0)"

definition front_depth :: "'r range_vector \<Rightarrow> depth_t" where
  "front_depth v = my_depth v (my_tail v)"

definition back_depth :: "'r range_vector \<Rightarrow> depth_t" where
  "back_depth v = my_depth v (my_head v)"

definition rv_divisible :: "('r \<Rightarrow> bool) \<Rightarrow> depth_t \<Rightarrow> 'r range_vector \<Rightarrow> bool result" where
  "rv_divisible dv max_depth v =
     (if back_depth v < max_depth then bind_r (rv_back v) (\<lambda>r. Inr (dv r)) else Inr False)"

definition pop_back :: "'r range_vector \<Rightarrow> 'r range_vector result" where
  "pop_back v =
     bind_r (rv_back v) (\<lambda>_.
       Inr (v\<lparr>my_pool := (my_pool v)(my_head v := None), my_size := my_size v - 1,
         my_head := (my_head v + MaxCapacity - 1) mod MaxCapacity\<rparr>))"

definition pop_front :: "'r range_vector \<Rightarrow> 'r range_vector result" where
  "pop_front v =
     bind_r (rv_front v) (\<lambda>_.
       Inr (v\<lparr>my_pool := (my_pool v)(my_tail v := None), my_size := my_size v - 1,
         my_tail := (my_tail v + 1) mod MaxCapacity\<rparr>))"

text \<open>
  The body of the loop of \<open>split_to_fill\<close>: the back range is copied to the next slot and
  destroyed where it was; the new object there takes the second part of the copy.
\<close>

definition split_back :: "('r \<Rightarrow> 'r \<times> 'r) \<Rightarrow> 'r range_vector \<Rightarrow> 'r range_vector result" where
  "split_back sp v =
     (let prev = my_head v; h = (my_head v + 1) mod MaxCapacity in
      bind_r (live (my_pool v prev)) (\<lambda>r.
        let (a, b) = sp r; d = my_depth v prev + 1 in
        Inr (v\<lparr>my_head := h, my_pool := ((my_pool v)(h \<mapsto> a))(prev \<mapsto> b),
          my_depth := ((my_depth v)(prev := d))(h := d), my_size := my_size v + 1\<rparr>)))"

lemma split_back_size: "split_back sp v = Inr v' \<Longrightarrow> my_size v' = my_size v + 1"
  by (auto simp: split_back_def Let_def bind_r_Inr_iff case_prod_unfold)

function split_to_fill ::
    "('r \<Rightarrow> bool) \<Rightarrow> ('r \<Rightarrow> 'r \<times> 'r) \<Rightarrow> depth_t \<Rightarrow> 'r range_vector \<Rightarrow> 'r range_vector result" where
  "split_to_fill dv sp max_depth v =
     (if my_size v < MaxCapacity then
        bind_r (rv_divisible dv max_depth v) (\<lambda>b.
          if b then bind_r (split_back sp v) (\<lambda>v'. split_to_fill dv sp max_depth v')
          else Inr v)
      else Inr v)"
  by pat_completeness auto

termination
  by (relation "measure (\<lambda>(dv, sp, m, v). MaxCapacity - my_size v)")
    (auto dest: split_back_size)

declare split_to_fill.simps [simp del]

function destroy_pool :: "'r range_vector \<Rightarrow> 'r range_vector result" where
  "destroy_pool v = (if rv_empty v then Inr v else bind_r (pop_back v) (\<lambda>v'. destroy_pool v'))"
  by pat_completeness auto

termination
  by (relation "measure my_size") (auto simp: rv_empty_def pop_back_def bind_r_Inr_iff)

declare destroy_pool.simps [simp del]

section \<open>The abstract pool\<close>

text \<open>The slot of the \<open>i\<close>-th range from the back.\<close>

definition slot_at :: "nat \<Rightarrow> nat \<Rightarrow> nat" where
  "slot_at h i = (h + MaxCapacity - i) mod MaxCapacity"

definition rv_rel :: "'r range_vector \<Rightarrow> ('r \<times> depth_t) list \<Rightarrow> bool" where
  "rv_rel v ps \<longleftrightarrow> my_size v = length ps \<and> length ps \<le> MaxCapacity \<and> my_head v < MaxCapacity \<and>
     my_tail v = (my_head v + 1 + MaxCapacity - length ps) mod MaxCapacity \<and>
     (\<forall>i < length ps. my_pool v (slot_at (my_head v) i) = Some (fst (ps ! i)) \<and>
        my_depth v (slot_at (my_head v) i) = snd (ps ! i)) \<and>
     (\<forall>i. length ps \<le> i \<longrightarrow> i < MaxCapacity \<longrightarrow> my_pool v (slot_at (my_head v) i) = None)"

function fill_list ::
    "('r \<Rightarrow> bool) \<Rightarrow> ('r \<Rightarrow> 'r \<times> 'r) \<Rightarrow> depth_t \<Rightarrow> ('r \<times> depth_t) list \<Rightarrow> ('r \<times> depth_t) list" where
  "fill_list dv sp m [] = []"
| "fill_list dv sp m ((r, d) # ps) =
     (if Suc (length ps) < MaxCapacity \<and> d < m \<and> dv r
      then fill_list dv sp m ((fst (sp r), d + 1) # (snd (sp r), d + 1) # ps)
      else (r, d) # ps)"
  by pat_completeness auto

termination
  by (relation "measure (\<lambda>(dv, sp, m, ps). MaxCapacity - length ps)") auto

declare fill_list.simps [simp del]

lemma live_simps [simp]: "live (Some r) = Inr r" "live None = Inl DeadObject"
  by (simp_all add: live_def)

lemma slot_0 [simp]: "h < MaxCapacity \<Longrightarrow> slot_at h 0 = h"
  by (simp add: slot_at_def)

text \<open>The arithmetic of the ring, checked on its eight slots.\<close>

lemma ring_ball:
  "(\<forall>h \<in> set [0..<8]. \<forall>i \<in> set [0..<8]. \<forall>j \<in> set [0..<8].
      (slot_at h i = slot_at h j) = (i = j)) \<and>
   (\<forall>h \<in> set [0..<8]. \<forall>i \<in> set [0..<8].
      slot_at ((h + 1) mod 8) (Suc i) = slot_at h i \<and>
      slot_at ((h + 8 - 1) mod 8) i = slot_at h (Suc i) \<and>
      (h + 1 + 8 - Suc i) mod 8 = slot_at h i \<and>
      (slot_at h i + 1) mod 8 = (h + 1 + 8 - i) mod 8 \<and>
      ((h + 8 - 1) mod 8 + 1 + 8 - i) mod 8 = slot_at h i)"
  unfolding slot_at_def MaxCapacity_def by code_simp

lemma slot_inj:
  "h < MaxCapacity \<Longrightarrow> i < MaxCapacity \<Longrightarrow> j < MaxCapacity \<Longrightarrow>
     slot_at h i = slot_at h j \<longleftrightarrow> i = j"
  using ring_ball by (simp add: MaxCapacity_def)

lemma slot_moves:
  assumes "h < MaxCapacity" and "i < MaxCapacity"
  shows "slot_at ((h + 1) mod MaxCapacity) (Suc i) = slot_at h i"
    "slot_at ((h + MaxCapacity - 1) mod MaxCapacity) i = slot_at h (Suc i)"
    "(h + 1 + MaxCapacity - Suc i) mod MaxCapacity = slot_at h i"
    "(slot_at h i + 1) mod MaxCapacity = (h + 1 + MaxCapacity - i) mod MaxCapacity"
    "((h + MaxCapacity - 1) mod MaxCapacity + 1 + MaxCapacity - i) mod MaxCapacity = slot_at h i"
proof -
  have "h \<in> set [0..<8]" "i \<in> set [0..<8]" using assms by (auto simp: MaxCapacity_def)
  from conjunct2[OF ring_ball, THEN bspec, OF this(1), THEN bspec, OF this(2)]
  show "slot_at ((h + 1) mod MaxCapacity) (Suc i) = slot_at h i"
    "slot_at ((h + MaxCapacity - 1) mod MaxCapacity) i = slot_at h (Suc i)"
    "(h + 1 + MaxCapacity - Suc i) mod MaxCapacity = slot_at h i"
    "(slot_at h i + 1) mod MaxCapacity = (h + 1 + MaxCapacity - i) mod MaxCapacity"
    "((h + MaxCapacity - 1) mod MaxCapacity + 1 + MaxCapacity - i) mod MaxCapacity = slot_at h i"
    unfolding MaxCapacity_def by blast+
qed

lemma slot_less [simp]: "slot_at h i < MaxCapacity"
  by (simp add: slot_at_def MaxCapacity_def)

lemma slot_Suc:
  assumes "h < MaxCapacity" and "Suc i < MaxCapacity"
  shows "slot_at ((h + 1) mod MaxCapacity) (Suc i) \<noteq> (h + 1) mod MaxCapacity"
proof -
  let ?h = "(h + 1) mod MaxCapacity"
  have "?h < MaxCapacity" by (simp add: MaxCapacity_def)
  then show ?thesis using slot_inj[of ?h "Suc i" 0] assms(2) by auto
qed

section \<open>The operations refine the list\<close>

lemma rv_rel_new: "rv_rel (new_range_vector r) [(r, 0)]"
proof -
  have "slot_at 0 i \<noteq> 0" if "1 \<le> i" "i < MaxCapacity" for i
    using slot_inj[of 0 i 0] that by (auto simp: MaxCapacity_def)
  then show ?thesis
    by (auto simp: rv_rel_def new_range_vector_def MaxCapacity_def slot_at_def)
qed

lemma rv_rel_back:
  assumes "rv_rel v ((r, d) # ps)"
  shows "rv_back v = Inr r" "back_depth v = d" "my_pool v (my_head v) = Some r"
    "my_depth v (my_head v) = d"
proof -
  from assms have "my_head v < MaxCapacity"
    "my_pool v (slot_at (my_head v) 0) = Some r \<and> my_depth v (slot_at (my_head v) 0) = d"
    by (auto simp: rv_rel_def)
  then show "rv_back v = Inr r" "back_depth v = d" "my_pool v (my_head v) = Some r"
    "my_depth v (my_head v) = d" by (auto simp: rv_back_def back_depth_def)
qed

lemma rv_rel_front:
  assumes "rv_rel v (ps @ [(r, d)])"
  shows "rv_front v = Inr r" "front_depth v = d" "my_tail v = slot_at (my_head v) (length ps)"
proof -
  from assms have h: "my_head v < MaxCapacity" "length ps < MaxCapacity"
    and t: "my_tail v = (my_head v + 1 + MaxCapacity - Suc (length ps)) mod MaxCapacity"
    and p: "\<forall>i < Suc (length ps). my_pool v (slot_at (my_head v) i) = Some (fst ((ps @ [(r, d)]) ! i)) \<and>
      my_depth v (slot_at (my_head v) i) = snd ((ps @ [(r, d)]) ! i)"
    by (auto simp: rv_rel_def)
  from t slot_moves(3)[OF h] show s: "my_tail v = slot_at (my_head v) (length ps)" by simp
  from p[rule_format, of "length ps"] s show "rv_front v = Inr r" "front_depth v = d"
    by (auto simp: rv_front_def front_depth_def)
qed

lemma rv_rel_size: "rv_rel v ps \<Longrightarrow> my_size v = length ps"
  by (simp add: rv_rel_def)

lemma rv_rel_empty: "rv_rel v ps \<Longrightarrow> rv_empty v \<longleftrightarrow> ps = []"
  by (simp add: rv_rel_def rv_empty_def)

lemma rv_rel_divisible:
  "rv_rel v ((r, d) # ps) \<Longrightarrow> rv_divisible dv m v = Inr (d < m \<and> dv r)"
  by (simp add: rv_divisible_def rv_rel_back)

lemma pop_back_rel:
  assumes v: "rv_rel v ((r, d) # ps)"
  obtains v' where "pop_back v = Inr v'" and "rv_rel v' ps"
proof -
  let ?h = "(my_head v + MaxCapacity - 1) mod MaxCapacity"
  from v have h: "my_head v < MaxCapacity" and l: "length ps < MaxCapacity" by (auto simp: rv_rel_def)
  from v have p: "my_pool v (slot_at (my_head v) i) = Some (fst (((r, d) # ps) ! i)) \<and>
      my_depth v (slot_at (my_head v) i) = snd (((r, d) # ps) ! i)" if "i < Suc (length ps)" for i
    using that by (auto simp: rv_rel_def)
  from v have n: "my_pool v (slot_at (my_head v) i) = None"
    if "Suc (length ps) \<le> i" "i < MaxCapacity" for i using that by (auto simp: rv_rel_def)
  have ne: "slot_at (my_head v) (Suc i) \<noteq> my_head v" if "Suc i < MaxCapacity" for i
    using slot_inj[OF h that, of 0] h by (simp add: MaxCapacity_def)
  let ?v = "v\<lparr>my_pool := (my_pool v)(my_head v := None), my_size := my_size v - 1, my_head := ?h\<rparr>"
  have "pop_back v = Inr ?v" using rv_rel_back(1)[OF v] by (simp add: pop_back_def)
  moreover have "rv_rel ?v ps"
    unfolding rv_rel_def
  proof (intro conjI allI impI)
    show "my_size ?v = length ps" using v by (simp add: rv_rel_def)
    show "length ps \<le> MaxCapacity" "my_head ?v < MaxCapacity" using l by (auto simp: MaxCapacity_def)
    show "my_tail ?v = (my_head ?v + 1 + MaxCapacity - length ps) mod MaxCapacity"
      using v slot_moves(3,5)[OF h l] by (simp add: rv_rel_def)
  next
    fix i assume "i < length ps"
    with p[of "Suc i"] ne[of i] slot_moves(2)[OF h, of i] l
    show "my_pool ?v (slot_at (my_head ?v) i) = Some (fst (ps ! i))"
      "my_depth ?v (slot_at (my_head ?v) i) = snd (ps ! i)" by simp_all
  next
    fix i assume i: "length ps \<le> i" "i < MaxCapacity"
    show "my_pool ?v (slot_at (my_head ?v) i) = None"
    proof (cases "Suc i < MaxCapacity")
      case True
      with n[of "Suc i"] i slot_moves(2)[OF h i(2)] show ?thesis by simp
    next
      case False
      with i(2) have "i = MaxCapacity - 1" by simp
      then have "slot_at ?h i = my_head v"
        using slot_moves(2)[OF h i(2)] h by (simp add: slot_at_def MaxCapacity_def)
      then show ?thesis by simp
    qed
  qed
  ultimately show thesis by (rule that)
qed

lemma pop_front_rel:
  assumes v: "rv_rel v (ps @ [(r, d)])"
  obtains v' where "pop_front v = Inr v'" and "rv_rel v' ps"
proof -
  note F = rv_rel_front[OF v]
  from v have h: "my_head v < MaxCapacity" and l: "length ps < MaxCapacity"
    and t: "my_tail v = (my_head v + 1 + MaxCapacity - Suc (length ps)) mod MaxCapacity"
    by (auto simp: rv_rel_def)
  let ?v = "v\<lparr>my_pool := (my_pool v)(my_tail v := None), my_size := my_size v - 1,
    my_tail := (my_tail v + 1) mod MaxCapacity\<rparr>"
  have "pop_front v = Inr ?v" using F(1) by (simp add: pop_front_def)
  moreover have "rv_rel ?v ps"
    unfolding rv_rel_def
  proof (intro conjI allI impI)
    show "my_size ?v = length ps" "length ps \<le> MaxCapacity" "my_head ?v < MaxCapacity"
      using v l h by (auto simp: rv_rel_def)
    show "my_tail ?v = (my_head ?v + 1 + MaxCapacity - length ps) mod MaxCapacity"
      using slot_moves(3,4)[OF h l] t by simp
  next
    fix i assume i: "i < length ps"
    with slot_inj[OF h _ l, of i] l F(3) have "slot_at (my_head v) i \<noteq> my_tail v" by simp
    with v i show "my_pool ?v (slot_at (my_head ?v) i) = Some (fst (ps ! i))"
      "my_depth ?v (slot_at (my_head ?v) i) = snd (ps ! i)" by (auto simp: rv_rel_def nth_append)
  next
    fix i assume i: "length ps \<le> i" "i < MaxCapacity"
    show "my_pool ?v (slot_at (my_head ?v) i) = None"
      using v i F(3) by (cases "i = length ps") (auto simp: rv_rel_def)
  qed
  ultimately show thesis by (rule that)
qed

lemma split_back_rel:
  assumes v: "rv_rel v ((r, d) # ps)" and l: "Suc (length ps) < MaxCapacity"
  obtains v' where "split_back sp v = Inr v'"
    and "rv_rel v' ((fst (sp r), d + 1) # (snd (sp r), d + 1) # ps)"
proof -
  let ?h = "(my_head v + 1) mod MaxCapacity" and ?qs = "(fst (sp r), d + 1) # (snd (sp r), d + 1) # ps"
  note B = rv_rel_back[OF v]
  from v have h: "my_head v < MaxCapacity" by (simp add: rv_rel_def)
  have h': "?h < MaxCapacity" by (simp add: MaxCapacity_def)
  from v have p: "my_pool v (slot_at (my_head v) i) = Some (fst (((r, d) # ps) ! i)) \<and>
      my_depth v (slot_at (my_head v) i) = snd (((r, d) # ps) ! i)" if "i < Suc (length ps)" for i
    using that by (auto simp: rv_rel_def)
  from v have n: "my_pool v (slot_at (my_head v) i) = None"
    if "Suc (length ps) \<le> i" "i < MaxCapacity" for i using that by (auto simp: rv_rel_def)
  have s: "slot_at ?h (Suc i) = slot_at (my_head v) i" if "i < MaxCapacity" for i
    using slot_moves(1)[OF h that] .
  have neh: "slot_at (my_head v) i \<noteq> ?h" if "Suc i < MaxCapacity" for i
    using slot_Suc[OF h that] s[of i] that by simp
  have ne: "slot_at (my_head v) (Suc i) \<noteq> my_head v" if "Suc i < MaxCapacity" for i
    using slot_inj[OF h that, of 0] h by (simp add: MaxCapacity_def)
  have hh: "?h \<noteq> my_head v" using neh[of 0] h l by auto
  let ?v = "v\<lparr>my_head := ?h,
     my_pool := ((my_pool v)(?h \<mapsto> fst (sp r)))(my_head v \<mapsto> snd (sp r)),
     my_depth := ((my_depth v)(my_head v := d + 1))(?h := d + 1), my_size := my_size v + 1\<rparr>"
  have "split_back sp v = Inr ?v" using B by (simp add: split_back_def Let_def case_prod_unfold)
  moreover have "rv_rel ?v ?qs"
    unfolding rv_rel_def
  proof (intro conjI allI impI)
    show "my_size ?v = length ?qs" "length ?qs \<le> MaxCapacity" "my_head ?v < MaxCapacity"
      using v l h' by (auto simp: rv_rel_def)
    have "my_tail v = slot_at (my_head v) (length ps)"
      using v slot_moves(3)[OF h, of "length ps"] l by (simp add: rv_rel_def)
    also have "\<dots> = slot_at ?h (Suc (length ps))" using s[of "length ps"] l by simp
    also have "\<dots> = (?h + 1 + MaxCapacity - Suc (Suc (length ps))) mod MaxCapacity"
      using slot_moves(3)[OF h' l] by simp
    finally show "my_tail ?v = (my_head ?v + 1 + MaxCapacity - length ?qs) mod MaxCapacity" by simp
  next
    fix i assume i: "i < length ?qs"
    have "my_pool ?v (slot_at ?h i) = Some (fst (?qs ! i)) \<and> my_depth ?v (slot_at ?h i) = snd (?qs ! i)"
    proof (cases i)
      case 0
      then show ?thesis using h' hh by simp
    next
      case (Suc j)
      show ?thesis
      proof (cases j)
        case 0
        then show ?thesis using Suc s[of 0] h hh l by simp
      next
        case (Suc k)
        with \<open>i = Suc j\<close> i l have k: "Suc k < MaxCapacity" "Suc (Suc k) < MaxCapacity" "Suc k < Suc (length ps)"
          by auto
        from p[OF k(3)] s[OF k(1)] ne[OF k(1)] neh[OF k(2)] show ?thesis
          using Suc \<open>i = Suc j\<close> by simp
      qed
    qed
    then show "my_pool ?v (slot_at (my_head ?v) i) = Some (fst (?qs ! i))"
      "my_depth ?v (slot_at (my_head ?v) i) = snd (?qs ! i)" by simp_all
  next
    fix i assume i: "length ?qs \<le> i" "i < MaxCapacity"
    then obtain j where j: "i = Suc j" "Suc (length ps) \<le> j" "Suc j < MaxCapacity" "j < MaxCapacity"
      by (cases i) auto
    then obtain k where "j = Suc k" by (cases j) auto
    then have "slot_at (my_head v) j \<noteq> my_head v" using ne[of k] j by simp
    then show "my_pool ?v (slot_at (my_head ?v) i) = None"
      using n[OF j(2,4)] s[OF j(4)] neh[OF j(3)] j(1) by simp
  qed
  ultimately show thesis by (rule that)
qed

lemma split_to_fill_rel:
  "rv_rel v ps \<Longrightarrow> ps \<noteq> [] \<Longrightarrow>
     \<exists>v'. split_to_fill dv sp m v = Inr v' \<and> rv_rel v' (fill_list dv sp m ps)"
proof (induction dv sp m ps arbitrary: v rule: fill_list.induct)
  case (2 dv sp m r d ps)
  note D = rv_rel_divisible[OF 2(2), of dv m] and S = rv_rel_size[OF 2(2)]
  show ?case
  proof (cases "Suc (length ps) < MaxCapacity \<and> d < m \<and> dv r")
    case True
    then obtain v1 where v1: "split_back sp v = Inr v1"
      "rv_rel v1 ((fst (sp r), d + 1) # (snd (sp r), d + 1) # ps)"
      using split_back_rel[OF 2(2)] by blast
    from 2(1)[OF True v1(2)] obtain v' where v': "split_to_fill dv sp m v1 = Inr v'"
      "rv_rel v' (fill_list dv sp m ((fst (sp r), d + 1) # (snd (sp r), d + 1) # ps))" by auto
    have "split_to_fill dv sp m v = Inr v'"
      by (subst split_to_fill.simps) (use True D S v1(1) v'(1) in simp)
    moreover have "fill_list dv sp m ((r, d) # ps) =
        fill_list dv sp m ((fst (sp r), d + 1) # (snd (sp r), d + 1) # ps)"
      by (subst fill_list.simps) (use True in simp)
    ultimately show ?thesis using v'(2) by simp
  next
    case False
    have "split_to_fill dv sp m v = Inr v"
      by (subst split_to_fill.simps) (use False D S in auto)
    moreover have "fill_list dv sp m ((r, d) # ps) = (r, d) # ps"
      by (subst fill_list.simps) (use False in auto)
    ultimately show ?thesis using 2(2) by auto
  qed
qed simp

lemma destroy_pool_rel:
  "rv_rel v ps \<Longrightarrow> \<exists>v'. destroy_pool v = Inr v' \<and> rv_rel v' []"
proof (induction ps arbitrary: v)
  case Nil
  then have "destroy_pool v = Inr v"
    by (subst destroy_pool.simps) (simp add: rv_rel_empty)
  with Nil show ?case by auto
next
  case (Cons p ps)
  obtain r d where p: "p = (r, d)" by (cases p)
  with Cons(2) obtain v1 where v1: "pop_back v = Inr v1" "rv_rel v1 ps"
    by (auto elim: pop_back_rel)
  with Cons.IH obtain v' where "destroy_pool v1 = Inr v'" "rv_rel v' []" by blast
  moreover have "\<not> rv_empty v" using rv_rel_empty[OF Cons(2)] by simp
  ultimately show ?case
    by (subst destroy_pool.simps) (use v1(1) in simp)
qed

text \<open>An empty pool has no object left in its storage.\<close>

lemma rv_rel_no_objects:
  assumes "rv_rel v []" and "j < MaxCapacity"
  shows "my_pool v j = None"
proof -
  from assms have h: "my_head v < MaxCapacity"
    and n: "\<And>i. i < MaxCapacity \<Longrightarrow> my_pool v (slot_at (my_head v) i) = None"
    by (auto simp: rv_rel_def)
  have "inj_on (slot_at (my_head v)) {..<MaxCapacity}"
    using slot_inj[OF h] by (auto simp: inj_on_def)
  then have "slot_at (my_head v) ` {..<MaxCapacity} = {..<MaxCapacity}"
    by (intro endo_inj_surj) auto
  with assms(2) n show ?thesis by (metis imageE lessThan_iff)
qed

section \<open>What the pool holds\<close>

context splittable begin

definition pool_items :: "('r \<times> depth_t) list \<Rightarrow> 'i list" where
  "pool_items ps = concat (map (items \<circ> fst) ps)"

definition pool_ok :: "('r \<times> depth_t) list \<Rightarrow> bool" where
  "pool_ok ps \<longleftrightarrow> (\<forall>p \<in> set ps. ok (fst p))"

lemma pool_items_simps [simp]:
  "pool_items [] = []" "pool_items ((r, d) # ps) = items r @ pool_items ps"
  "pool_items (ps @ qs) = pool_items ps @ pool_items qs"
  by (simp_all add: pool_items_def)

lemma pool_ok_simps [simp]:
  "pool_ok []" "pool_ok ((r, d) # ps) \<longleftrightarrow> ok r \<and> pool_ok ps"
  "pool_ok (ps @ qs) \<longleftrightarrow> pool_ok ps \<and> pool_ok qs"
  by (auto simp: pool_ok_def)

lemma fill_list_items:
  "pool_ok ps \<Longrightarrow> length ps \<le> MaxCapacity \<Longrightarrow>
     pool_items (fill_list dv sp m ps) = pool_items ps \<and> pool_ok (fill_list dv sp m ps) \<and>
     length ps \<le> length (fill_list dv sp m ps) \<and> length (fill_list dv sp m ps) \<le> MaxCapacity"
proof (induction "MaxCapacity - length ps" arbitrary: ps rule: less_induct)
  case less
  show ?case
  proof (cases ps)
    case Nil
    then show ?thesis by (simp add: fill_list.simps)
  next
    case (Cons p qs)
    obtain r d where ps: "ps = (r, d) # qs" using Cons by (cases p) auto
    show ?thesis
    proof (cases "Suc (length qs) < MaxCapacity \<and> d < m \<and> dv r")
      case True
      obtain x y where xy: "sp r = (x, y)" by (cases "sp r")
      let ?qs = "(x, d + 1) # (y, d + 1) # qs"
      from less(2) True split_items[OF _ _ xy] split_ok[OF _ _ xy]
      have i: "items r = items x @ items y" "ok x" "ok y" by (auto simp: ps)
      have "fill_list dv sp m ps = fill_list dv sp m ?qs"
        unfolding ps by (subst fill_list.simps) (use True xy in simp)
      moreover from less(1)[of ?qs] True less(2) i
      have "pool_items (fill_list dv sp m ?qs) = pool_items ?qs \<and> pool_ok (fill_list dv sp m ?qs) \<and>
          length ?qs \<le> length (fill_list dv sp m ?qs) \<and> length (fill_list dv sp m ?qs) \<le> MaxCapacity"
        by (auto simp: ps)
      ultimately show ?thesis using i by (simp add: ps)
    next
      case False
      then have "fill_list dv sp m ps = ps" unfolding ps by (subst fill_list.simps) auto
      with less(2,3) show ?thesis by simp
    qed
  qed
qed

text \<open>Filling a pool whose back can be divided adds a range.\<close>

lemma fill_list_grows:
  assumes "pool_ok ((r, d) # qs)" and "Suc (length qs) < MaxCapacity" and "d < m" and "dv r"
  shows "Suc (length qs) < length (fill_list dv sp m ((r, d) # qs))"
proof -
  obtain x y where xy: "sp r = (x, y)" by (cases "sp r")
  have "fill_list dv sp m ((r, d) # qs) = fill_list dv sp m ((x, d + 1) # (y, d + 1) # qs)"
    by (subst fill_list.simps) (use assms xy in simp)
  moreover have "pool_ok ((x, d + 1) # (y, d + 1) # qs)"
    using assms(1,4) split_ok[OF _ _ xy] by simp
  ultimately show ?thesis
    using fill_list_items[of "(x, d + 1) # (y, d + 1) # qs" m] assms(2) by simp
qed

end

end
