(* ===== verification/Partitioner.thy ===== *)
theory Partitioner
  imports Range_Pool
begin

text \<open>
  The partitioners of the modified TBB (\<open>partitioner.h\<close>): how the task of a parallel loop
  divides its range. \<open>simple_partition_type\<close> and \<open>auto_partition_type\<close> with its base
  \<open>adaptive_partition_type_base\<close> are records of operations, as the template parameter
  \<open>Partition\<close> of \<open>partition_type_base::execute\<close> is; \<open>execute\<close> calls back \<open>offer_work\<close> and
  \<open>run_body\<close>, which here are the events of its trace. What the scheduler decides (was this
  task stolen, was its sibling stolen, is the group cancelled) is the argument \<open>env\<close>.
\<close>

section \<open>The partition objects\<close>

record 'p partition_ops =
  pt_split :: "'p \<Rightarrow> 'p \<times> 'p"
  pt_check_being_stolen :: "bool \<Rightarrow> 'p \<Rightarrow> bool \<times> 'p"
  pt_is_divisible :: "'p \<Rightarrow> bool \<times> 'p"
  pt_max_depth :: "'p \<Rightarrow> depth_t"
  pt_check_for_demand :: "bool \<Rightarrow> 'p \<Rightarrow> bool \<times> 'p"
  pt_align_depth :: "depth_t \<Rightarrow> 'p \<Rightarrow> 'p"

text \<open>The defaults of \<open>partition_type_base\<close>, for a class without members.\<close>

definition partition_type_base :: "unit partition_ops" where
  "partition_type_base =
     \<lparr>pt_split = (\<lambda>p. (p, ())), pt_check_being_stolen = (\<lambda>_ p. (False, p)),
      pt_is_divisible = (\<lambda>p. (True, p)), pt_max_depth = (\<lambda>_. 0),
      pt_check_for_demand = (\<lambda>_ p. (False, p)), pt_align_depth = (\<lambda>_ p. p)\<rparr>"

definition TBB_INITIAL_CHUNKS :: size_t where "TBB_INITIAL_CHUNKS = 2"
definition TBB_INIT_DEPTH :: depth_t where "TBB_INIT_DEPTH = 5"
definition TBB_DEMAND_DEPTH_ADD :: depth_t where "TBB_DEMAND_DEPTH_ADD = 2"

record adaptive_partition =
  my_divisor :: size_t
  my_max_depth :: depth_t

text \<open>\<open>divisor\<close> is what \<open>get_initial_auto_partitioner_divisor\<close> returns.\<close>

definition get_initial_auto_partitioner_divisor :: "size_t \<Rightarrow> size_t" where
  "get_initial_auto_partitioner_divisor workers = 4 * (1 + workers)"

definition new_adaptive_partition :: "size_t \<Rightarrow> size_t \<Rightarrow> adaptive_partition" where
  "new_adaptive_partition factor divisor =
     \<lparr>my_divisor = divisor div 4 * factor, my_max_depth = TBB_INIT_DEPTH\<rparr>"

text \<open>
  \<open>__TBB_Log2\<close>, the portable version: halve the word that can hold a bit, five times. The
  assembly versions some platforms use instead are not modelled.
\<close>

definition log2_step :: "nat \<Rightarrow> size_t \<times> int \<Rightarrow> size_t \<times> int" where
  "log2_step k q =
     (let (x, result) = q; tmp = drop_bit k x in if tmp \<noteq> 0 then (tmp, result + int k) else (x, result))"

definition TBB_Log2 :: "size_t \<Rightarrow> int" where
  "TBB_Log2 x =
     (if x = 0 then - 1
      else let (x, result) = fold log2_step [32, 16, 8, 4, 2] (x, 0)
           in if and x 2 \<noteq> 0 then result + 1 else result)"

text \<open>
  The splitting constructor (without \<open>__TBB_INITIAL_TASK_IMBALANCE\<close>): the source after it and
  the new object. The new one keeps the depth of the source before it is raised.
\<close>

definition adaptive_split :: "adaptive_partition \<Rightarrow> adaptive_partition \<times> adaptive_partition" where
  "adaptive_split src =
     (let d = my_divisor src div 2;
          new = \<lparr>my_divisor = d, my_max_depth = my_max_depth src\<rparr>;
          src1 = src\<lparr>my_divisor := my_divisor src - d\<rparr>
      in (if d \<noteq> 0
          then src1\<lparr>my_max_depth := my_max_depth src1 +
                 word_of_int (TBB_Log2 (my_divisor src1 div d))\<rparr>
          else src1, new))"

definition adaptive_check_being_stolen :: "bool \<Rightarrow> adaptive_partition \<Rightarrow> bool \<times> adaptive_partition" where
  "adaptive_check_being_stolen stolen p =
     (if my_divisor p = 0 then
        let p1 = p\<lparr>my_divisor := 1\<rparr> in
        if stolen then
          let p2 = (if my_max_depth p1 = 0 then p1\<lparr>my_max_depth := my_max_depth p1 + 1\<rparr> else p1)
          in (True, p2\<lparr>my_max_depth := my_max_depth p2 + TBB_DEMAND_DEPTH_ADD\<rparr>)
        else (False, p1)
      else (False, p))"

definition adaptive_align_depth :: "depth_t \<Rightarrow> adaptive_partition \<Rightarrow> adaptive_partition" where
  "adaptive_align_depth base p = p\<lparr>my_max_depth := my_max_depth p - base\<rparr>"

definition new_auto_partition :: "size_t \<Rightarrow> adaptive_partition" where
  "new_auto_partition divisor =
     (let p = new_adaptive_partition 1 divisor
      in p\<lparr>my_divisor := my_divisor p * TBB_INITIAL_CHUNKS\<rparr>)"

definition auto_is_divisible :: "adaptive_partition \<Rightarrow> bool \<times> adaptive_partition" where
  "auto_is_divisible p =
     (if 1 < my_divisor p then (True, p)
      else if my_divisor p \<noteq> 0 \<and> my_max_depth p \<noteq> 0
      then (True, p\<lparr>my_max_depth := my_max_depth p - 1, my_divisor := 0\<rparr>)
      else (False, p))"

definition auto_check_for_demand :: "bool \<Rightarrow> adaptive_partition \<Rightarrow> bool \<times> adaptive_partition" where
  "auto_check_for_demand peer_stolen p =
     (if peer_stolen
      then (True, p\<lparr>my_max_depth := my_max_depth p + TBB_DEMAND_DEPTH_ADD\<rparr>)
      else (False, p))"

definition auto_partition_type :: "adaptive_partition partition_ops" where
  "auto_partition_type =
     \<lparr>pt_split = adaptive_split, pt_check_being_stolen = adaptive_check_being_stolen,
      pt_is_divisible = auto_is_divisible, pt_max_depth = my_max_depth,
      pt_check_for_demand = auto_check_for_demand, pt_align_depth = adaptive_align_depth\<rparr>"

text \<open>\<open>q\<close> holds the bits of \<open>x0\<close> from some position on, and they fit in \<open>n\<close> bits.\<close>

definition log2_inv :: "size_t \<Rightarrow> nat \<Rightarrow> size_t \<times> int \<Rightarrow> bool" where
  "log2_inv x0 n q \<longleftrightarrow> (\<exists>m. snd q = int m \<and> unat (fst q) = unat x0 div 2 ^ m \<and>
     0 < unat (fst q) \<and> unat (fst q) < 2 ^ n)"

lemma log2_step_inv:
  assumes "log2_inv x0 (2 * k) q"
  shows "log2_inv x0 k (log2_step k q)"
proof -
  from assms obtain m where m: "snd q = int m" "unat (fst q) = unat x0 div 2 ^ m"
    "0 < unat (fst q)" "unat (fst q) < 2 ^ (2 * k)" by (auto simp: log2_inv_def)
  let ?t = "drop_bit k (fst q)"
  have t: "unat ?t = unat (fst q) div 2 ^ k" by (simp add: unat_drop_bit_eq flip: drop_bit_eq_div)
  show ?thesis
  proof (cases "?t = 0")
    case False
    have "unat ?t < 2 ^ k"
      using m(4) by (simp add: t mult_2 power_add less_mult_imp_div_less)
    moreover have "unat ?t = unat x0 div 2 ^ (m + k)" by (simp add: t m(2) power_add div_mult2_eq)
    moreover have "0 < unat ?t" using False by (simp add: unat_gt_0)
    moreover have "log2_step k q = (?t, int (m + k))"
      using False m(1) by (simp add: log2_step_def Let_def case_prod_unfold)
    ultimately show ?thesis by (auto simp: log2_inv_def intro!: exI[of _ "m + k"])
  next
    case True
    then have "unat (fst q) div 2 ^ k = 0" using t by simp
    then have "unat (fst q) < 2 ^ k" by (simp add: div_eq_0_iff)
    moreover have "log2_step k q = q" using True by (simp add: log2_step_def case_prod_unfold)
    ultimately show ?thesis using m by (auto simp: log2_inv_def)
  qed
qed

lemma TBB_Log2_bounds:
  assumes "x \<noteq> 0"
  obtains m where "TBB_Log2 x = int m" and "2 ^ m \<le> unat x" and "unat x < 2 ^ Suc m"
proof -
  have "log2_inv x (2 * 32) (x, 0)"
    using assms unsigned_less[of x] by (auto simp: log2_inv_def unat_gt_0 intro!: exI[of _ 0])
  then have "log2_inv x 32 (log2_step 32 (x, 0))" by (rule log2_step_inv)
  then have "log2_inv x (2 * 16) (log2_step 32 (x, 0))" by simp
  then have "log2_inv x (2 * 8) (log2_step 16 (log2_step 32 (x, 0)))" using log2_step_inv by fastforce
  then have "log2_inv x (2 * 4) (log2_step 8 (log2_step 16 (log2_step 32 (x, 0))))"
    using log2_step_inv by fastforce
  then have "log2_inv x (2 * 2) (log2_step 4 (log2_step 8 (log2_step 16 (log2_step 32 (x, 0)))))"
    using log2_step_inv by fastforce
  then have i: "log2_inv x 2 (fold log2_step [32, 16, 8, 4, 2] (x, 0))"
    using log2_step_inv by fastforce
  obtain y r where yr: "fold log2_step [32, 16, 8, 4, 2] (x, 0) = (y, r)" by fastforce
  with i obtain m where m: "r = int m" "unat y = unat x div 2 ^ m" "0 < unat y" "unat y < 4"
    by (auto simp: log2_inv_def)
  have a: "and y 2 \<noteq> 0 \<longleftrightarrow> 2 \<le> unat y"
  proof -
    have "unat y = 1 \<or> unat y = 2 \<or> unat y = 3" using m(3,4) by linarith
    moreover have "unat (and y 2) = and (unat y) 2" by (simp add: unsigned_and_eq)
    ultimately have "unat (and y 2) \<noteq> 0 \<longleftrightarrow> 2 \<le> unat y" by auto
    then show ?thesis by (metis unsigned_eq_0_iff)
  qed
  show thesis
  proof (cases "2 \<le> unat y")
    case True
    then have "TBB_Log2 x = int (m + 1)" using assms yr a m(1) by (simp add: TBB_Log2_def)
    moreover have "2 * 2 ^ m \<le> unat x"
      using True m(2) by (metis div_le_mono2 div_times_less_eq_dividend le_trans mult_le_mono1)
    moreover have "unat x < 4 * 2 ^ m" using m(2,4) by (simp add: div_less_iff_less_mult mult.commute)
    ultimately show ?thesis by (intro that[of "m + 1"]) auto
  next
    case False
    then have "TBB_Log2 x = int m" using assms yr a m(1) by (simp add: TBB_Log2_def)
    moreover have y1: "unat x div 2 ^ m = 1" using False m(2,3) by simp
    moreover have "2 ^ m \<le> unat x" using y1 by (metis div_less not_le zero_neq_one)
    moreover have "unat x < 2 * 2 ^ m"
    proof -
      have "unat x mod 2 ^ m < 2 ^ m" by simp
      moreover have "2 ^ m + unat x mod 2 ^ m = unat x"
        using div_mult_mod_eq[of "unat x" "2 ^ m"] by (simp only: y1 mult_1)
      ultimately show ?thesis by linarith
    qed
    ultimately show ?thesis by (intro that[of m]) auto
  qed
qed

section \<open>Executing a range\<close>

record sched_env =
  stolen :: bool
  peer_stolen :: "nat \<Rightarrow> bool"
  cancelled :: "nat \<Rightarrow> bool"

datatype ('r, 'p) task_event = Offer 'r 'p | Body 'r

text \<open>
  \<open>offer_work(split_obj)\<close> and \<open>offer_work(r, d)\<close> of the loop's task: the constructors of the
  right child divide the range first, then the partition.
\<close>

definition offer_split ::
    "('r \<Rightarrow> 'r \<times> 'r) \<Rightarrow> 'p partition_ops \<Rightarrow> 'r \<Rightarrow> 'p \<Rightarrow> ('r, 'p) task_event \<times> 'r \<times> 'p" where
  "offer_split sp P r p =
     (let (r1, r2) = sp r; (p1, p2) = pt_split P p in (Offer r2 p2, r1, p1))"

definition offer_range ::
    "'p partition_ops \<Rightarrow> 'r \<Rightarrow> depth_t \<Rightarrow> 'p \<Rightarrow> ('r, 'p) task_event \<times> 'p" where
  "offer_range P r d p =
     (let (p1, p2) = pt_split P p in (Offer r (pt_align_depth P d p2), p1))"

text \<open>The loops of \<open>execute\<close>; the first argument bounds the iterations (\<open>Diverges\<close> past it).\<close>

fun spread_work ::
    "nat \<Rightarrow> ('r \<Rightarrow> bool) \<Rightarrow> ('r \<Rightarrow> 'r \<times> 'r) \<Rightarrow> 'p partition_ops \<Rightarrow> 'r \<Rightarrow> 'p
       \<Rightarrow> (('r, 'p) task_event list \<times> 'r \<times> 'p) result" where
  "spread_work 0 dv sp P r p = Inl Diverges"
| "spread_work (Suc n) dv sp P r p =
     (let (ev, r1, p1) = offer_split sp P r p in
      if dv r1 then
        let (b, p2) = pt_is_divisible P p1 in
        if b then bind_r (spread_work n dv sp P r1 p2) (\<lambda>(evs, q). Inr (ev # evs, q))
        else Inr ([ev], r1, p2)
      else Inr ([ev], r1, p1))"

fun pool_loop ::
    "nat \<Rightarrow> ('r \<Rightarrow> bool) \<Rightarrow> ('r \<Rightarrow> 'r \<times> 'r) \<Rightarrow> 'p partition_ops \<Rightarrow> sched_env \<Rightarrow> nat
       \<Rightarrow> 'r range_vector \<Rightarrow> 'p \<Rightarrow> ('r, 'p) task_event list result" where
  "pool_loop 0 dv sp P env i v p = Inl Diverges"
| "pool_loop (Suc n) dv sp P env i v p =
     bind_r (split_to_fill dv sp (pt_max_depth P p) v) (\<lambda>v1.
     let (demand, p1) = pt_check_for_demand P (peer_stolen env i) p;
         again = (\<lambda>evs v2 p2.
           if \<not> rv_empty v2 \<and> \<not> cancelled env i
           then bind_r (pool_loop n dv sp P env (i + 1) v2 p2) (\<lambda>evs2. Inr (evs @ evs2))
           else bind_r (destroy_pool v2) (\<lambda>_. Inr evs))
     in
     if demand \<and> 1 < my_size v1 then
       bind_r (rv_front v1) (\<lambda>r.
         let (ev, p2) = offer_range P r (front_depth v1) p1 in
         bind_r (pop_front v1) (\<lambda>v2. again [ev] v2 p2))
     else
       bind_r (if demand then rv_divisible dv (pt_max_depth P p1) v1 else Inr False) (\<lambda>b.
         if b then again [] v1 p1
         else bind_r (rv_back v1) (\<lambda>r. bind_r (pop_back v1) (\<lambda>v2. again [Body r] v2 p1))))"

definition partition_execute ::
    "nat \<Rightarrow> ('r \<Rightarrow> bool) \<Rightarrow> ('r \<Rightarrow> 'r \<times> 'r) \<Rightarrow> 'p partition_ops \<Rightarrow> sched_env \<Rightarrow> 'r \<Rightarrow> 'p
       \<Rightarrow> ('r, 'p) task_event list result" where
  "partition_execute n dv sp P env r p =
     bind_r (if dv r then
               let (b, p1) = pt_is_divisible P p in
               if b then spread_work n dv sp P r p1 else Inr ([], r, p1)
             else Inr ([], r, p)) (\<lambda>(evs, r1, p1).
       if \<not> dv r1 \<or> pt_max_depth P p1 = 0 then Inr (evs @ [Body r1])
       else bind_r (pool_loop n dv sp P env 0 (new_range_vector r1) p1) (\<lambda>evs2. Inr (evs @ evs2)))"

fun simple_execute ::
    "nat \<Rightarrow> ('r \<Rightarrow> bool) \<Rightarrow> ('r \<Rightarrow> 'r \<times> 'r) \<Rightarrow> 'r \<Rightarrow> ('r, unit) task_event list result" where
  "simple_execute 0 dv sp r = Inl Diverges"
| "simple_execute (Suc n) dv sp r =
     (if dv r then
        let (ev, r1, _) = offer_split sp partition_type_base r () in
        bind_r (simple_execute n dv sp r1) (\<lambda>evs. Inr (ev # evs))
      else Inr [Body r])"

end
