(* ===== verification/Loop_Tasks.thy ===== *)
theory Loop_Tasks
  imports Partitioner
begin

text \<open>
  What the task of a parallel loop does with its range: every iteration is handed to the body
  or offered to a new task, once, whatever the partitioner and the scheduler decide. The
  lemmas are proved for any range class that meets its requirements (\<open>splittable\<close>), the
  statements about whole loops for any way to execute a range that keeps this contract
  (\<open>loop_task\<close>).
\<close>

fun bodies :: "('r, 'p) task_event list \<Rightarrow> 'r list" where
  "bodies [] = []"
| "bodies (Body r # evs) = r # bodies evs"
| "bodies (Offer r p # evs) = bodies evs"

fun offers :: "('r, 'p) task_event list \<Rightarrow> ('r \<times> 'p) list" where
  "offers [] = []"
| "offers (Body r # evs) = offers evs"
| "offers (Offer r p # evs) = (r, p) # offers evs"

lemma bodies_append [simp]: "bodies (xs @ ys) = bodies xs @ bodies ys"
  by (induction xs rule: bodies.induct) auto

lemma offers_append [simp]: "offers (xs @ ys) = offers xs @ offers ys"
  by (induction xs rule: offers.induct) auto

definition no_cancel :: "sched_env \<Rightarrow> bool" where
  "no_cancel env \<longleftrightarrow> (\<forall>i. \<not> cancelled env i)"

text \<open>
  The iterations \<open>xs\<close> are those of the bodies, then \<open>rest\<close>, then those of the offers, the last
  offer first: a task works from the front of its range and gives away the back.
\<close>

definition covers ::
    "('r \<Rightarrow> 'i list) \<Rightarrow> ('r \<Rightarrow> bool) \<Rightarrow> 'i list \<Rightarrow> ('r, 'p) task_event list \<Rightarrow> 'i list \<Rightarrow> bool" where
  "covers items ok xs evs rest \<longleftrightarrow>
     xs = concat (map items (bodies evs)) @ rest @ concat (map (items \<circ> fst) (rev (offers evs))) \<and>
     (\<forall>r \<in> set (bodies evs). ok r) \<and> (\<forall>q \<in> set (offers evs). ok (fst q))"

lemma covers_nil [simp]: "covers items ok xs [] rest \<longleftrightarrow> xs = rest"
  by (simp add: covers_def)

lemma covers_body: "covers items ok xs evs rest \<Longrightarrow> ok r \<Longrightarrow> covers items ok (items r @ xs) (Body r # evs) rest"
  by (simp add: covers_def)

lemma covers_offer: "covers items ok xs evs rest \<Longrightarrow> ok r \<Longrightarrow> covers items ok (xs @ items r) (Offer r p # evs) rest"
  by (simp add: covers_def)

lemma covers_append:
  "covers items ok xs evs ys \<Longrightarrow> bodies evs = [] \<Longrightarrow> covers items ok ys evs2 rest \<Longrightarrow>
     covers items ok xs (evs @ evs2) rest"
  by (auto simp: covers_def)

context splittable begin

lemma spread_work_covers:
  assumes "ok r" and "dv r" and "length (items r) \<le> n"
  shows "\<exists>evs r1 p1. spread_work n dv sp P r p = Inr (evs, r1, p1) \<and> ok r1 \<and> bodies evs = [] \<and>
     covers items ok (items r) evs (items r1)"
  using assms
proof (induction n arbitrary: r p)
  case 0
  then show ?case using items_ne by simp
next
  case (Suc n)
  obtain a b where ab: "sp r = (a, b)" by fastforce
  obtain p1 p2 where p: "pt_split P p = (p1, p2)" by fastforce
  note i = split_items[OF Suc.prems(1,2) ab] and o = split_ok[OF Suc.prems(1,2) ab]
  have os: "offer_split sp P r p = (Offer b p2, a, p1)" by (simp add: offer_split_def ab p)
  have one: "covers items ok (items r) [Offer b p2] (items a)"
    using covers_offer[of items ok "items a" "[]" "items a" b p2] o by (simp add: i)
  obtain c p3 where c: "pt_is_divisible P p1 = (c, p3)" by fastforce
  show ?case
  proof (cases "dv a \<and> c")
    case True
    have "length (items a) \<le> n" using split_shrinks(1)[OF Suc.prems(1,2) ab] Suc.prems(3) by simp
    with Suc.IH[of a p3] True o obtain evs r1 q where
      e: "spread_work n dv sp P a p3 = Inr (evs, r1, q)" "ok r1" "bodies evs = []"
        "covers items ok (items a) evs (items r1)" by auto
    have "covers items ok (items r) ([Offer b p2] @ evs) (items r1)"
      by (rule covers_append[OF one _ e(4)]) simp
    then show ?thesis using True e(1-3) by (simp add: os c)
  next
    case False
    then show ?thesis using one o by (auto simp: os c)
  qed
qed

text \<open>
  The pool is ready when filling it leaves more than one range; a round that only asked for a
  deeper division makes it ready.
\<close>

definition pool_ready :: "depth_t \<Rightarrow> ('r \<times> depth_t) list \<Rightarrow> bool" where
  "pool_ready m ps \<longleftrightarrow> 1 < length ps \<or> (case ps of [] \<Rightarrow> False | (r, d) # _ \<Rightarrow> d < m \<and> dv r)"

definition pool_measure :: "depth_t \<Rightarrow> ('r \<times> depth_t) list \<Rightarrow> nat" where
  "pool_measure m ps = 2 * length (pool_items ps) + (if pool_ready m ps then 0 else 1)"

lemma fill_ready:
  assumes "pool_ok ps" and "length ps \<le> MaxCapacity" and "pool_ready m ps"
  shows "1 < length (fill_list dv sp m ps)"
proof (cases "1 < length ps")
  case True
  with fill_list_items[OF assms(1,2), of m] show ?thesis by simp
next
  case False
  with assms(3) obtain r d where "ps = [(r, d)]" "d < m" "dv r"
    by (auto simp: pool_ready_def split: list.splits)
  with fill_list_grows[of r d "[]" m] assms(1) show ?thesis by (simp add: MaxCapacity_def)
qed

lemma pool_items_pos: "pool_ok ((r, d) # ps) \<Longrightarrow> 0 < length (items r)"
  using items_ne by auto

lemma pool_next:
  fixes P :: "'p partition_ops"
  assumes IH: "\<forall>j v p ps. rv_rel v ps \<longrightarrow> pool_ok ps \<longrightarrow> ps \<noteq> [] \<longrightarrow>
     pool_measure (pt_max_depth P p) ps \<le> n \<longrightarrow>
     (\<exists>evs rest. pool_loop n dv sp P env j v p = Inr evs \<and> covers items ok (pool_items ps) evs rest \<and>
       (no_cancel env \<longrightarrow> rest = [] \<and> bodies evs \<noteq> []))"
    and v: "rv_rel v ps" and o: "pool_ok ps"
    and m: "ps \<noteq> [] \<Longrightarrow> pool_measure (pt_max_depth P p) ps \<le> n"
  shows "\<exists>evs rest. (if \<not> rv_empty v \<and> \<not> cancelled env i
       then bind_r (pool_loop n dv sp P env (i + 1) v p) (\<lambda>evs2. Inr (evs0 @ evs2))
       else bind_r (destroy_pool v) (\<lambda>_. Inr evs0)) = Inr (evs0 @ evs) \<and>
     covers items ok (pool_items ps) evs rest \<and>
     (no_cancel env \<longrightarrow> rest = [] \<and> (ps \<noteq> [] \<longrightarrow> bodies evs \<noteq> []))"
proof (cases "\<not> rv_empty v \<and> \<not> cancelled env i")
  case True
  then have ps: "ps \<noteq> []" using rv_rel_empty[OF v] by simp
  from IH[rule_format, OF v o ps m[OF ps], of "i + 1"] obtain evs rest where
    "pool_loop n dv sp P env (i + 1) v p = Inr evs" "covers items ok (pool_items ps) evs rest"
    "no_cancel env \<longrightarrow> rest = [] \<and> bodies evs \<noteq> []" by metis
  with True show ?thesis by auto
next
  case False
  obtain v' where "destroy_pool v = Inr v'" using destroy_pool_rel[OF v] by blast
  moreover have "no_cancel env \<longrightarrow> ps = []"
    using False rv_rel_empty[OF v] by (auto simp: no_cancel_def)
  ultimately show ?thesis using False by (intro exI[of _ "[]"] exI[of _ "pool_items ps"]) auto
qed

lemma pool_loop_covers:
  fixes P :: "'p partition_ops"
  shows "rv_rel v ps \<Longrightarrow> pool_ok ps \<Longrightarrow> ps \<noteq> [] \<Longrightarrow> pool_measure (pt_max_depth P p) ps \<le> n \<Longrightarrow>
     \<exists>evs rest. pool_loop n dv sp P env i v p = Inr evs \<and> covers items ok (pool_items ps) evs rest \<and>
       (no_cancel env \<longrightarrow> rest = [] \<and> bodies evs \<noteq> [])"
proof (induction n arbitrary: i v p ps)
  case 0
  then obtain r d qs where "ps = (r, d) # qs" by (cases ps) auto
  with 0 pool_items_pos[of r d qs] show ?case by (simp add: pool_measure_def)
next
  case (Suc n)
  let ?m = "pt_max_depth P p"
  let ?ps = "fill_list dv sp ?m ps"
  have len: "length ps \<le> MaxCapacity" using Suc.prems(1) by (simp add: rv_rel_def)
  note F = fill_list_items[OF Suc.prems(2) len, of ?m]
  obtain v1 where v1: "split_to_fill dv sp ?m v = Inr v1" "rv_rel v1 ?ps"
    using split_to_fill_rel[OF Suc.prems(1,3)] by blast
  obtain dm p1 where dm: "pt_check_for_demand P (peer_stolen env i) p = (dm, p1)" by fastforce
  have IH: "\<forall>j v p ps. rv_rel v ps \<longrightarrow> pool_ok ps \<longrightarrow> ps \<noteq> [] \<longrightarrow>
     pool_measure (pt_max_depth P p) ps \<le> n \<longrightarrow>
     (\<exists>evs rest. pool_loop n dv sp P env j v p = Inr evs \<and> covers items ok (pool_items ps) evs rest \<and>
       (no_cancel env \<longrightarrow> rest = [] \<and> bodies evs \<noteq> []))" using Suc.IH by blast
  note next_round = pool_next[OF IH]
  have ne: "?ps \<noteq> []" using F Suc.prems(3) by auto
  have less: "pool_measure m' qs \<le> n" if "length (pool_items qs) < length (pool_items ?ps)" for m' qs
    using that F Suc.prems(4) by (auto simp: pool_measure_def split: if_splits)
  consider (offer) "dm" "1 < length ?ps"
    | (stall) "dm" "length ?ps = 1" "pool_ready (pt_max_depth P p1) ?ps"
    | (body) "\<not> dm \<or> (length ?ps = 1 \<and> \<not> pool_ready (pt_max_depth P p1) ?ps)"
  proof -
    have "1 < length ?ps \<or> length ?ps = 1" using ne by (metis length_0_conv less_one linorder_neqE_nat)
    then show ?thesis using that by blast
  qed
  then show ?case
  proof cases
    case offer
    then obtain qs r d where qs: "?ps = qs @ [(r, d)]" "qs \<noteq> []"
      by (cases ?ps rule: rev_cases) auto
    with F have o: "ok r" "pool_ok qs" by auto
    note R = rv_rel_front[OF v1(2)[unfolded qs(1)]]
    obtain v2 where v2: "pop_front v1 = Inr v2" "rv_rel v2 qs"
      using pop_front_rel[OF v1(2)[unfolded qs(1)]] by blast
    obtain p2 pc where p2: "pt_split P p1 = (p2, pc)" by fastforce
    let ?ev = "Offer r (pt_align_depth P d pc)"
    have "length (pool_items qs) < length (pool_items ?ps)"
      using items_ne[OF o(1)] by (simp add: qs(1))
    from next_round[OF v2(2) o(2) less[OF this], where p = p2 and i = i and ?evs0.0 = "[?ev]"] obtain evs rest where
      e: "(if \<not> rv_empty v2 \<and> \<not> cancelled env i
       then bind_r (pool_loop n dv sp P env (i + 1) v2 p2) (\<lambda>evs2. Inr ([?ev] @ evs2))
       else bind_r (destroy_pool v2) (\<lambda>_. Inr [?ev])) = Inr ([?ev] @ evs)"
      "covers items ok (pool_items qs) evs rest"
      "no_cancel env \<longrightarrow> rest = [] \<and> bodies evs \<noteq> []" using qs(2) by blast
    from e(2) o(1) have "covers items ok (pool_items ps) (?ev # evs) rest"
      using covers_offer[OF e(2) o(1)] F by (simp add: qs(1))
    moreover have "pool_loop (Suc n) dv sp P env i v p = Inr (?ev # evs)"
      using e(1) v1(1) dm offer R v2(1) p2 rv_rel_size[OF v1(2)] by (simp add: offer_range_def)
    ultimately show ?thesis using e(3) by auto
  next
    case stall
    obtain r d where rd: "?ps = [(r, d)]" using stall(2) by (cases ?ps) auto
    from stall(3) have dv: "d < pt_max_depth P p1" "dv r" by (auto simp: rd pool_ready_def)
    have "\<not> pool_ready ?m ps" using fill_ready[OF Suc.prems(2) len, of ?m] stall(2) by auto
    with Suc.prems(4) stall(3) F have "pool_measure (pt_max_depth P p1) ?ps \<le> n"
      by (simp add: pool_measure_def)
    from next_round[OF v1(2) _ this, where i = i and ?evs0.0 = "[]"] F ne obtain evs rest where
      e: "(if \<not> rv_empty v1 \<and> \<not> cancelled env i
       then bind_r (pool_loop n dv sp P env (i + 1) v1 p1) (\<lambda>evs2. Inr ([] @ evs2))
       else bind_r (destroy_pool v1) (\<lambda>_. Inr [])) = Inr ([] @ evs)"
      "covers items ok (pool_items ?ps) evs rest"
      "no_cancel env \<longrightarrow> rest = [] \<and> bodies evs \<noteq> []" by metis
    moreover have "rv_divisible dv (pt_max_depth P p1) v1 = Inr True"
      using rv_rel_divisible[of v1 r d "[]"] v1(2) dv by (simp add: rd)
    ultimately have "pool_loop (Suc n) dv sp P env i v p = Inr evs"
      using v1(1) dm stall rv_rel_size[OF v1(2)] by simp
    then show ?thesis using e F by auto
  next
    case body
    obtain r d qs where qs: "?ps = (r, d) # qs" using ne by (cases ?ps) auto
    with F have o: "ok r" "pool_ok qs" by auto
    note R = rv_rel_back[OF v1(2)[unfolded qs]]
    obtain v2 where v2: "pop_back v1 = Inr v2" "rv_rel v2 qs"
      using pop_back_rel[OF v1(2)[unfolded qs]] by blast
    have "length (pool_items qs) < length (pool_items ?ps)"
      using items_ne[OF o(1)] by (simp add: qs)
    from next_round[OF v2(2) o(2) less[OF this], where p = p1 and i = i and ?evs0.0 = "[Body r]"] obtain evs rest where
      e: "(if \<not> rv_empty v2 \<and> \<not> cancelled env i
       then bind_r (pool_loop n dv sp P env (i + 1) v2 p1) (\<lambda>evs2. Inr ([Body r] @ evs2))
       else bind_r (destroy_pool v2) (\<lambda>_. Inr [Body r])) = Inr ([Body r] @ evs)"
      "covers items ok (pool_items qs) evs rest" "no_cancel env \<longrightarrow> rest = []" by blast
    have "covers items ok (pool_items ps) (Body r # evs) rest"
      using covers_body[OF e(2) o(1)] F by (simp add: qs)
    moreover have "(if dm then rv_divisible dv (pt_max_depth P p1) v1 else Inr False) = Inr False"
      using body rv_rel_divisible[OF v1(2)[unfolded qs]] by (auto simp: qs pool_ready_def)
    moreover have "\<not> (dm \<and> 1 < my_size v1)" using body rv_rel_size[OF v1(2)] by auto
    ultimately have "pool_loop (Suc n) dv sp P env i v p = Inr (Body r # evs)"
      using e(1) v1(1) dm R(1) v2(1) by (simp, blast)
    then show ?thesis using \<open>covers items ok (pool_items ps) (Body r # evs) rest\<close> e(3) by auto
  qed
qed

lemma partition_execute_covers:
  assumes "ok r" and "2 * length (items r) + 1 \<le> n"
  shows "\<exists>evs rest. partition_execute n dv sp P env r p = Inr evs \<and> covers items ok (items r) evs rest \<and>
     (no_cancel env \<longrightarrow> rest = [] \<and> bodies evs \<noteq> [])"
proof -
  have "\<exists>evs r1 p1. (if dv r then
               let (b, p1) = pt_is_divisible P p in
               if b then spread_work n dv sp P r p1 else Inr ([], r, p1)
             else Inr ([], r, p)) = Inr (evs, r1, p1) \<and> ok r1 \<and> bodies evs = [] \<and>
     covers items ok (items r) evs (items r1)"
  proof (cases "dv r \<and> fst (pt_is_divisible P p)")
    case True
    with spread_work_covers[OF assms(1), of n P "snd (pt_is_divisible P p)"] assms(2)
    show ?thesis by (auto simp: case_prod_unfold)
  next
    case False
    then show ?thesis using assms(1) by (auto simp: case_prod_unfold)
  qed
  then obtain evs r1 p1 where s: "(if dv r then
               let (b, p1) = pt_is_divisible P p in
               if b then spread_work n dv sp P r p1 else Inr ([], r, p1)
             else Inr ([], r, p)) = Inr (evs, r1, p1)" "ok r1" "bodies evs = []"
     "covers items ok (items r) evs (items r1)" by blast
  show ?thesis
  proof (cases "\<not> dv r1 \<or> pt_max_depth P p1 = 0")
    case True
    have "covers items ok (items r1) [Body r1] []"
      using covers_body[of items ok "[]" "[]" "[]" r1] s(2) by simp
    from covers_append[OF s(4,3) this] s(1) True show ?thesis
      unfolding partition_execute_def by auto
  next
    case False
    have "length (items r1) \<le> length (items r)" using s(4) by (simp add: covers_def)
    then have "pool_measure (pt_max_depth P p1) [(r1, 0)] \<le> n"
      using assms(2) by (simp add: pool_measure_def)
    from pool_loop_covers[OF rv_rel_new _ _ this, of env 0] s(2) obtain evs2 rest where
      e: "pool_loop n dv sp P env 0 (new_range_vector r1) p1 = Inr evs2"
      "covers items ok (items r1) evs2 rest" "no_cancel env \<longrightarrow> rest = [] \<and> bodies evs2 \<noteq> []" by auto
    from covers_append[OF s(4,3) e(2)] e(1,3) s(1) False show ?thesis
      unfolding partition_execute_def by auto
  qed
qed

lemma simple_execute_covers:
  assumes "ok r" and "length (items r) \<le> n"
  shows "\<exists>evs. simple_execute n dv sp r = Inr evs \<and> covers items ok (items r) evs [] \<and> bodies evs \<noteq> []"
  using assms
proof (induction n arbitrary: r)
  case 0
  then show ?case using items_ne by simp
next
  case (Suc n)
  show ?case
  proof (cases "dv r")
    case True
    obtain a b where ab: "sp r = (a, b)" by fastforce
    note i = split_items[OF Suc.prems(1) True ab] and o = split_ok[OF Suc.prems(1) True ab]
    have "length (items a) \<le> n" using split_shrinks(1)[OF Suc.prems(1) True ab] Suc.prems(2) by simp
    with Suc.IH o obtain evs where e: "simple_execute n dv sp a = Inr evs"
      "covers items ok (items a) evs []" "bodies evs \<noteq> []" by blast
    from covers_offer[OF e(2), of b "()"] o i have "covers items ok (items r) (Offer b () # evs) []" by simp
    then show ?thesis using True e(1,3)
      by (auto simp: offer_split_def ab partition_type_base_def)
  next
    case False
    have "covers items ok (items r) [Body r] []"
      using covers_body[of items ok "[]" "[]" "[]" r] Suc.prems(1) by simp
    then show ?thesis using False by simp
  qed
qed

end

end
