(* ===== verification/Loop_System.thy ===== *)
theory Loop_System
  imports Loop_Tasks "HOL-Library.Multiset"
begin

text \<open>
  Whole parallel loops (\<open>parallel_for.h\<close>): the tasks waiting to run, and the ranges handed to
  the body so far. A step takes any waiting task, on any thread, and executes it; its offers
  join the waiting tasks. Which task is next, which were stolen and what the flags of the
  partitioner read is left open, so every schedule is a run of \<open>loop_step\<close>.
\<close>

record ('r, 'p) loop_state =
  pending :: "('r \<times> 'p) list"
  finished :: "'r list"

inductive loop_step ::
    "(sched_env \<Rightarrow> 'r \<times> 'p \<Rightarrow> ('r, 'p) task_event list result)
       \<Rightarrow> ('r, 'p) loop_state \<Rightarrow> ('r, 'p) loop_state \<Rightarrow> bool"
  for ex where
  run_task: "no_cancel env \<Longrightarrow> ex env t = Inr evs \<Longrightarrow>
     loop_step ex \<lparr>pending = xs @ t # ys, finished = bs\<rparr>
       \<lparr>pending = xs @ ys @ offers evs, finished = bs @ bodies evs\<rparr>"

inductive_cases loop_stepE: "loop_step ex s s'"

definition loop_start :: "bool \<Rightarrow> 'r \<Rightarrow> 'p \<Rightarrow> ('r, 'p) loop_state" where
  "loop_start e r p = \<lparr>pending = (if e then [] else [(r, p)]), finished = []\<rparr>"

text \<open>The contract of a task: it returns, and its bodies and offers are its range.\<close>

locale loop_task = splittable dv sp items ok
  for dv :: "'r \<Rightarrow> bool" and sp :: "'r \<Rightarrow> 'r \<times> 'r" and items :: "'r \<Rightarrow> 'i list" and ok :: "'r \<Rightarrow> bool" +
  fixes ex :: "sched_env \<Rightarrow> 'r \<times> 'p \<Rightarrow> ('r, 'p) task_event list result"
  assumes ex_covers: "ok r \<Longrightarrow> no_cancel env \<Longrightarrow>
    \<exists>evs. ex env (r, p) = Inr evs \<and> covers items ok (items r) evs [] \<and> bodies evs \<noteq> []"
begin

definition todo :: "('r, 'p) loop_state \<Rightarrow> 'i list" where
  "todo s = concat (map (items \<circ> fst) (pending s))"

definition ran :: "('r, 'p) loop_state \<Rightarrow> 'i list" where
  "ran s = concat (map items (finished s))"

definition loop_ok :: "'i list \<Rightarrow> ('r, 'p) loop_state \<Rightarrow> bool" where
  "loop_ok xs s \<longleftrightarrow> mset (todo s) + mset (ran s) = mset xs \<and>
     (\<forall>q \<in> set (pending s). ok (fst q)) \<and> (\<forall>r \<in> set (finished s). ok r)"

lemma mset_concat_rev: "mset (concat (map f (rev xs))) = mset (concat (map f xs))"
  by (induction xs) auto

lemma loop_step_ok:
  assumes "loop_step ex s s'" and "loop_ok xs s"
  shows "loop_ok xs s'" "length (todo s') < length (todo s)"
proof -
  from assms(1) obtain env t evs qs rs bs where e: "no_cancel env" "ex env t = Inr evs"
    "s = \<lparr>pending = qs @ t # rs, finished = bs\<rparr>"
    "s' = \<lparr>pending = qs @ rs @ offers evs, finished = bs @ bodies evs\<rparr>"
    by (auto elim: loop_stepE)
  obtain r p where t: "t = (r, p)" by (cases t)
  have r: "ok r" using assms(2) by (simp add: loop_ok_def e(3) t)
  from ex_covers[OF this e(1), of p] e(2) have c: "covers items ok (items r) evs []"
    and b: "bodies evs \<noteq> []" by (auto simp: t)
  from c have i: "items r = concat (map items (bodies evs)) @ concat (map (items \<circ> fst) (rev (offers evs)))"
    and o: "\<forall>r \<in> set (bodies evs). ok r" "\<forall>q \<in> set (offers evs). ok (fst q)"
    by (auto simp: covers_def)
  have m: "mset (items r) = mset (concat (map items (bodies evs))) + mset (concat (map (items \<circ> fst) (offers evs)))"
    unfolding i by (simp only: mset_append mset_concat_rev)
  then show "loop_ok xs s'" using assms(2) o
    by (auto simp: loop_ok_def todo_def ran_def e t ac_simps)
  obtain b1 bs1 where b1: "bodies evs = b1 # bs1" using b by (cases "bodies evs") auto
  then have "items b1 \<noteq> []" using o(1) items_ne by simp
  then have "0 < length (concat (map items (bodies evs)))" by (simp add: b1)
  moreover have "length (items r) = length (concat (map items (bodies evs))) +
      length (concat (map (items \<circ> fst) (offers evs)))"
    using m by (metis size_mset size_union)
  ultimately show "length (todo s') < length (todo s)" by (simp add: todo_def e t)
qed

lemma loop_run_ok:
  assumes "(loop_step ex ^^ n) s s'" and "loop_ok xs s"
  shows "loop_ok xs s' \<and> n + length (todo s') \<le> length (todo s)"
  using assms
proof (induction n arbitrary: s')
  case (Suc n)
  then obtain s1 where "(loop_step ex ^^ n) s s1" "loop_step ex s1 s'" by auto
  with Suc.IH[of s1] Suc.prems(2) loop_step_ok[of s1 s' xs] show ?case by fastforce
qed simp

lemma loop_progress:
  assumes "loop_ok xs s" and "pending s \<noteq> []"
  shows "\<exists>s'. loop_step ex s s'"
proof -
  obtain t ts where t: "pending s = t # ts" using assms(2) by (cases "pending s") auto
  define env :: sched_env where "env = \<lparr>stolen = False, peer_stolen = (\<lambda>_. False), cancelled = (\<lambda>_. False)\<rparr>"
  have "no_cancel env" by (simp add: no_cancel_def env_def)
  moreover obtain evs where "ex env t = Inr evs"
    using ex_covers[OF _ \<open>no_cancel env\<close>, of "fst t" "snd t"] assms(1) t by (auto simp: loop_ok_def)
  ultimately have "loop_step ex \<lparr>pending = [] @ t # ts, finished = finished s\<rparr>
      \<lparr>pending = [] @ ts @ offers evs, finished = finished s @ bodies evs\<rparr>"
    by (rule loop_step.run_task)
  moreover have "\<lparr>pending = [] @ t # ts, finished = finished s\<rparr> = s" using t by (cases s) simp
  ultimately show ?thesis by auto
qed

lemma loop_start_ok: "\<not> e \<Longrightarrow> ok r \<Longrightarrow> loop_ok (items r) (loop_start e r p)"
  "e \<Longrightarrow> items r = [] \<Longrightarrow> loop_ok (items r) (loop_start e r p)"
  by (auto simp: loop_ok_def loop_start_def todo_def ran_def)

lemma todo_start: "length (todo (loop_start e r p)) \<le> length (items r)"
  by (simp add: todo_def loop_start_def)

lemma loop_done:
  assumes "loop_ok xs s" and "pending s = []"
  shows "mset (concat (map items (finished s))) = mset xs"
  using assms by (simp add: loop_ok_def todo_def ran_def)

end

end
