(* ===== verification/Parallel_For.thy ===== *)
theory Parallel_For
  imports Loop_System
begin

text \<open>
  \<open>parallel_for\<close> over a \<open>blocked_range\<close> (\<open>parallel_for.h\<close>): the task \<open>start_for\<close>, its
  \<open>run\<close>, the overloads with a partitioner, and the iteration over integers with a step. The
  calls that reach the detector library are in \<open>Loop_Calls\<close>.
\<close>

section \<open>The task\<close>

text \<open>
  \<open>start_for::execute\<close> between its two calls of the library. The bound on the iterations of
  its loops is twice the size of the range and one: each round gives away or runs a range, or
  prepares a division.
\<close>

definition loop_fuel :: "blocked_range \<Rightarrow> nat" where
  "loop_fuel r = 2 * length (range_items r) + 1"

definition start_for_execute ::
    "'p partition_ops \<Rightarrow> sched_env \<Rightarrow> blocked_range \<times> 'p \<Rightarrow> (blocked_range, 'p) task_event list result" where
  "start_for_execute P env t =
     (let (r, p) = t; (_, p1) = pt_check_being_stolen P (stolen env) p in
      partition_execute (loop_fuel r) range_divisible split_range P env r p1)"

definition start_for_simple ::
    "sched_env \<Rightarrow> blocked_range \<times> unit \<Rightarrow> (blocked_range, unit) task_event list result" where
  "start_for_simple env t = simple_execute (loop_fuel (fst t)) range_divisible split_range (fst t)"

text \<open>
  \<open>start_for::run\<close>: a root task for a range that is not empty; \<open>spawn_root_and_wait\<close> returns
  when no task is left. The overloads of \<open>parallel_for\<close> differ in the partition object.
\<close>

definition start_for_run :: "blocked_range \<Rightarrow> 'p \<Rightarrow> (blocked_range, 'p) loop_state" where
  "start_for_run r p = loop_start (range_empty r) r p"

definition parallel_for_auto :: "size_t \<Rightarrow> blocked_range \<Rightarrow> (blocked_range, adaptive_partition) loop_state" where
  "parallel_for_auto workers r =
     start_for_run r (new_auto_partition (get_initial_auto_partitioner_divisor workers))"

definition parallel_for_simple :: "blocked_range \<Rightarrow> (blocked_range, unit) loop_state" where
  "parallel_for_simple r = start_for_run r ()"

interpretation any_loop: loop_task range_divisible split_range range_items range_wf "start_for_execute P"
  for P :: "'p partition_ops"
proof (unfold_locales, goal_cases)
  case (1 r env p)
  obtain b p1 where "pt_check_being_stolen P (stolen env) p = (b, p1)" by fastforce
  with br.partition_execute_covers[OF 1(1), of "loop_fuel r" P env p1] 1(2)
  show ?case by (auto simp: start_for_execute_def loop_fuel_def)
qed

interpretation simple_loop: loop_task range_divisible split_range range_items range_wf start_for_simple
proof (unfold_locales, goal_cases)
  case (1 r env p)
  from br.simple_execute_covers[OF 1(1), of "loop_fuel r"]
  show ?case by (auto simp: start_for_simple_def loop_fuel_def)
qed

lemma start_for_run_ok:
  assumes "0 < my_grainsize r"
  shows "any_loop.loop_ok (range_items r) (start_for_run r p)"
proof (cases "range_empty r")
  case True
  then show ?thesis unfolding start_for_run_def
    by (intro any_loop.loop_start_ok(2)) (simp_all add: range_empty_items)
next
  case False
  with assms show ?thesis unfolding start_for_run_def
    by (intro any_loop.loop_start_ok(1)) (simp_all add: range_wf_def range_empty_def)
qed

lemma simple_ok_eq: "simple_loop.loop_ok = any_loop.loop_ok"
  by (simp add: fun_eq_iff simple_loop.loop_ok_def any_loop.loop_ok_def simple_loop.todo_def
      any_loop.todo_def simple_loop.ran_def any_loop.ran_def)

lemma loop_steps_ok:
  assumes "(loop_step (start_for_execute P))\<^sup>*\<^sup>* s s'" and "any_loop.loop_ok xs s"
  shows "any_loop.loop_ok xs s'"
  using assms by (auto simp: rtranclp_power dest: any_loop.loop_run_ok)

section \<open>Iterating over integers\<close>

lemma step_closer:
  fixes i e :: size_t
  assumes "i < e"
  shows "unat e - unat (i + 1) < unat e - unat i" "unat (i + 1) = unat i + 1"
proof -
  have "unat i < unat e" using assms by (simp add: word_less_nat_alt)
  moreover have "unat e < 2 ^ 64" using unsigned_less[of e] by simp
  ultimately have "unat i + 1 < 2 ^ 64" by linarith
  then show u: "unat (i + 1) = unat i + 1" by (simp add: unat_word_ariths)
  with \<open>unat i < unat e\<close> show "unat e - unat (i + 1) < unat e - unat i" by simp
qed

text \<open>
  The loop of \<open>parallel_for_body::operator()\<close>: the arguments \<open>my_func\<close> is called with. Each
  product and sum wraps as \<open>size_t\<close> does.
\<close>

function body_loop :: "size_t \<Rightarrow> size_t \<Rightarrow> size_t \<Rightarrow> size_t \<Rightarrow> size_t list" where
  "body_loop i e ms k = (if i < e then k # body_loop (i + 1) e ms (k + ms) else [])"
  by pat_completeness auto

termination
  by (relation "measure (\<lambda>(i, e, ms, k). unat e - unat i)") (auto simp: step_closer(2) word_less_nat_alt)

declare body_loop.simps [simp del]

definition parallel_for_body :: "size_t \<Rightarrow> size_t \<Rightarrow> blocked_range \<Rightarrow> size_t list" where
  "parallel_for_body first my_step r =
     (let b = my_begin r; e = my_end r; ms = my_step; k = first + b * ms in body_loop b e ms k)"

datatype for_error = invalid_argument

definition parallel_for_impl :: "size_t \<Rightarrow> size_t \<Rightarrow> size_t \<Rightarrow> for_error + blocked_range option" where
  "parallel_for_impl first lst step =
     (if step \<le> 0 then Inl invalid_argument
      else if first < lst then
        let e = (lst - first - 1) div step + 1 in Inr (Some (new_blocked_range 0 e 1))
      else Inr None)"

lemma body_loop_map:
  "i \<le> e \<Longrightarrow> body_loop i e ms k = map (\<lambda>j. k + word_of_nat (j - unat i) * ms) [unat i..<unat e]"
proof (induction i e ms k rule: body_loop.induct)
  case (1 i e ms k)
  show ?case
  proof (cases "i < e")
    case True
    have s: "unat (i + 1) = Suc (unat i)" using step_closer(2)[OF True] by simp
    have "i + 1 \<le> e" using True s by (simp add: word_le_nat_alt word_less_nat_alt)
    note IH = 1(1)[OF True this]
    have "[unat i..<unat e] = unat i # [Suc (unat i)..<unat e]"
      using True by (simp add: upt_conv_Cons word_less_nat_alt)
    moreover have "k + ms + word_of_nat (j - Suc (unat i)) * ms = k + word_of_nat (j - unat i) * ms"
      if "Suc (unat i) \<le> j" for j
    proof -
      from that have "j - unat i = Suc (j - Suc (unat i))" by simp
      then show ?thesis by (simp add: algebra_simps)
    qed
    ultimately show ?thesis
      using IH by (subst body_loop.simps) (simp add: True s)
  next
    case False
    with 1(2) have "i = e" by simp
    then show ?thesis by (subst body_loop.simps) simp
  qed
qed

lemma parallel_for_body_items:
  assumes "range_wf r"
  shows "parallel_for_body f ms r = map (\<lambda>j. f + word_of_nat j * ms) (range_items r)"
proof -
  have le: "my_begin r \<le> my_end r" using assms unfolding range_wf_def by (simp only: less_imp_le)
  have "f + my_begin r * ms + word_of_nat (j - unat (my_begin r)) * ms = f + word_of_nat j * ms"
    if "unat (my_begin r) \<le> j" for j
  proof -
    from that have "(word_of_nat (j - unat (my_begin r)) :: size_t) = word_of_nat j - my_begin r"
      by simp
    then show ?thesis by (simp only:) (simp add: algebra_simps)
  qed
  then show ?thesis
    by (simp add: parallel_for_body_def Let_def body_loop_map[OF le] range_items_def)
qed

end
