(* ===== verification/Loop_Props.thy ===== *)
theory Loop_Props
  imports Parallel_For
begin

text \<open>
  The properties of \<open>parallel_for\<close> and of the range pool, with the inputs on which their
  hypotheses are met.
\<close>

lemma range_items_distinct [simp]: "distinct (range_items r)"
  by (simp add: range_items_def)

lemma parallel_for_run_mset:
  assumes "0 < my_grainsize r"
    and "(loop_step (start_for_execute P))\<^sup>*\<^sup>* (start_for_run r p) s" and "pending s = []"
  shows "mset (concat (map range_items (finished s))) = mset (range_items r)"
    "\<forall>q \<in> set (finished s). range_wf q"
proof -
  have "any_loop.loop_ok (range_items r) s"
    by (rule loop_steps_ok[OF assms(2) start_for_run_ok[OF assms(1)]])
  then show "mset (concat (map range_items (finished s))) = mset (range_items r)"
    "\<forall>q \<in> set (finished s). range_wf q"
    using any_loop.loop_done[OF _ assms(3)] by (auto simp: any_loop.loop_ok_def)
qed

section \<open>Every iteration, once\<close>

text \<open>
  C25. When a parallel loop over a range with a positive grain size has no task left, the body
  was called on non-empty ranges that hold each iteration of the range once, and no other:
  for any partition object, in any order of the tasks, whatever was stolen in between.
\<close>

theorem parallel_for_covers:
  assumes "0 < my_grainsize r"
    and "(loop_step (start_for_execute P))\<^sup>*\<^sup>* (start_for_run r p) s" and "pending s = []"
  shows "distinct (concat (map range_items (finished s))) \<and>
    set (concat (map range_items (finished s))) = {unat (my_begin r)..<unat (my_end r)} \<and>
    (\<forall>q \<in> set (finished s). \<not> range_empty q)"
proof (intro conjI)
  note m = parallel_for_run_mset[OF assms]
  from m(1) show "distinct (concat (map range_items (finished s)))"
    by (metis mset_eq_imp_distinct_iff range_items_distinct)
  from m(1) show "set (concat (map range_items (finished s))) = {unat (my_begin r)..<unat (my_end r)}"
    by (metis mset_eq_setD range_items_def set_upt)
  from m(2) show "\<forall>q \<in> set (finished s). \<not> range_empty q"
    by (auto simp: range_wf_def range_empty_def)
qed

text \<open>
  C26. A parallel loop comes to its end: after as many steps as the range has iterations no
  task is left, and as long as one is left a step is possible.
\<close>

theorem parallel_for_ends:
  assumes "0 < my_grainsize r" and "(loop_step (start_for_execute P) ^^ n) (start_for_run r p) s"
  shows "n \<le> length (range_items r) \<and>
    (pending s \<noteq> [] \<longrightarrow> (\<exists>s'. loop_step (start_for_execute P) s s')) \<and>
    (n = length (range_items r) \<longrightarrow> pending s = [])"
proof (intro conjI impI)
  from any_loop.loop_run_ok[OF assms(2) start_for_run_ok[OF assms(1)]]
  have o: "any_loop.loop_ok (range_items r) s"
    and l: "n + length (any_loop.todo s) \<le> length (range_items r)"
    using any_loop.todo_start[of "range_empty r" r p]
    unfolding start_for_run_def by auto
  then show "n \<le> length (range_items r)" by simp
  show "\<exists>s'. loop_step (start_for_execute P) s s'" if "pending s \<noteq> []"
    using any_loop.loop_progress[OF o that] .
  assume "n = length (range_items r)"
  with l have "any_loop.todo s = []" by simp
  then show "pending s = []"
    using o br.items_ne by (cases "pending s") (auto simp: any_loop.todo_def any_loop.loop_ok_def)
qed

definition sample_range :: blocked_range where
  "sample_range = new_blocked_range 0 2 1"

definition sample_env :: sched_env where
  "sample_env = \<lparr>stolen = False, peer_stolen = (\<lambda>_. False), cancelled = (\<lambda>_. False)\<rparr>"

lemma sample_task_1:
  "start_for_execute auto_partition_type sample_env (sample_range, \<lparr>my_divisor = 2, my_max_depth = 5\<rparr>) =
     Inr [Offer (new_blocked_range 1 2 1) \<lparr>my_divisor = 1, my_max_depth = 5\<rparr>, Body (new_blocked_range 0 1 1)]"
  by code_simp

lemma sample_task_2:
  "start_for_execute auto_partition_type sample_env
     (new_blocked_range 1 2 1, \<lparr>my_divisor = 1, my_max_depth = 5\<rparr>) = Inr [Body (new_blocked_range 1 2 1)]"
  by code_simp

lemma sample_run:
  "(loop_step (start_for_execute auto_partition_type) ^^ 2)
     (start_for_run sample_range \<lparr>my_divisor = 2, my_max_depth = 5\<rparr>)
     \<lparr>pending = [], finished = [new_blocked_range 0 1 1, new_blocked_range 1 2 1]\<rparr>"
proof -
  have nc: "no_cancel sample_env" by (simp add: no_cancel_def sample_env_def)
  have "loop_step (start_for_execute auto_partition_type)
      \<lparr>pending = [] @ (sample_range, \<lparr>my_divisor = 2, my_max_depth = 5\<rparr>) # [], finished = []\<rparr>
      \<lparr>pending = [] @ [] @ [(new_blocked_range 1 2 1, \<lparr>my_divisor = 1, my_max_depth = 5\<rparr>)],
        finished = [] @ [new_blocked_range 0 1 1]\<rparr>"
    using loop_step.run_task[where ex = "start_for_execute auto_partition_type", OF nc sample_task_1, of "[]" "[]" "[]"] by simp
  moreover have "loop_step (start_for_execute auto_partition_type)
      \<lparr>pending = [] @ (new_blocked_range 1 2 1, \<lparr>my_divisor = 1, my_max_depth = 5\<rparr>) # [],
        finished = [new_blocked_range 0 1 1]\<rparr>
      \<lparr>pending = [] @ [] @ [], finished = [new_blocked_range 0 1 1] @ [new_blocked_range 1 2 1]\<rparr>"
    using loop_step.run_task[where ex = "start_for_execute auto_partition_type", OF nc sample_task_2, of "[]" "[]" "[new_blocked_range 0 1 1]"] by simp
  moreover have "\<not> range_empty sample_range"
    by (simp add: range_empty_def sample_range_def new_blocked_range_def)
  ultimately show ?thesis
    by (auto simp: numeral_2_eq_2 start_for_run_def loop_start_def intro!: relcomppI)
qed

lemma parallel_for_covers_witness:
  "set (concat (map range_items [new_blocked_range 0 1 1, new_blocked_range 1 2 1])) = {0..<2}"
proof -
  have "0 < my_grainsize sample_range" by (simp add: sample_range_def new_blocked_range_def)
  from parallel_for_covers[OF this rtranclp_power[THEN iffD2, OF exI, OF sample_run]]
  show ?thesis by (simp add: sample_range_def new_blocked_range_def)
qed

lemma parallel_for_ends_witness: "2 \<le> length (range_items sample_range)"
proof -
  have "0 < my_grainsize sample_range" by (simp add: sample_range_def new_blocked_range_def)
  from parallel_for_ends[OF this sample_run] show ?thesis by simp
qed

section \<open>Loops over integers\<close>

lemma parallel_for_impl_range:
  assumes "parallel_for_impl first lst step = Inr (Some r)"
  shows "0 < step" "first < lst" "range_wf r"
    "unat (my_end r) = (unat lst - unat first - 1) div unat step + 1" "my_begin r = 0"
proof -
  from assms show st: "0 < step" "first < lst"
    by (auto simp: parallel_for_impl_def word_neq_0_conv split: if_splits)
  let ?e = "(lst - first - 1) div step + 1"
  from assms have r: "r = new_blocked_range 0 ?e 1"
    by (auto simp: parallel_for_impl_def Let_def split: if_splits)
  have fl: "unat first < unat lst" using st(2) by (simp add: word_less_nat_alt)
  have "unat (lst - first) = unat lst - unat first" using fl by (simp add: unat_sub word_le_nat_alt)
  moreover from this fl have "1 \<le> lst - first" by (simp add: word_le_nat_alt)
  ultimately have d: "unat (lst - first - 1) = unat lst - unat first - 1" by (simp add: unat_sub)
  have "unat ((lst - first - 1) div step) \<le> unat lst - unat first - 1"
    by (simp add: unat_div_distrib d)
  then have "unat ((lst - first - 1) div step) + 1 < 2 ^ 64"
    using fl size_t_bound[of lst] by simp
  then have "unat ?e = unat ((lst - first - 1) div step) + 1" by (simp add: unat_word_ariths)
  then have e: "unat ?e = (unat lst - unat first - 1) div unat step + 1"
    by (simp add: unat_div_distrib d)
  then show "unat (my_end r) = (unat lst - unat first - 1) div unat step + 1" "my_begin r = 0"
    by (simp_all add: r new_blocked_range_def)
  have "0 < ?e" using e by (simp add: word_less_nat_alt)
  then show "range_wf r" by (simp add: r range_wf_def new_blocked_range_def)
qed

lemma sorted_steps: "sorted (map (\<lambda>j. F + j * S) [0..<n])" for F S :: nat
  by (induction n) (auto simp: sorted_append)

lemma stepped_indices:
  fixes F L S :: nat
  assumes "F < L" and "0 < S"
  shows "map (\<lambda>j. F + j * S) [0..<(L - F - 1) div S + 1] = filter (\<lambda>k. (k - F) mod S = 0) [F..<L]"
proof (rule sorted_distinct_set_unique)
  show "sorted (map (\<lambda>j. F + j * S) [0..<(L - F - 1) div S + 1])"
    by (rule sorted_steps)
  show "distinct (map (\<lambda>j. F + j * S) [0..<(L - F - 1) div S + 1])"
    using assms(2) by (auto simp: distinct_map inj_on_def)
  show "sorted (filter (\<lambda>k. (k - F) mod S = 0) [F..<L])"
    "distinct (filter (\<lambda>k. (k - F) mod S = 0) [F..<L])" by (auto intro: sorted_wrt_filter)
  show "set (map (\<lambda>j. F + j * S) [0..<(L - F - 1) div S + 1]) =
      set (filter (\<lambda>k. (k - F) mod S = 0) [F..<L])"
  proof (intro set_eqI iffI)
    fix k assume "k \<in> set (map (\<lambda>j. F + j * S) [0..<(L - F - 1) div S + 1])"
    then obtain j where j: "k = F + j * S" "j \<le> (L - F - 1) div S"
      unfolding set_map set_upt image_iff atLeastLessThan_iff Bex_def by (metis Suc_eq_plus1 less_Suc_eq_le)
    then have "j * S \<le> L - F - 1" by (metis assms(2) less_eq_div_iff_mult_less_eq)
    then show "k \<in> set (filter (\<lambda>k. (k - F) mod S = 0) [F..<L])" using j assms by auto
  next
    fix k assume "k \<in> set (filter (\<lambda>k. (k - F) mod S = 0) [F..<L])"
    then have k: "F \<le> k" "k < L" "(k - F) mod S = 0" by auto
    then have "k = F + (k - F) div S * S" by auto
    moreover have "(k - F) div S \<le> (L - F - 1) div S" using k by (intro div_le_mono) auto
    ultimately show "k \<in> set (map (\<lambda>j. F + j * S) [0..<(L - F - 1) div S + 1])"
      unfolding set_map set_upt image_iff atLeastLessThan_iff Bex_def
      by (metis Suc_eq_plus1 le0 less_Suc_eq_le)
  qed
qed

lemma index_no_wrap:
  assumes "parallel_for_impl first lst step = Inr (Some r)" and "j < unat (my_end r)"
  shows "unat (first + word_of_nat j * step) = unat first + j * unat step"
proof -
  note R = parallel_for_impl_range[OF assms(1)]
  have s: "0 < unat step" using R(1) by (simp add: word_less_nat_alt)
  have "j \<le> (unat lst - unat first - 1) div unat step" using assms(2) R(4) by simp
  then have "j * unat step \<le> unat lst - unat first - 1"
    by (metis s less_eq_div_iff_mult_less_eq)
  moreover have "unat first < unat lst" using R(2) by (simp add: word_less_nat_alt)
  ultimately have l: "unat first + j * unat step < 2 ^ 64"
    using size_t_bound[of lst] by simp
  have "first + word_of_nat j * step = word_of_nat (unat first + j * unat step)" by simp
  then show ?thesis using l by (simp only: unsigned_of_nat) (simp add: take_bit_nat_eq_self)
qed



section \<open>A grain size of zero\<close>

definition zero_grain :: "blocked_range \<Rightarrow> bool" where
  "zero_grain r \<longleftrightarrow> my_grainsize r = 0 \<and> my_begin r \<le> my_end r"

lemma zero_grain_split:
  assumes "zero_grain r" and "range_divisible r" and "split_range r = (a, b)"
  shows "zero_grain a" "zero_grain b" "my_begin b < my_end b"
proof -
  let ?d = "my_end r - my_begin r"
  let ?m = "my_begin r + ?d div 2"
  have d: "unat ?d = unat (my_end r) - unat (my_begin r)" and le: "unat (my_begin r) \<le> unat (my_end r)"
    using assms(1) by (simp_all add: zero_grain_def unat_sub word_le_nat_alt)
  have pos: "0 < unat ?d"
    using assms(1,2) by (simp add: zero_grain_def range_divisible_def range_size_def word_less_nat_alt)
  have h: "unat (?d div 2) = unat ?d div 2" by (simp add: unat_div_distrib)
  have "unat (my_begin r) + unat ?d div 2 < 2 ^ 64" using d le size_t_bound[of "my_end r"] by simp
  then have u: "unat ?m = unat (my_begin r) + unat ?d div 2" using h by (simp add: unat_word_ariths)
  have "my_begin r \<le> ?m" "?m < my_end r"
    unfolding word_le_nat_alt word_less_nat_alt u using d pos le by linarith+
  then show "zero_grain a" "zero_grain b" "my_begin b < my_end b"
    using assms(1,3) by (auto simp: split_range_def do_split_def Let_def zero_grain_def)
qed

lemma zero_grain_task:
  assumes "simple_execute n range_divisible split_range r = Inr evs" and "zero_grain r"
  shows "(\<forall>q \<in> set (bodies evs). range_empty q) \<and> (\<forall>q \<in> set (offers evs). zero_grain (fst q)) \<and>
    (my_begin r < my_end r \<longrightarrow> (\<exists>q \<in> set (offers evs). my_begin (fst q) < my_end (fst q)))"
  using assms
proof (induction n arbitrary: r evs)
  case (Suc n)
  show ?case
  proof (cases "range_divisible r")
    case True
    obtain a b where ab: "split_range r = (a, b)" by fastforce
    note Z = zero_grain_split[OF Suc.prems(2) True ab]
    from Suc.prems(1) True obtain es where es: "simple_execute n range_divisible split_range a = Inr es"
      "evs = Offer b () # es"
      by (auto simp: offer_split_def ab partition_type_base_def bind_r_Inr_iff)
    from Suc.IH[OF es(1) Z(1)] Z es(2) show ?thesis by auto
  next
    case False
    then have "my_end r - my_begin r = 0"
      using Suc.prems(2) by (simp add: range_divisible_def range_size_def zero_grain_def word_gt_0)
    then have "\<not> my_begin r < my_end r" by simp
    with False Suc.prems(1) show ?thesis by (auto simp: range_empty_def)
  qed
qed simp

definition zero_grain_stuck :: "(blocked_range, unit) loop_state \<Rightarrow> bool" where
  "zero_grain_stuck s \<longleftrightarrow> (\<forall>q \<in> set (pending s). zero_grain (fst q)) \<and>
     (\<forall>q \<in> set (finished s). range_empty q) \<and>
     (\<exists>q \<in> set (pending s). my_begin (fst q) < my_end (fst q))"

lemma zero_grain_step:
  assumes "loop_step start_for_simple s s'" and "zero_grain_stuck s"
  shows "zero_grain_stuck s'"
proof -
  from assms(1) obtain env t evs qs rs bs where e: "start_for_simple env t = Inr evs"
    "s = \<lparr>pending = qs @ t # rs, finished = bs\<rparr>"
    "s' = \<lparr>pending = qs @ rs @ offers evs, finished = bs @ bodies evs\<rparr>"
    by (auto elim: loop_stepE)
  have "zero_grain (fst t)" using assms(2) by (simp add: zero_grain_stuck_def e(2))
  from zero_grain_task[OF e(1)[unfolded start_for_simple_def] this] assms(2)
  show ?thesis by (auto simp: zero_grain_stuck_def e(2,3))
qed



section \<open>The pool and the partition object\<close>

text \<open>
  C32. The circular buffer of ranges is a list: filling, reading and popping at either end
  never touch a slot without an object, do what the same operation does on the list, and the
  destructor leaves no object behind.
\<close>

theorem pool_is_list:
  assumes "rv_rel v ps"
  shows "(ps \<noteq> [] \<longrightarrow> (\<exists>v'. split_to_fill dv sp m v = Inr v' \<and> rv_rel v' (fill_list dv sp m ps))) \<and>
    (ps \<noteq> [] \<longrightarrow> rv_back v = Inr (fst (hd ps)) \<and> back_depth v = snd (hd ps) \<and>
       (\<exists>v'. pop_back v = Inr v' \<and> rv_rel v' (tl ps))) \<and>
    (ps \<noteq> [] \<longrightarrow> rv_front v = Inr (fst (last ps)) \<and> front_depth v = snd (last ps) \<and>
       (\<exists>v'. pop_front v = Inr v' \<and> rv_rel v' (butlast ps))) \<and>
    (\<exists>v'. destroy_pool v = Inr v' \<and> (\<forall>j < MaxCapacity. my_pool v' j = None))"
proof -
  have fill: "\<exists>v'. split_to_fill dv sp m v = Inr v' \<and> rv_rel v' (fill_list dv sp m ps)" if "ps \<noteq> []"
    by (rule split_to_fill_rel[OF assms that])
  have rear: "rv_back v = Inr (fst (hd ps)) \<and> back_depth v = snd (hd ps) \<and>
       (\<exists>v'. pop_back v = Inr v' \<and> rv_rel v' (tl ps))" if ne: "ps \<noteq> []"
  proof -
    obtain r d qs where q: "ps = (r, d) # qs" using ne by (cases ps) auto
    from rv_rel_back(1,2)[OF assms[unfolded q]] show ?thesis
      using pop_back_rel[OF assms[unfolded q]] by (auto simp: q)
  qed
  have front: "rv_front v = Inr (fst (last ps)) \<and> front_depth v = snd (last ps) \<and>
       (\<exists>v'. pop_front v = Inr v' \<and> rv_rel v' (butlast ps))" if ne: "ps \<noteq> []"
  proof -
    obtain r d qs where q: "ps = qs @ [(r, d)]" using ne by (cases ps rule: rev_cases) auto
    from rv_rel_front(1,2)[OF assms[unfolded q]] show ?thesis
      using pop_front_rel[OF assms[unfolded q]] by (auto simp: q)
  qed
  have "\<exists>v'. destroy_pool v = Inr v' \<and> (\<forall>j < MaxCapacity. my_pool v' j = None)"
    using destroy_pool_rel[OF assms] rv_rel_no_objects by blast
  with fill rear front show ?thesis by blast
qed

lemma pool_is_list_witness:
  "\<exists>v'. split_to_fill range_divisible split_range 2 (new_range_vector (new_blocked_range 0 4 1)) = Inr v' \<and>
     rv_rel v' [(new_blocked_range 0 1 1, 2), (new_blocked_range 1 2 1, 2), (new_blocked_range 2 4 1, 1)]"
proof -
  have "fill_list range_divisible split_range 2 [(new_blocked_range 0 4 1, 0)] =
      [(new_blocked_range 0 1 1, 2), (new_blocked_range 1 2 1, 2), (new_blocked_range 2 4 1, 1)]"
    by code_simp
  with pool_is_list[OF rv_rel_new[of "new_blocked_range 0 4 1"],
      where dv = range_divisible and sp = split_range and m = 2]
  show ?thesis by simp
qed

lemma Log2_small: "TBB_Log2 1 = 0" "TBB_Log2 2 = 1"
  by code_simp+

lemma half_quotient:
  fixes n :: nat
  assumes "0 < n div 2"
  shows "(n - n div 2) div (n div 2) = 1 \<or> (n - n div 2) div (n div 2) = 2"
proof -
  let ?h = "n div 2"
  consider "n = 2 * ?h" | "n = 2 * ?h + 1" by linarith
  then show ?thesis
  proof cases
    case 1
    then have "n - ?h = ?h" by linarith
    then show ?thesis using assms by simp
  next
    case 2
    then have "n - ?h = ?h + 1" by linarith
    moreover have "(?h + 1) div ?h = 1" if "?h \<noteq> 1"
      using that assms by (intro div_nat_eqI) auto
    ultimately show ?thesis by (cases "?h = 1") auto
  qed
qed

text \<open>
  Splitting a partition object shares its divisor out without loss, the new task gets at
  most half, keeps the depth, and the old one goes at most one level deeper.
\<close>

theorem adaptive_split_shares:
  fixes p :: adaptive_partition
  shows "unat (my_divisor (fst (adaptive_split p))) + unat (my_divisor (snd (adaptive_split p))) =
      unat (my_divisor p) \<and>
    unat (my_divisor (snd (adaptive_split p))) = unat (my_divisor p) div 2 \<and>
    my_max_depth (snd (adaptive_split p)) = my_max_depth p \<and>
    my_max_depth (fst (adaptive_split p)) \<in> {my_max_depth p, my_max_depth p + 1}"
proof (intro conjI)
  let ?n = "my_divisor p" and ?d = "my_divisor p div 2"
  have d: "unat ?d = unat ?n div 2" by (simp add: unat_div_distrib)
  then have "?d \<le> ?n" by (simp add: word_le_nat_alt)
  then have s: "unat (?n - ?d) = unat ?n - unat ?n div 2" using d by (simp add: unat_sub)
  have f: "my_divisor (fst (adaptive_split p)) = ?n - ?d" "my_divisor (snd (adaptive_split p)) = ?d"
    by (simp_all add: adaptive_split_def Let_def)
  show "unat (my_divisor (fst (adaptive_split p))) + unat (my_divisor (snd (adaptive_split p))) =
      unat (my_divisor p)" unfolding f using s d by linarith
  show "unat (my_divisor (snd (adaptive_split p))) = unat (my_divisor p) div 2" unfolding f by (rule d)
  show "my_max_depth (snd (adaptive_split p)) = my_max_depth p"
    by (simp add: adaptive_split_def Let_def)
  have "(?n - ?d) div ?d = 1 \<or> (?n - ?d) div ?d = 2" if "?d \<noteq> 0"
  proof -
    from that have "0 < unat ?n div 2" unfolding d[symmetric] by (simp add: unat_gt_0)
    then have "(unat ?n - unat ?n div 2) div (unat ?n div 2) = 1 \<or>
        (unat ?n - unat ?n div 2) div (unat ?n div 2) = 2" by (rule half_quotient)
    then have "unat ((?n - ?d) div ?d) = unat (1 :: size_t) \<or> unat ((?n - ?d) div ?d) = unat (2 :: size_t)"
      by (simp add: unat_div_distrib s d)
    then show ?thesis by (metis unsigned_word_eqI)
  qed
  then show "my_max_depth (fst (adaptive_split p)) \<in> {my_max_depth p, my_max_depth p + 1}"
    by (auto simp: adaptive_split_def Let_def Log2_small)
qed

text \<open>
  The logarithm that sets the depth is the position of the highest bit: the largest power
  of two that is not above its argument.
\<close>

theorem Log2_highest_bit:
  assumes "x \<noteq> 0"
  shows "0 \<le> TBB_Log2 x \<and> 2 ^ nat (TBB_Log2 x) \<le> unat x \<and> unat x < 2 ^ Suc (nat (TBB_Log2 x))"
  using TBB_Log2_bounds[OF assms] by (metis nat_int of_nat_0_le_iff)

lemma Log2_highest_bit_witness: "2 ^ nat (TBB_Log2 1000) \<le> unat (1000 :: size_t)"
  using Log2_highest_bit[of 1000] by simp

end
