(* ===== verification/Loop_Calls.thy ===== *)
theory Loop_Calls
  imports Loop_Props Demo
begin

text \<open>
  \<open>parallel_for\<close> under the detector: the calls of \<open>tdebug-lib\<close> that the modified
  \<open>parallel_for.h\<close> makes while a loop runs. A task of the loop is a \<open>t_debug_task\<close>: it opens
  and closes its scope, and what it offers is spawned through the wrapper. \<open>acc\<close> gives the
  calls the body of the loop makes on a range.
\<close>

fun event_calls :: "nat \<Rightarrow> ('r \<Rightarrow> call list) \<Rightarrow> ('r, 'p) task_event \<Rightarrow> call list" where
  "event_calls pthd acc (Offer r p) = [Spawn pthd]"
| "event_calls pthd acc (Body r) = acc r"

definition execute_calls ::
    "nat \<Rightarrow> nat \<Rightarrow> ('r \<Rightarrow> call list) \<Rightarrow> ('r, 'p) task_event list \<Rightarrow> call list" where
  "execute_calls pthd k acc evs =
     Begin pthd k # concat (map (event_calls pthd acc) evs) @ [End pthd k]"

definition run_calls :: "nat \<Rightarrow> blocked_range \<Rightarrow> call list \<Rightarrow> call list" where
  "run_calls pthd r tasks = (if range_empty r then [] else SpawnRoot pthd # tasks)"

lemma execute_calls_spawns:
  "(\<And>r. acc r = []) \<Longrightarrow>
     execute_calls p k acc evs = Begin p k # replicate (length (offers evs)) (Spawn p) @ [End p k]"
  by (induction evs rule: offers.induct) (auto simp: execute_calls_def)

section \<open>A loop between a spawn and its wait\<close>

text \<open>
  Task 1 spawns task 2, which writes \<open>x\<close>, then runs a loop of two iterations that touch no
  memory, waits for task 2, and writes \<open>x\<close>. Everything runs on one thread.
\<close>

definition no_access :: "blocked_range \<Rightarrow> call list" where
  "no_access r = []"

definition write_x :: call where
  "write_x = Access 0 64 [] [] WRITE zero_entry"

definition around_loop :: "call list \<Rightarrow> call list" where
  "around_loop loop = [SpawnRoot 0, Begin 0 1, Spawn 0] @ loop @
     [Begin 0 2, write_x, End 0 2, Wait 0, write_x]"

definition loop_of_two :: "call list" where
  "loop_of_two = run_calls 0 sample_range
     (execute_calls 0 3 no_access [Offer (new_blocked_range 1 2 1) (), Body (new_blocked_range 0 1 1)] @
      execute_calls 0 4 no_access [Body (new_blocked_range 1 2 1) :: (blocked_range, unit) task_event])"

definition loop_of_one :: "call list" where
  "loop_of_one = run_calls 0 (new_blocked_range 0 1 1)
     (execute_calls 0 3 no_access [Body (new_blocked_range 0 1 1) :: (blocked_range, unit) task_event])"

lemma loop_of_two_events:
  "start_for_simple sample_env (sample_range, ()) =
     Inr [Offer (new_blocked_range 1 2 1) (), Body (new_blocked_range 0 1 1)]"
  "start_for_simple sample_env (new_blocked_range 1 2 1, ()) = Inr [Body (new_blocked_range 1 2 1)]"
  "start_for_simple sample_env (new_blocked_range 0 1 1, ()) = Inr [Body (new_blocked_range 0 1 1)]"
  by code_simp+

lemma loop_calls:
  "loop_of_two = [SpawnRoot 0, Begin 0 3, Spawn 0, End 0 3, Begin 0 4, End 0 4]"
  "loop_of_one = [SpawnRoot 0, Begin 0 3, End 0 3]"
  by (simp_all add: loop_of_two_def loop_of_one_def run_calls_def execute_calls_def no_access_def
      range_empty_def sample_range_def new_blocked_range_def)

lemma full_masks_meet:
  "disjoint_masks 18446744073709551615 18446744073709551615" "(18446744073709551615 :: mask) \<noteq> 0"
  by (simp_all add: disjoint_masks_def)

lemmas access_evals = RecordAccess_def exceptions_def access_history_def open_page_def
  store_cell_def insert_access_def first_access_def update_entry_def update_slots_def par_flag_def
  or_else_def check_entry_def check_slot_def races_with_def areParallel_def parallel_def walk_up_def
  climb.simps meet.simps report_race_def getCurTask_def zero_cell_def zero_entry_def
  primary_index_def cell_offset_def new_Lockset_data_def createLockset_def full_masks_meet
  new_lock_table_def NUM_FIXED_ENTRIES_def left_is_async_def

lemma three_entries: "replicate 3 x = [x, x, x]"
  by (simp add: numeral_eq_Suc)

lemma empty_table_NA: "checkParallel a b \<lparr>tableSize = n, lcaHashTable = \<lambda>_. None\<rparr> = NA"
  by (simp add: checkParallel_def getHTElement_def)

lemma pair_answer:
  "checkParallel a b (updateEntry b a v l (updateEntry a b v l t)) = (if v then TRUE else FALSE)"
  by (auto simp: checkParallel_def getHTElement_def updateEntry_slot getHTIndex_def)

lemmas loop_evals = around_loop_def loop_calls write_x_def demo_detector_def TD_Activate_def
  run_evals graph_evals access_evals three_entries empty_table_NA pair_answer Let_def


end
