(* ===== verification/Scan_Calls.thy ===== *)
theory Scan_Calls
  imports Loop_Calls
begin

text \<open>
  \<open>parallel_scan\<close> under the detector (\<open>parallel_scan.h\<close>): what one execution of \<open>start_scan\<close>
  decides, and the calls of \<open>tdebug-lib\<close> it makes. A task that divides its range spawns the
  right half through the wrapper of \<open>t_debug_task\<close>, and returns itself, recycled as the left
  half, as the next task of the thread: it is executed again without having been spawned. The
  sums themselves and the second pass (\<open>final_sum\<close>, \<open>sum_node\<close>, \<open>finish_scan\<close>) are not modelled.
\<close>

datatype scan_call = final_scan blocked_range | pre_scan blocked_range

record start_scan =
  sc_range :: blocked_range
  sc_is_final :: bool
  sc_is_right_child :: bool
  sc_has_sum :: bool

definition new_start_scan :: "blocked_range \<Rightarrow> start_scan" where
  "new_start_scan r = \<lparr>sc_range = r, sc_is_final = True, sc_is_right_child = False, sc_has_sum = False\<rparr>"

text \<open>
  \<open>start_scan::execute\<close> between its two calls of the library: the calls of the body, the right
  child that is spawned, and the next task. \<open>moved\<close> is the test that the task was stolen or
  its body is not the left sum of its parent, \<open>should\<close> is \<open>my_partition.should_execute_range\<close>.
\<close>

definition start_scan_execute ::
    "bool \<Rightarrow> bool \<Rightarrow> start_scan \<Rightarrow> scan_call list \<times> start_scan option \<times> start_scan option" where
  "start_scan_execute moved should t =
     (let treat_as_stolen = sc_is_right_child t \<and> moved;
          t1 = (if treat_as_stolen then t\<lparr>sc_is_final := False\<rparr> else t)
      in if sc_is_right_child t1 \<and> \<not> treat_as_stolen \<or> \<not> range_divisible (sc_range t1) \<or> should then
           ((if sc_is_final t1 then [final_scan (sc_range t1)]
             else if sc_has_sum t1 then [pre_scan (sc_range t1)] else []), None, None)
         else
           let (l, r) = split_range (sc_range t1);
               b = t1\<lparr>sc_range := r, sc_is_right_child := True\<rparr>
           in ([], Some b, Some (t1\<lparr>sc_range := l, sc_has_sum := True, sc_is_right_child := False\<rparr>)))"

text \<open>
  The calls of the executions of one task on its thread \<open>p\<close>: it keeps the number \<open>k\<close> it was
  spawned with. The first argument bounds the executions; \<open>should\<close> and \<open>moved\<close> answer for each.
\<close>

fun scan_chain ::
    "nat \<Rightarrow> nat \<Rightarrow> nat \<Rightarrow> (scan_call \<Rightarrow> call list) \<Rightarrow> (start_scan \<Rightarrow> bool \<times> bool) \<Rightarrow> start_scan \<Rightarrow> call list" where
  "scan_chain 0 p k acc ask t = []"
| "scan_chain (Suc n) p k acc ask t =
     (let (moved, should) = ask t; (cs, right, next_task) = start_scan_execute moved should t
      in Begin p k # concat (map acc cs) @ (case right of None \<Rightarrow> [] | Some b \<Rightarrow> [Spawn p]) @ End p k #
         (case next_task of None \<Rightarrow> [] | Some t' \<Rightarrow> scan_chain n p k acc ask t'))"

text \<open>\<open>start_scan::run\<close>, up to the end of what the thread does with the root task.\<close>

definition scan_run_calls ::
    "nat \<Rightarrow> nat \<Rightarrow> nat \<Rightarrow> (scan_call \<Rightarrow> call list) \<Rightarrow> (start_scan \<Rightarrow> bool \<times> bool) \<Rightarrow> blocked_range \<Rightarrow> call list" where
  "scan_run_calls n p k acc ask r =
     (if range_empty r then [] else SpawnRoot p # scan_chain n p k acc ask (new_start_scan r))"

section \<open>A number begins once\<close>

lemma get_cur_tid_same:
  "get_cur_tid p r = Inr (t, r1) \<Longrightarrow> det r1 = det r \<and> task_id_ctr r1 = task_id_ctr r"
  by (auto simp: get_cur_tid_def Let_def bind_r_Inr_iff split: if_splits)

lemma on_graph_temp:
  assumes "on_graph f p r = Inr r'"
    and "\<And>t g'. f t (taskGraph (det r)) = Inr g' \<Longrightarrow> temp_cur_map g' = m"
  shows "temp_cur_map (taskGraph (det r')) = m" "task_id_ctr r' = task_id_ctr r"
  using assms by (auto simp: on_graph_def bind_r_Inr_iff dest!: get_cur_tid_same)

lemma on_detector_temp:
  assumes "on_detector f p r = Inr r'"
    and "\<And>t d d'. f t d = Inr d' \<Longrightarrow> taskGraph d' = taskGraph d"
  shows "taskGraph (det r') = taskGraph (det r)" "task_id_ctr r' = task_id_ctr r"
  using assms by (auto simp: on_detector_def bind_r_Inr_iff dest!: get_cur_tid_same)

lemma thread_slot_inner: "thread_slot t m = Inr x \<Longrightarrow> m = Inr x"
  by (auto simp: thread_slot_def assert_r_Inr_iff)

lemma begin_temp:
  assumes "exec_begin p k r = Inr r'"
  shows "temp_cur_map (taskGraph (det r')) k = None" "task_id_ctr r' = task_id_ctr r"
proof -
  from assms obtain r1 where a: "on_graph (\<lambda>t. CaptureExecute t k) p r = Inr r1"
    and b: "on_detector DR_CaptureExecute p r1 = Inr r'" by (auto simp: exec_begin_def bind_r_Inr_iff)
  have "temp_cur_map g' = map_erase (temp_cur_map (taskGraph (det r))) k"
    if "CaptureExecute t k (taskGraph (det r)) = Inr g'" for t g'
    using that by (auto simp: CaptureExecute_def bind_r_Inr_iff assert_r_Inr_iff Let_def push_cur_def
        dest!: thread_slot_inner)
  note A = on_graph_temp[OF a this]
  have "taskGraph d' = taskGraph d" if "DR_CaptureExecute t d = Inr d'" for t d d'
    using thread_slot_inner[OF that[unfolded DR_CaptureExecute_def]] by auto
  note D = on_detector_temp[OF b this]
  show "temp_cur_map (taskGraph (det r')) k = None" "task_id_ctr r' = task_id_ctr r"
    using A D by auto
qed

lemma end_temp:
  assumes "exec_end p k r = Inr r'"
  shows "temp_cur_map (taskGraph (det r')) = temp_cur_map (taskGraph (det r))"
proof -
  from assms obtain r1 where a: "on_graph CaptureReturn p r = Inr r1"
    and b: "on_detector DR_CaptureReturn p r1 = Inr r'" by (auto simp: exec_end_def bind_r_Inr_iff)
  have "temp_cur_map g' = temp_cur_map (taskGraph (det r))"
    if "CaptureReturn t (taskGraph (det r)) = Inr g'" for t g'
    using that by (auto simp: CaptureReturn_def bind_r_Inr_iff assert_r_Inr_iff Let_def dest!: thread_slot_inner)
  note A = on_graph_temp[OF a this]
  have "taskGraph d' = taskGraph d" if "DR_CaptureReturn t d = Inr d'" for t d d'
    using thread_slot_inner[OF that[unfolded DR_CaptureReturn_def]] by (auto simp: bind_r_Inr_iff)
  note D = on_detector_temp[OF b this]
  show ?thesis using A D by auto
qed

lemma link_child_temp: "link_child ty k p g = Inr (i, g') \<Longrightarrow> temp_cur_map g' = temp_cur_map g"
  by (auto simp: link_child_def create_node_def initialize_task_def upd_node_def Let_def
      bind_r_Inr_iff assert_r_Inr_iff)

lemma add_step_temp: "add_step p g = Inr g' \<Longrightarrow> temp_cur_map g' = temp_cur_map g"
  by (auto simp: add_step_def bind_r_Inr_iff dest: link_child_temp)

lemma spawn_scope_temp: "spawn_scope t k c g = Inr (c', n, g') \<Longrightarrow> temp_cur_map g' = temp_cur_map g"
  by (auto simp: spawn_scope_def bind_r_Inr_iff assert_r_Inr_iff Let_def push_cur_def
      dest!: link_child_temp split: if_splits)

lemma spawn_only_temp:
  assumes "CaptureSpawnOnly t k g = Inr g'"
  shows "\<exists>n. temp_cur_map g' = map_insert (temp_cur_map g) k n"
proof -
  from assms obtain c c' n g1 g2 g3 where "spawn_scope t k c g = Inr (c', n, g1)"
    "add_step n g1 = Inr g2" "add_step c' g2 = Inr g3"
    "g' = g3\<lparr>temp_cur_map := map_insert (temp_cur_map g3) k n\<rparr>"
    by (auto simp: CaptureSpawnOnly_def bind_r_Inr_iff)
  then show ?thesis using spawn_scope_temp add_step_temp by fastforce
qed

lemma spawn_temp:
  assumes "do_call (Spawn p) r = Inr r'" and "k \<noteq> task_id_ctr r + 1"
    and "temp_cur_map (taskGraph (det r)) k = None"
  shows "temp_cur_map (taskGraph (det r')) k = None"
proof -
  let ?r1 = "r\<lparr>task_id_ctr := task_id_ctr r + 1\<rparr>"
  from assms(1) have a: "on_graph (\<lambda>t. CaptureSetTaskId t (task_id_ctr r + 1) 1) p ?r1 = Inr r'"
    by (simp add: set_task_id_def Let_def)
  from a obtain t r2 g where g: "CaptureSpawnOnly t (task_id_ctr r + 1) (taskGraph (det r2)) = Inr g"
    "get_cur_tid p ?r1 = Inr (t, r2)" "taskGraph (det r') = g"
    by (auto simp: on_graph_def bind_r_Inr_iff CaptureSetTaskId_def)
  with spawn_only_temp[OF g(1)] get_cur_tid_same[OF g(2)] assms(2,3) show ?thesis by auto
qed

lemma spawn_root_ctr:
  assumes "do_call (SpawnRoot p) r = Inr r'"
  shows "task_id_ctr r' = task_id_ctr r + 1"
proof -
  let ?r1 = "r\<lparr>task_id_ctr := task_id_ctr r + 1\<rparr>"
  from assms have "on_graph (\<lambda>t. CaptureSetTaskId t (task_id_ctr r + 1) 0) p ?r1 = Inr r'"
    by (simp add: set_task_id_def Let_def)
  then show ?thesis by (auto simp: on_graph_def bind_r_Inr_iff dest!: get_cur_tid_same)
qed

lemma number_begins_once:
  assumes "run [SpawnRoot p, Begin p (task_id_ctr s + 1), Spawn p, End p (task_id_ctr s + 1)] s = Inr s'"
  shows "do_call (Begin p (task_id_ctr s + 1)) s' = Inl KeyMissing"
proof -
  let ?k = "task_id_ctr s + 1"
  from assms obtain s1 s2 s3 where s: "do_call (SpawnRoot p) s = Inr s1" "do_call (Begin p ?k) s1 = Inr s2"
    "do_call (Spawn p) s2 = Inr s3" "do_call (End p ?k) s3 = Inr s'"
    by (auto simp: bind_r_Inr_iff simp del: do_call.simps)
  note B = begin_temp[OF s(2)[unfolded do_call.simps]]
  have "temp_cur_map (taskGraph (det s3)) ?k = None"
    by (rule spawn_temp[OF s(3) _ B(1)]) (simp add: B(2) spawn_root_ctr[OF s(1)])
  then have "temp_cur_map (taskGraph (det s')) ?k = None"
    by (simp add: end_temp[OF s(4)[unfolded do_call.simps]])
  then show ?thesis by (rule begin_unannounced)
qed

text \<open>
  C36. A \<open>parallel_scan\<close> that divides its range does not return under the detector: whatever
  the state, the second execution of the root task, which was not spawned again, begins a
  number that is no longer waiting, and \<open>std::map::at\<close> throws, unless a call before it faults.
\<close>

theorem parallel_scan_aborts:
  assumes "\<not> range_empty r" and "range_divisible r" and "\<not> snd (ask (new_start_scan r))" and "2 \<le> n"
  shows "\<exists>e. run (scan_run_calls n p (task_id_ctr s + 1) acc ask r) s = Inl e \<and>
    ((\<exists>s'. run [SpawnRoot p, Begin p (task_id_ctr s + 1), Spawn p, End p (task_id_ctr s + 1)] s = Inr s') \<longrightarrow>
      e = KeyMissing)"
proof -
  let ?k = "task_id_ctr s + 1"
  let ?first = "[SpawnRoot p, Begin p ?k, Spawn p, End p ?k]"
  obtain m where n: "n = Suc (Suc m)" using assms(4) by (metis add_2_eq_Suc le_Suc_ex)
  obtain moved where ask: "ask (new_start_scan r) = (moved, False)"
    using assms(3) by (cases "ask (new_start_scan r)") auto
  obtain rest where c: "scan_run_calls n p ?k acc ask r = ?first @ Begin p ?k # rest"
    using assms(1,2) ask
    by (auto simp: n scan_run_calls_def start_scan_execute_def new_start_scan_def Let_def case_prod_unfold)
  show ?thesis
  proof (cases "run ?first s")
    case (Inl e)
    then show ?thesis unfolding c run_append by simp
  next
    case (Inr s')
    with number_begins_once[OF Inr] show ?thesis unfolding c run_append by simp
  qed
qed

lemma parallel_scan_aborts_witness:
  "run (scan_run_calls 2 0 1 (\<lambda>_. []) (\<lambda>_. (False, False)) sample_range) (start demo_detector) = Inl KeyMissing"
proof -
  have r: "\<not> range_empty sample_range" "range_divisible sample_range"
    by (simp_all add: sample_range_def new_blocked_range_def range_empty_def range_divisible_def range_size_def)
  have k: "task_id_ctr (start demo_detector) + 1 = 1" by (simp add: start_def)
  have "\<exists>s'. run [SpawnRoot 0, Begin 0 1, Spawn 0, End 0 1] (start demo_detector) = Inr s'"
    by (simp add: loop_evals del: One_nat_def)
  with parallel_scan_aborts[OF r, of "\<lambda>_. (False, False)" 2 0 "start demo_detector" "\<lambda>_. []", unfolded k]
  show ?thesis by auto
qed

end
