(* ===== verification/Reduce_Tasks.thy ===== *)
theory Reduce_Tasks
  imports Parallel_For
begin

text \<open>
  \<open>parallel_reduce\<close> of the modified TBB (\<open>parallel_reduce.h\<close>): the tasks \<open>start_reduce\<close> and
  \<open>finish_reduce\<close>, the bodies they accumulate into, and every interleaving of their steps. A
  task that gives part of its range away puts a \<open>finish_reduce\<close> above itself; the new task is
  its right child. When it starts, the right child goes on with the body of the left one if
  that has finished, and makes a body of its own (the \<open>right zombie\<close>) otherwise; the
  \<open>finish_reduce\<close> joins the two.
\<close>

section \<open>Tasks and bodies\<close>

datatype reduction_context = root_task | left_child | right_child

text \<open>A body is the one given by the caller or lies in the \<open>zombie_space\<close> of a finish task.\<close>

datatype body_ref = Given | Zombie nat

record finish_reduce =
  address :: nat
  has_right_zombie :: bool
  my_context :: reduction_context
  my_body :: "body_ref option"

record ('r, 'p) start_reduce =
  sr_body :: body_ref
  sr_range :: 'r
  sr_partition :: 'p
  sr_context :: reduction_context

text \<open>The operations of the class \<open>Body\<close>: the call, the splitting constructor, \<open>join\<close>.\<close>

record ('r, 'b) reduce_body =
  call_body :: "'r \<Rightarrow> 'b \<Rightarrow> 'b"
  split_body :: "'b \<Rightarrow> 'b"
  join_body :: "'b \<Rightarrow> 'b \<Rightarrow> 'b"

record 'b reduce_store =
  body_at :: "body_ref \<Rightarrow> 'b option"
  next_address :: nat

text \<open>
  The tasks that are left, by their parents: spawned and not started, inside \<open>execute\<close> with the
  callbacks the partitioner is still to make, returned, and a finish task with its two children.
\<close>

datatype ('r, 'p) reduce_task =
    Waiting "('r, 'p) start_reduce"
  | Running "('r, 'p) start_reduce" "('r, 'p) task_event list"
  | Returned
  | Finish finish_reduce "('r, 'p) reduce_task" "('r, 'p) reduce_task"

definition get_body :: "body_ref \<Rightarrow> 'b reduce_store \<Rightarrow> 'b result" where
  "get_body b st = (case body_at st b of None \<Rightarrow> Inl DeadObject | Some x \<Rightarrow> Inr x)"

definition set_body :: "body_ref \<Rightarrow> 'b option \<Rightarrow> 'b reduce_store \<Rightarrow> 'b reduce_store" where
  "set_body b x st = st\<lparr>body_at := (body_at st)(b := x)\<rparr>"

section \<open>What a task does\<close>

text \<open>
  The constructor of \<open>finish_reduce\<close>, and \<open>offer_work\<close>: the finish task takes the place of the
  task that offers, which becomes its left child; the constructor of the right child copies the
  pointer to the body. Its range and partition object are those of the callback (\<open>offer_split\<close>,
  \<open>offer_range\<close>).
\<close>

definition new_finish_reduce :: "nat \<Rightarrow> reduction_context \<Rightarrow> finish_reduce" where
  "new_finish_reduce a ctx =
     \<lparr>address = a, has_right_zombie = False, my_context = ctx, my_body = None\<rparr>"

definition new_right_child :: "('r, 'p) start_reduce \<Rightarrow> 'r \<Rightarrow> 'p \<Rightarrow> ('r, 'p) start_reduce" where
  "new_right_child par r p =
     \<lparr>sr_body = sr_body par, sr_range = r, sr_partition = p, sr_context = right_child\<rparr>"

definition reduce_offer_work ::
    "'r \<Rightarrow> 'p \<Rightarrow> ('r, 'p) start_reduce \<Rightarrow> ('r, 'p) task_event list \<Rightarrow> 'b reduce_store
       \<Rightarrow> ('r, 'p) reduce_task \<times> 'b reduce_store" where
  "reduce_offer_work r p t evs st =
     (let tasks0 = new_finish_reduce (next_address st) (sr_context t);
          tasks1 = new_right_child t r p
      in (Finish tasks0 (Running (t\<lparr>sr_context := left_child\<rparr>) evs) (Waiting tasks1),
          st\<lparr>next_address := next_address st + 1\<rparr>))"

definition reduce_run_body ::
    "('r, 'b) reduce_body \<Rightarrow> 'r \<Rightarrow> ('r, 'p) start_reduce \<Rightarrow> 'b reduce_store \<Rightarrow> 'b reduce_store result" where
  "reduce_run_body B r t st =
     bind_r (get_body (sr_body t) st) (\<lambda>b. Inr (set_body (sr_body t) (Some (call_body B r b)) st))"

text \<open>
  \<open>start_reduce::execute\<close> before \<open>my_partition.execute\<close>, with the finish task above it (if it
  is not the root), and after.
\<close>

definition choose_body ::
    "('r, 'b) reduce_body \<Rightarrow> finish_reduce option \<Rightarrow> ('r, 'p) start_reduce \<Rightarrow> 'b reduce_store
       \<Rightarrow> (finish_reduce option \<times> ('r, 'p) start_reduce \<times> 'b reduce_store) result" where
  "choose_body B par t st =
     (if sr_context t = right_child then
        bind_r (deref_r par) (\<lambda>parent_ptr.
          if my_body parent_ptr = None then
            bind_r (get_body (sr_body t) st) (\<lambda>b.
              Inr (Some (parent_ptr\<lparr>has_right_zombie := True\<rparr>),
                   t\<lparr>sr_body := Zombie (address parent_ptr)\<rparr>,
                   set_body (Zombie (address parent_ptr)) (Some (split_body B b)) st))
          else Inr (par, t, st))
      else assert_r (sr_context t = root_task) AssertFail (Inr (par, t, st)))"

definition start_reduce_begin ::
    "('r, 'b) reduce_body \<Rightarrow> (sched_env \<Rightarrow> 'r \<times> 'p \<Rightarrow> ('r, 'p) task_event list result) \<Rightarrow> sched_env
       \<Rightarrow> finish_reduce option \<Rightarrow> ('r, 'p) start_reduce \<Rightarrow> 'b reduce_store
       \<Rightarrow> (finish_reduce option \<times> ('r, 'p) reduce_task \<times> 'b reduce_store) result" where
  "start_reduce_begin B ex env par t st =
     bind_r (choose_body B par t st) (\<lambda>(par', t', st').
     bind_r (ex env (sr_range t', sr_partition t')) (\<lambda>evs. Inr (par', Running t' evs, st')))"

definition start_reduce_end ::
    "finish_reduce option \<Rightarrow> ('r, 'p) start_reduce \<Rightarrow> finish_reduce option result" where
  "start_reduce_end par t =
     (if sr_context t = left_child then
        bind_r (deref_r par) (\<lambda>parent_ptr.
          assert_r (sr_body t \<noteq> Zombie (address parent_ptr)) AssertFail
            (Inr (Some (parent_ptr\<lparr>my_body := Some (sr_body t)\<rparr>))))
      else Inr par)"

text \<open>\<open>finish_reduce::execute\<close>, then its destructor.\<close>

definition finish_reduce_execute ::
    "('r, 'b) reduce_body \<Rightarrow> finish_reduce option \<Rightarrow> finish_reduce \<Rightarrow> 'b reduce_store
       \<Rightarrow> (finish_reduce option \<times> 'b reduce_store) result" where
  "finish_reduce_execute B par f st =
     bind_r (if has_right_zombie f then
               bind_r (deref_r (my_body f)) (\<lambda>m.
               bind_r (get_body m st) (\<lambda>b.
               bind_r (get_body (Zombie (address f)) st) (\<lambda>s.
                 Inr (set_body m (Some (join_body B b s)) st))))
             else Inr st) (\<lambda>st1.
     bind_r (if my_context f = left_child
             then bind_r (deref_r par) (\<lambda>p. Inr (Some (p\<lparr>my_body := my_body f\<rparr>)))
             else Inr par) (\<lambda>par'.
       Inr (par', if has_right_zombie f then set_body (Zombie (address f)) None st1 else st1)))"

section \<open>Interleavings\<close>

text \<open>
  The next action of a task, with the finish task above it, \<open>None\<close> when it has none of its own:
  a finish task only runs when both its children have returned.
\<close>

fun task_action ::
    "('r, 'b) reduce_body \<Rightarrow> (sched_env \<Rightarrow> 'r \<times> 'p \<Rightarrow> ('r, 'p) task_event list result) \<Rightarrow> sched_env
       \<Rightarrow> finish_reduce option \<Rightarrow> ('r, 'p) reduce_task \<Rightarrow> 'b reduce_store
       \<Rightarrow> (finish_reduce option \<times> ('r, 'p) reduce_task \<times> 'b reduce_store) result option" where
  "task_action B ex env par (Waiting t) st = Some (start_reduce_begin B ex env par t st)"
| "task_action B ex env par (Running t (Body r # evs)) st =
     Some (bind_r (reduce_run_body B r t st) (\<lambda>st'. Inr (par, Running t evs, st')))"
| "task_action B ex env par (Running t (Offer r p # evs)) st =
     Some (let (t', st') = reduce_offer_work r p t evs st in Inr (par, t', st'))"
| "task_action B ex env par (Running t []) st =
     Some (bind_r (start_reduce_end par t) (\<lambda>par'. Inr (par', Returned, st)))"
| "task_action B ex env par (Finish f Returned Returned) st =
     Some (bind_r (finish_reduce_execute B par f st) (\<lambda>(par', st'). Inr (par', Returned, st')))"
| "task_action B ex env par _ st = None"

text \<open>A step of a child updates the finish task above it, which stays where it is.\<close>

definition in_left ::
    "finish_reduce option \<Rightarrow> ('r, 'p) reduce_task
       \<Rightarrow> (finish_reduce option \<times> ('r, 'p) reduce_task \<times> 'b reduce_store) result
       \<Rightarrow> (finish_reduce option \<times> ('r, 'p) reduce_task \<times> 'b reduce_store) result" where
  "in_left par r res = bind_r res (\<lambda>(f, l', st'). bind_r (deref_r f) (\<lambda>f'. Inr (par, Finish f' l' r, st')))"

definition in_right ::
    "finish_reduce option \<Rightarrow> ('r, 'p) reduce_task
       \<Rightarrow> (finish_reduce option \<times> ('r, 'p) reduce_task \<times> 'b reduce_store) result
       \<Rightarrow> (finish_reduce option \<times> ('r, 'p) reduce_task \<times> 'b reduce_store) result" where
  "in_right par l res = bind_r res (\<lambda>(f, r', st'). bind_r (deref_r f) (\<lambda>f'. Inr (par, Finish f' l r', st')))"

inductive task_step ::
    "('r, 'b) reduce_body \<Rightarrow> (sched_env \<Rightarrow> 'r \<times> 'p \<Rightarrow> ('r, 'p) task_event list result)
       \<Rightarrow> finish_reduce option \<Rightarrow> ('r, 'p) reduce_task \<Rightarrow> 'b reduce_store
       \<Rightarrow> (finish_reduce option \<times> ('r, 'p) reduce_task \<times> 'b reduce_store) result \<Rightarrow> bool"
  for B ex where
  self: "no_cancel env \<Longrightarrow> task_action B ex env par t st = Some res \<Longrightarrow> task_step B ex par t st res"
| left: "task_step B ex (Some f) l st res \<Longrightarrow> task_step B ex par (Finish f l r) st (in_left par r res)"
| right: "task_step B ex (Some f) r st res \<Longrightarrow> task_step B ex par (Finish f l r) st (in_right par l res)"

inductive_cases step_WaitingE: "task_step B ex par (Waiting t) st res"

record ('r, 'p, 'b) reduce_state =
  tasks :: "('r, 'p) reduce_task"
  store :: "'b reduce_store"

inductive reduce_step ::
    "('r, 'b) reduce_body \<Rightarrow> (sched_env \<Rightarrow> 'r \<times> 'p \<Rightarrow> ('r, 'p) task_event list result)
       \<Rightarrow> ('r, 'p, 'b) reduce_state \<Rightarrow> ('r, 'p, 'b) reduce_state result \<Rightarrow> bool"
  for B ex where
  "task_step B ex None (tasks s) (store s) res \<Longrightarrow>
     reduce_step B ex s (bind_r res (\<lambda>(_, t', st'). Inr \<lparr>tasks = t', store = st'\<rparr>))"

inductive_cases reduce_stepE: "reduce_step B ex s res"

text \<open>\<open>start_reduce::run\<close>: no task at all for an empty range.\<close>

definition reduce_start :: "bool \<Rightarrow> 'r \<Rightarrow> 'p \<Rightarrow> 'b \<Rightarrow> ('r, 'p, 'b) reduce_state" where
  "reduce_start e r p b =
     \<lparr>tasks = (if e then Returned
        else Waiting \<lparr>sr_body = Given, sr_range = r, sr_partition = p, sr_context = root_task\<rparr>),
      store = \<lparr>body_at = [Given \<mapsto> b], next_address = 0\<rparr>\<rparr>"

section \<open>What the tasks still have to do\<close>

text \<open>The iterations of the callbacks to come: the offers take theirs from the back.\<close>

definition left_items :: "('r \<Rightarrow> 'i list) \<Rightarrow> ('r, 'p) task_event list \<Rightarrow> 'i list" where
  "left_items items evs =
     concat (map items (bodies evs)) @ concat (map (items \<circ> fst) (rev (offers evs)))"

lemma left_items_simps [simp]:
  "left_items items [] = []"
  "left_items items (Body r # evs) = items r @ left_items items evs"
  "left_items items (Offer r p # evs) = left_items items evs @ items r"
  by (simp_all add: left_items_def)

fun addresses :: "('r, 'p) reduce_task \<Rightarrow> nat set" where
  "addresses (Finish f l r) = insert (address f) (addresses l \<union> addresses r)"
| "addresses _ = {}"

fun waiting :: "('r, 'p) reduce_task \<Rightarrow> bool" where
  "waiting (Waiting t) = True"
| "waiting _ = False"

text \<open>The bodies that tasks inside \<open>execute\<close> work on.\<close>

fun bodies_in_use :: "('r, 'p) reduce_task \<Rightarrow> body_ref list" where
  "bodies_in_use (Running t evs) = [sr_body t]"
| "bodies_in_use (Finish f l r) = bodies_in_use l @ bodies_in_use r"
| "bodies_in_use _ = []"

definition own :: "body_ref \<Rightarrow> ('r, 'p) reduce_task \<Rightarrow> body_ref set" where
  "own b t = insert b (Zombie ` addresses t)"

end
