(* ===== verification/Reduce_Order.thy ===== *)
theory Reduce_Order
  imports Reduce_Tasks
begin

text \<open>
  Why \<open>parallel_reduce\<close> gives the result of the sequential loop: the contract of a body
  (\<open>reduction\<close>), the invariant of the tasks (\<open>tree_ok\<close>: which task works on which body, and
  which zombies are alive) and the value a body will have when a part of the tasks is through
  (\<open>outcome\<close>), which no step changes.
\<close>

locale reduction = loop_task dv sp items ok ex
  for dv :: "'r \<Rightarrow> bool" and sp :: "'r \<Rightarrow> 'r \<times> 'r" and items :: "'r \<Rightarrow> 'i list"
    and ok :: "'r \<Rightarrow> bool" and ex :: "sched_env \<Rightarrow> 'r \<times> 'p \<Rightarrow> ('r, 'p) task_event list result" +
  fixes B :: "('r, 'b) reduce_body" and app :: "'i list \<Rightarrow> 'b \<Rightarrow> 'b"
  assumes call_app: "ok r \<Longrightarrow> call_body B r b = app (items r) b"
    and app_append: "app (xs @ ys) b = app ys (app xs b)"
    and app_nil: "app [] b = b"
    and join_app: "join_body B b (app xs (split_body B c)) = app xs b"
begin

definition evs_ok :: "('r, 'p) task_event list \<Rightarrow> bool" where
  "evs_ok evs \<longleftrightarrow> (\<forall>r \<in> set (bodies evs). ok r) \<and> (\<forall>q \<in> set (offers evs). ok (fst q))"

lemma evs_ok_simps [simp]:
  "evs_ok []" "evs_ok (Body r # evs) \<longleftrightarrow> ok r \<and> evs_ok evs"
  "evs_ok (Offer r p # evs) \<longleftrightarrow> ok r \<and> evs_ok evs"
  by (auto simp: evs_ok_def)

fun tree_ok ::
    "(body_ref \<Rightarrow> 'b option) \<Rightarrow> reduction_context \<Rightarrow> body_ref \<Rightarrow> ('r, 'p) reduce_task \<Rightarrow> bool" where
  "tree_ok h c b (Waiting t) \<longleftrightarrow> c \<noteq> left_child \<and> sr_context t = c \<and> sr_body t = b \<and> ok (sr_range t)"
| "tree_ok h c b (Running t evs) \<longleftrightarrow> sr_context t = c \<and> sr_body t = b \<and> evs_ok evs"
| "tree_ok h c b Returned \<longleftrightarrow> True"
| "tree_ok h c b (Finish f l r) \<longleftrightarrow>
     my_context f = c \<and> my_body f = (if l = Returned then Some b else None) \<and>
     address f \<notin> addresses l \<union> addresses r \<and> addresses l \<inter> addresses r = {} \<and>
     b \<notin> Zombie ` addresses (Finish f l r) \<and> tree_ok h left_child b l \<and>
     (if has_right_zombie f
      then h (Zombie (address f)) \<noteq> None \<and> \<not> waiting r \<and>
        tree_ok h right_child (Zombie (address f)) r
      else h (Zombie (address f)) = None \<and> tree_ok h right_child b r \<and> (waiting r \<or> l = Returned))"

fun outcome :: "(body_ref \<Rightarrow> 'b option) \<Rightarrow> body_ref \<Rightarrow> ('r, 'p) reduce_task \<Rightarrow> 'b" where
  "outcome h b (Waiting t) = app (items (sr_range t)) (the (h b))"
| "outcome h b (Running t evs) = app (left_items items evs) (the (h b))"
| "outcome h b Returned = the (h b)"
| "outcome h b (Finish f l r) =
     (if has_right_zombie f
      then join_body B (outcome h b l) (outcome h (Zombie (address f)) r)
      else case r of Waiting t \<Rightarrow> app (items (sr_range t)) (outcome h b l) | _ \<Rightarrow> outcome h b r)"

lemma addresses_fin [simp]: "own b (Finish f l r) = insert (Zombie (address f)) (own b l \<union> own b r)"
  by (auto simp: own_def)

lemma tree_ok_cong:
  "(\<forall>x \<in> Zombie ` addresses t. h' x = h x) \<Longrightarrow> tree_ok h' c b t = tree_ok h c b t"
proof (induction t arbitrary: c b)
  case (Finish f l r)
  then have "tree_ok h' left_child b l = tree_ok h left_child b l"
    "\<And>b. tree_ok h' right_child b r = tree_ok h right_child b r"
    "h' (Zombie (address f)) = h (Zombie (address f))" by auto
  then show ?case by simp
qed simp_all

lemma outcome_cong:
  "(\<forall>x \<in> own b t. h' x = h x) \<Longrightarrow> outcome h' b t = outcome h b t"
proof (induction t arbitrary: b)
  case (Finish f l r)
  then have "\<forall>x \<in> own b l. h' x = h x" "\<forall>x \<in> own b r. h' x = h x"
    "\<forall>x \<in> own (Zombie (address f)) r. h' x = h x" by (auto simp: own_def)
  from Finish.IH(1)[OF this(1)] Finish.IH(2)[OF this(2)] Finish.IH(2)[OF this(3)] this(1)
  show ?case by (cases r) simp_all
qed (auto simp: own_def)

lemma not_waiting_left: "tree_ok h left_child b t \<Longrightarrow> \<not> waiting t"
  by (cases t) auto

text \<open>A bound on the steps that are left: two per task and finish task, one per callback.\<close>

fun weight :: "('r, 'p) reduce_task \<Rightarrow> nat" where
  "weight (Waiting t) = 5 * length (items (sr_range t)) - 2"
| "weight (Running t evs) =
     1 + length (bodies evs) + 5 * length (concat (map (items \<circ> fst) (offers evs)))"
| "weight Returned = 0"
| "weight (Finish f l r) = 1 + weight l + weight r"

lemma length_ok: "\<forall>r \<in> set qs. ok r \<Longrightarrow> length qs \<le> length (concat (map items qs))"
proof (induction qs)
  case (Cons q qs)
  then have "items q \<noteq> []" using items_ne by simp
  then obtain i js where "items q = i # js" by (cases "items q") auto
  with Cons show ?case by simp
qed simp

text \<open>The callbacks of a task that starts.\<close>

lemma ex_events:
  assumes "ok r" and "no_cancel env"
  obtains evs where "ex env (r, p) = Inr evs" and "left_items items evs = items r" and "evs_ok evs"
    and "1 + length (bodies evs) + 5 * length (concat (map (items \<circ> fst) (offers evs))) < 5 * length (items r) - 2"
proof -
  obtain evs where e: "ex env (r, p) = Inr evs" "covers items ok (items r) evs []" "bodies evs \<noteq> []"
    using ex_covers[OF assms, of p] by blast
  from e(2) have i: "items r = left_items items evs" and o: "evs_ok evs"
    by (simp_all add: covers_def left_items_def evs_ok_def)
  have "mset (items r) = mset (concat (map items (bodies evs))) + mset (concat (map (items \<circ> fst) (offers evs)))"
    unfolding i left_items_def by (simp only: mset_append mset_concat_rev)
  then have "length (items r) = length (concat (map items (bodies evs))) +
      length (concat (map (items \<circ> fst) (offers evs)))"
    by (metis size_mset size_union)
  moreover have "length (bodies evs) \<le> length (concat (map items (bodies evs)))"
    using o by (intro length_ok) (simp add: evs_ok_def)
  moreover have "0 < length (bodies evs)" using e(3) by simp
  ultimately have "1 + length (bodies evs) + 5 * length (concat (map (items \<circ> fst) (offers evs)))
      < 5 * length (items r) - 2" by linarith
  then show ?thesis using that[OF e(1) i[symmetric] o] by blast
qed

text \<open>
  What a step of the tasks \<open>t\<close> that work on the body \<open>b\<close> keeps: it changes no body but \<open>b\<close>
  and those of its own finish tasks, and leaves none behind of a finish task it ends.
\<close>

definition ready :: "reduction_context \<Rightarrow> body_ref \<Rightarrow> ('r, 'p) reduce_task \<Rightarrow> 'b reduce_store \<Rightarrow> bool" where
  "ready c b t st \<longleftrightarrow> tree_ok (body_at st) c b t \<and> body_at st b \<noteq> None \<and> b \<notin> Zombie ` addresses t \<and>
     (\<forall>i \<in> addresses t. i < next_address st) \<and>
     (\<forall>i \<ge> next_address st. body_at st (Zombie i) = None)"

definition fresh :: "'b reduce_store \<Rightarrow> 'b reduce_store \<Rightarrow> nat set" where
  "fresh st st' = {next_address st..<next_address st'}"

definition kept ::
    "reduction_context \<Rightarrow> body_ref \<Rightarrow> ('r, 'p) reduce_task \<Rightarrow> 'b reduce_store
       \<Rightarrow> ('r, 'p) reduce_task \<Rightarrow> 'b reduce_store \<Rightarrow> bool" where
  "kept c b t st t' st' \<longleftrightarrow> ready c b t' st' \<and> \<not> waiting t' \<and>
     outcome (body_at st') b t' = outcome (body_at st) b t \<and>
     next_address st \<le> next_address st' \<and> addresses t' \<subseteq> addresses t \<union> fresh st st' \<and>
     (\<forall>x. x \<notin> own b t \<longrightarrow> body_at st' x = body_at st x) \<and>
     (\<forall>i \<in> addresses t. i \<notin> addresses t' \<longrightarrow> body_at st' (Zombie i) = None)"

lemma ready_not_next: "ready c b t st \<Longrightarrow> next_address st \<le> i \<Longrightarrow> b \<noteq> Zombie i"
  by (auto simp: ready_def)

lemma body_kept:
  assumes "ready c b (Running t (Body r # evs)) st"
  shows "\<exists>st'. reduce_run_body B r t st = Inr st' \<and>
    kept c b (Running t (Body r # evs)) st (Running t evs) st'"
proof -
  from assms have "sr_body t = b" "ok r" "body_at st b \<noteq> None" by (auto simp: ready_def)
  moreover from this ready_not_next[OF assms] have "\<forall>i \<ge> next_address st. Zombie i \<noteq> sr_body t" by metis
  ultimately show ?thesis using assms
    by (auto simp: reduce_run_body_def get_body_def set_body_def kept_def ready_def fresh_def own_def
        call_app app_append)
qed

lemma offer_kept:
  assumes "ready c b (Running t (Offer r p # evs)) st"
  shows "\<exists>t' st'. reduce_offer_work r p t evs st = (t', st') \<and> kept c b (Running t (Offer r p # evs)) st t' st'"
  using assms ready_not_next[OF assms, of "next_address st"]
  by (auto simp: reduce_offer_work_def new_right_child_def new_finish_reduce_def kept_def ready_def fresh_def own_def Let_def
      app_append)

lemma choose_root:
  assumes "ready c b (Waiting t) st" and "c = root_task \<or> c = right_child \<and> my_body f \<noteq> None \<and> par = Some f"
  shows "choose_body B par t st = Inr (par, t, st)"
  using assms by (auto simp: ready_def choose_body_def)

lemma begin_kept:
  assumes "ready c b (Waiting t) st" and "no_cancel env" and "choose_body B par t st = Inr (par, t, st)"
  shows "\<exists>t'. start_reduce_begin B ex env par t st = Inr (par, t', st) \<and> weight t' < weight (Waiting t) \<and>
    kept c b (Waiting t) st t' st \<and> t' \<noteq> Returned"
proof -
  from assms(1) have "ok (sr_range t)" by (simp add: ready_def)
  from ex_events[OF this assms(2), of "sr_partition t"] obtain evs where
    "ex env (sr_range t, sr_partition t) = Inr evs" "left_items items evs = items (sr_range t)" "evs_ok evs"
    "1 + length (bodies evs) + 5 * length (concat (map (items \<circ> fst) (offers evs))) < 5 * length (items (sr_range t)) - 2" .
  with assms show ?thesis
    by (auto simp: start_reduce_begin_def kept_def ready_def fresh_def own_def)
qed

lemma finish_kept:
  assumes "ready c b (Finish f Returned Returned) st"
    and "c = left_child \<Longrightarrow> par = Some g"
  shows "\<exists>st'. finish_reduce_execute B par f st =
      Inr (if c = left_child then Some (g\<lparr>my_body := Some b\<rparr>) else par, st') \<and>
    kept c b (Finish f Returned Returned) st Returned st'"
  using assms
  by (auto simp: finish_reduce_execute_def get_body_def set_body_def kept_def ready_def fresh_def own_def)

text \<open>A step inside a child is a step of the whole, when the other child is not touched by it.\<close>

lemma ready_Finish:
  assumes "ready c b (Finish f l r) st"
  shows "ready left_child b l st"
    and "has_right_zombie f \<Longrightarrow> ready right_child (Zombie (address f)) r st \<and> \<not> waiting r"
    and "\<not> has_right_zombie f \<Longrightarrow> ready right_child b r st \<and> (waiting r \<or> l = Returned)"
    and "b \<noteq> Zombie (address f)" and "address f < next_address st"
    and "\<And>i. i \<in> addresses l \<Longrightarrow> i < next_address st \<and> i \<noteq> address f \<and> i \<notin> addresses r \<and> b \<noteq> Zombie i"
    and "\<And>i. i \<in> addresses r \<Longrightarrow> i < next_address st \<and> i \<noteq> address f \<and> i \<notin> addresses l \<and> b \<noteq> Zombie i"
  using assms by (auto simp: ready_def)

lemma ready_FinishI:
  assumes "tree_ok (body_at st) c b (Finish f l r)" and "body_at st b \<noteq> None"
    and "address f < next_address st"
    and "\<And>i. i \<in> addresses l \<Longrightarrow> i < next_address st" and "\<And>i. i \<in> addresses r \<Longrightarrow> i < next_address st"
    and "\<And>i. next_address st \<le> i \<Longrightarrow> body_at st (Zombie i) = None"
  shows "ready c b (Finish f l r) st"
  using assms by (auto simp: ready_def)

lemma ready_facts:
  assumes "ready c b t st"
  shows "tree_ok (body_at st) c b t" and "body_at st b \<noteq> None"
    and "\<And>i. i \<in> addresses t \<Longrightarrow> i < next_address st \<and> b \<noteq> Zombie i"
    and "\<And>i. next_address st \<le> i \<Longrightarrow> body_at st (Zombie i) = None"
  using assms by (auto simp: ready_def)

lemma left_kept:
  assumes r: "ready c b (Finish f l r) st" and k: "kept left_child b l st l' st'"
    and f: "f' = (if l' = Returned then f\<lparr>my_body := Some b\<rparr> else f)" and l: "l \<noteq> Returned"
  shows "kept c b (Finish f l r) st (Finish f' l' r) st'"
proof -
  note R = ready_Finish[OF r]
  have K: "ready left_child b l' st'" "outcome (body_at st') b l' = outcome (body_at st) b l"
    "next_address st \<le> next_address st'" "addresses l' \<subseteq> addresses l \<union> fresh st st'"
    "\<And>x. x \<notin> own b l \<Longrightarrow> body_at st' x = body_at st x"
    "\<And>i. i \<in> addresses l \<Longrightarrow> i \<notin> addresses l' \<Longrightarrow> body_at st' (Zombie i) = None"
    using k by (auto simp: kept_def)
  have new: "i \<noteq> address f \<and> i \<notin> addresses r" if "i \<in> addresses l'" for i
    using K(4) R(5) R(6)[of i] R(7)[of i] that by (auto simp: fresh_def)
  have same: "body_at st' x = body_at st x" if "x \<in> own (Zombie (address f)) r" for x
  proof (rule K(5))
    show "x \<notin> own b l" using that R(4,5) by (auto simp: own_def fresh_def dest: R(6) R(7))
  qed
  have sr: "tree_ok (body_at st') right_child b' r = tree_ok (body_at st) right_child b' r" for b'
    using same by (intro tree_ok_cong) (auto simp: own_def)
  have so: "outcome (body_at st') (Zombie (address f)) r = outcome (body_at st) (Zombie (address f)) r"
    using same by (intro outcome_cong) auto
  have sf: "body_at st' (Zombie (address f)) = body_at st (Zombie (address f))"
    using same by (simp add: own_def)
  have "tree_ok (body_at st') c b (Finish f' l' r)"
    using r K(1) new l sf by (auto simp: ready_def f sr)
  moreover have "ready c b (Finish f' l' r) st'"
  proof (rule ready_FinishI)
    show "address f' < next_address st'" using R(5) K(3) by (simp add: f)
    show "i < next_address st'" if "i \<in> addresses r" for i using R(7)[OF that] K(3) by simp
  qed (use calculation ready_facts[OF K(1)] in auto)
  moreover have "outcome (body_at st') b (Finish f' l' r) = outcome (body_at st) b (Finish f l r)"
  proof (cases "has_right_zombie f")
    case True
    moreover have "address f' = address f" "has_right_zombie f' = has_right_zombie f" by (simp_all add: f)
    ultimately show ?thesis using K(2) so by simp
  next
    case False
    then show ?thesis using R(3) K(2) l by (cases r) (auto simp: f)
  qed
  ultimately show ?thesis using K(3-6)
    by (auto simp: kept_def f own_def)
qed

lemma right_kept:
  assumes r: "ready c b (Finish f l r) st" and z: "has_right_zombie f"
    and k: "kept right_child (Zombie (address f)) r st r' st'"
  shows "kept c b (Finish f l r) st (Finish f l r') st'"
proof -
  note R = ready_Finish[OF r]
  have K: "ready right_child (Zombie (address f)) r' st'" "\<not> waiting r'"
    "outcome (body_at st') (Zombie (address f)) r' = outcome (body_at st) (Zombie (address f)) r"
    "next_address st \<le> next_address st'" "addresses r' \<subseteq> addresses r \<union> fresh st st'"
    "\<And>x. x \<notin> own (Zombie (address f)) r \<Longrightarrow> body_at st' x = body_at st x"
    "\<And>i. i \<in> addresses r \<Longrightarrow> i \<notin> addresses r' \<Longrightarrow> body_at st' (Zombie i) = None"
    using k by (auto simp: kept_def)
  have bn: "b \<noteq> Zombie i" if "i \<in> fresh st st'" for i
    using ready_not_next[OF r, of i] that by (simp add: fresh_def)
  have new: "i \<noteq> address f \<and> i \<notin> addresses l \<and> b \<noteq> Zombie i" if "i \<in> addresses r'" for i
    using K(5) R(5) R(6)[of i] R(7)[of i] bn[of i] that by (auto simp: fresh_def)
  have same: "body_at st' x = body_at st x" if "x \<in> own b l" for x
  proof (rule K(6))
    show "x \<notin> own (Zombie (address f)) r"
      using that R(4,5) by (auto simp: own_def fresh_def dest: R(6) R(7) bn[unfolded fresh_def])
  qed
  have sl: "tree_ok (body_at st') left_child b l = tree_ok (body_at st) left_child b l"
    using same by (intro tree_ok_cong) (auto simp: own_def)
  have so: "outcome (body_at st') b l = outcome (body_at st) b l"
    using same by (intro outcome_cong) auto
  have "tree_ok (body_at st') c b (Finish f l r')"
    using r K(1,2) new sl z by (auto simp: ready_def)
  moreover have "ready c b (Finish f l r') st'"
  proof (rule ready_FinishI)
    show "address f < next_address st'" using R(5) K(4) by simp
    show "i < next_address st'" if "i \<in> addresses l" for i using R(6)[OF that] K(4) by simp
    show "body_at st' b \<noteq> None" using same[of b] ready_facts(2)[OF r] by (simp add: own_def)
  qed (use calculation ready_facts[OF K(1)] in auto)
  moreover have "outcome (body_at st') b (Finish f l r') = outcome (body_at st) b (Finish f l r)"
    using K(3) so z by simp
  ultimately show ?thesis using K(4-7)
    by (auto simp: kept_def own_def)
qed

lemma right_kept_same:
  assumes r: "ready c b (Finish f Returned r) st" and z: "\<not> has_right_zombie f"
    and k: "kept right_child b r st r' st'"
  shows "kept c b (Finish f Returned r) st (Finish f Returned r') st'"
proof -
  note R = ready_Finish[OF r]
  have K: "ready right_child b r' st'" "\<not> waiting r'"
    "outcome (body_at st') b r' = outcome (body_at st) b r"
    "next_address st \<le> next_address st'" "addresses r' \<subseteq> addresses r \<union> fresh st st'"
    "\<And>x. x \<notin> own b r \<Longrightarrow> body_at st' x = body_at st x"
    "\<And>i. i \<in> addresses r \<Longrightarrow> i \<notin> addresses r' \<Longrightarrow> body_at st' (Zombie i) = None"
    using k by (auto simp: kept_def)
  have new: "i \<noteq> address f" if "i \<in> addresses r'" for i
    using K(5) R(5) R(7)[of i] that by (auto simp: fresh_def)
  have sf: "body_at st' (Zombie (address f)) = body_at st (Zombie (address f))"
    using R(4,5) by (intro K(6)) (auto simp: own_def fresh_def dest: R(7))
  have "tree_ok (body_at st') c b (Finish f Returned r')"
    using r K(1,2) new sf z by (auto simp: ready_def)
  moreover have "ready c b (Finish f Returned r') st'"
  proof (rule ready_FinishI)
    show "address f < next_address st'" using R(5) K(4) by simp
  qed (use calculation ready_facts[OF K(1)] in auto)
  moreover have "outcome (body_at st') b (Finish f Returned r') = outcome (body_at st) b (Finish f Returned r)"
    using K(2,3) z by (cases r; cases r') simp_all
  ultimately show ?thesis using K(4-7)
    by (auto simp: kept_def own_def)
qed

text \<open>The right child that starts before the left one has finished: a zombie is made for it.\<close>

lemma right_started:
  assumes r: "ready c b (Finish f l (Waiting t)) st" and z: "\<not> has_right_zombie f"
    and l: "my_body f = None" and nc: "no_cancel env"
  shows "\<exists>r' st'. start_reduce_begin B ex env (Some f) t st =
      Inr (Some (f\<lparr>has_right_zombie := True\<rparr>), r', st') \<and> weight r' < weight (Waiting t) \<and>
    kept c b (Finish f l (Waiting t)) st (Finish (f\<lparr>has_right_zombie := True\<rparr>) l r') st'"
proof -
  note R = ready_Finish[OF r]
  from R(3)[OF z] have w: "sr_context t = right_child" "sr_body t = b" "ok (sr_range t)"
    by (auto simp: ready_def)
  let ?Z = "Zombie (address f)"
  obtain v where v: "body_at st b = Some v" using ready_facts(2)[OF r] by blast
  let ?st = "set_body ?Z (Some (split_body B v)) st"
  let ?t = "t\<lparr>sr_body := ?Z\<rparr>"
  obtain evs where e: "ex env (sr_range t, sr_partition t) = Inr evs" "left_items items evs = items (sr_range t)"
    "evs_ok evs"
    "1 + length (bodies evs) + 5 * length (concat (map (items \<circ> fst) (offers evs))) < 5 * length (items (sr_range t)) - 2"
    by (rule ex_events[OF w(3) nc])
  have "start_reduce_begin B ex env (Some f) t st =
      Inr (Some (f\<lparr>has_right_zombie := True\<rparr>), Running ?t evs, ?st)"
    using w l v e(1) by (simp add: start_reduce_begin_def choose_body_def get_body_def)
  moreover have "kept c b (Finish f l (Waiting t)) st (Finish (f\<lparr>has_right_zombie := True\<rparr>) l (Running ?t evs)) ?st"
  proof -
    have s: "tree_ok (body_at ?st) left_child b l = tree_ok (body_at st) left_child b l"
      using R(6) by (intro tree_ok_cong) (auto simp: set_body_def)
    have o: "outcome (body_at ?st) b l = outcome (body_at st) b l"
      using R(4,6) by (intro outcome_cong) (auto simp: set_body_def own_def)
    have "tree_ok (body_at ?st) c b (Finish (f\<lparr>has_right_zombie := True\<rparr>) l (Running ?t evs))"
      using ready_facts(1)[OF r] w e(3) s by (auto simp: set_body_def)
    then have "ready c b (Finish (f\<lparr>has_right_zombie := True\<rparr>) l (Running ?t evs)) ?st"
      using R(4-6) v ready_facts(4)[OF r] by (intro ready_FinishI) (auto simp: set_body_def)
    moreover have "outcome (body_at ?st) b (Finish (f\<lparr>has_right_zombie := True\<rparr>) l (Running ?t evs)) =
        outcome (body_at st) b (Finish f l (Waiting t))"
      using z o e(2) by (simp add: join_app set_body_def)
    ultimately show ?thesis
      by (auto simp: kept_def own_def fresh_def set_body_def)
  qed
  ultimately show ?thesis using e(4) by (intro exI conjI) simp_all
qed

lemma no_step_Returned: "\<not> task_step B ex par Returned st res"
  by (auto elim: task_step.cases)

lemma action_Some_cases:
  assumes "task_action B ex env par t st = Some res"
  obtains (begin_it) s where "t = Waiting s" "res = start_reduce_begin B ex env par s st"
  | (body) s r evs where "t = Running s (Body r # evs)"
      "res = bind_r (reduce_run_body B r s st) (\<lambda>st'. Inr (par, Running s evs, st'))"
  | (offer) s r p evs where "t = Running s (Offer r p # evs)"
      "res = (let (t', st') = reduce_offer_work r p s evs st in Inr (par, t', st'))"
  | (end_it) s where "t = Running s []"
      "res = bind_r (start_reduce_end par s) (\<lambda>par'. Inr (par', Returned, st))"
  | (finish_it) f where "t = Finish f Returned Returned"
      "res = bind_r (finish_reduce_execute B par f st) (\<lambda>(par', st'). Inr (par', Returned, st'))"
  using assms by (cases "(B, ex, env, par, t, st)" rule: task_action.cases) auto

lemma offer_weight:
  "ok r \<Longrightarrow> reduce_offer_work r p t evs st = (t', st') \<Longrightarrow> weight t' < weight (Running t (Offer r p # evs))"
  using items_ne[of r] by (cases "items r") (auto simp: reduce_offer_work_def new_right_child_def Let_def)

lemma action_kept:
  assumes a: "task_action B ex env par t st = Some res" and nc: "no_cancel env" and r: "ready c b t st"
    and l: "c = left_child \<Longrightarrow> par = Some f \<and> b \<noteq> Zombie (address f)"
    and rc: "c = right_child \<Longrightarrow> waiting t \<Longrightarrow> par = Some f \<and> my_body f \<noteq> None"
  shows "\<exists>t' st'. res = Inr (if c = left_child \<and> t' = Returned then Some (f\<lparr>my_body := Some b\<rparr>) else par, t', st') \<and>
    kept c b t st t' st' \<and> weight t' < weight t"
  using a
proof (cases rule: action_Some_cases)
  case (begin_it s)
  have "c = root_task \<or> c = right_child \<and> my_body f \<noteq> None \<and> par = Some f"
    using r rc by (cases c) (auto simp: ready_def begin_it(1))
  from begin_kept[OF r[unfolded begin_it(1)] nc choose_root[OF r[unfolded begin_it(1)] this]]
  show ?thesis by (auto simp: begin_it)
next
  case (body s q evs)
  from body_kept[OF r[unfolded body(1)]] show ?thesis by (auto simp: body)
next
  case (offer s q p evs)
  from offer_kept[OF r[unfolded offer(1)]] obtain t' st' where
    o: "reduce_offer_work q p s evs st = (t', st')" "kept c b (Running s (Offer q p # evs)) st t' st'" by blast
  have "ok q" using r by (simp add: ready_def offer(1))
  from offer_weight[OF this o(1)] o show ?thesis
    by (auto simp: offer reduce_offer_work_def new_right_child_def Let_def)
next
  case (end_it s)
  have "kept c b (Running s []) st Returned st"
    using r by (auto simp: kept_def ready_def fresh_def end_it(1) app_nil)
  moreover have "start_reduce_end par s = Inr (if c = left_child then Some (f\<lparr>my_body := Some b\<rparr>) else par)"
    using r l by (auto simp: start_reduce_end_def ready_def end_it(1))
  ultimately show ?thesis by (auto simp: end_it)
next
  case (finish_it g)
  from finish_kept[OF r[unfolded finish_it(1)], of par f] l show ?thesis by (auto simp: finish_it)
qed

lemma step_kept:
  assumes "task_step B ex par t st res" and "ready c b t st"
    and "c = left_child \<Longrightarrow> par = Some f \<and> b \<noteq> Zombie (address f)"
    and "c = right_child \<Longrightarrow> waiting t \<Longrightarrow> par = Some f \<and> my_body f \<noteq> None"
  shows "\<exists>t' st'. res = Inr (if c = left_child \<and> t' = Returned then Some (f\<lparr>my_body := Some b\<rparr>) else par, t', st') \<and>
    kept c b t st t' st' \<and> weight t' < weight t"
  using assms
proof (induction arbitrary: c b f rule: task_step.induct)
  case (self env par t st res)
  from action_kept[OF self(2,1,3-5)] show ?case .
next
  case (left g l st res par r)
  note R = ready_Finish[OF left.prems(1)]
  have ret: "l \<noteq> Returned" using left.hyps no_step_Returned by auto
  obtain l' st' where s: "res = Inr (if l' = Returned then Some (g\<lparr>my_body := Some b\<rparr>) else Some g, l', st')"
    "kept left_child b l st l' st'" "weight l' < weight l"
    using left.IH[OF R(1), of g] R(4) by auto
  note left_kept[OF left.prems(1) s(2) refl ret]
  with s(1,3) show ?case by (auto simp: in_left_def)
next
  case (right g r st res par l)
  note R = ready_Finish[OF right.prems(1)]
  note T = ready_facts(1)[OF right.prems(1)]
  consider (own_body) "has_right_zombie g" | (start_new) t where "\<not> has_right_zombie g" "r = Waiting t" "my_body g = None"
    | (same) "\<not> has_right_zombie g" "l = Returned"
    using T by (cases r) (auto split: if_splits)
  then show ?case
  proof cases
    case own_body
    obtain r' st' where s: "res = Inr (Some g, r', st')"
      "kept right_child (Zombie (address g)) r st r' st'" "weight r' < weight r"
      using right.IH[of right_child "Zombie (address g)" g] R(2)[OF own_body] by auto
    from right_kept[OF right.prems(1) own_body s(2)] s(1,3) show ?thesis by (auto simp: in_right_def)
  next
    case start_new
    from right.hyps obtain env where "no_cancel env" "res = start_reduce_begin B ex env (Some g) t st"
      unfolding start_new(2) by (auto elim: step_WaitingE)
    moreover from right_started[OF right.prems(1)[unfolded start_new(2)] start_new(1,3) this(1)]
    obtain r' st' where "start_reduce_begin B ex env (Some g) t st =
        Inr (Some (g\<lparr>has_right_zombie := True\<rparr>), r', st')" "weight r' < weight (Waiting t)"
      "kept c b (Finish g l (Waiting t)) st (Finish (g\<lparr>has_right_zombie := True\<rparr>) l r') st'" by blast
    ultimately show ?thesis
      by (intro exI[of _ "Finish (g\<lparr>has_right_zombie := True\<rparr>) l r'"] exI[of _ st'])
        (simp add: in_right_def start_new(2))
  next
    case same
    have m: "my_body g = Some b" using T same(2) by simp
    obtain r' st' where s: "res = Inr (Some g, r', st')" "kept right_child b r st r' st'" "weight r' < weight r"
      using right.IH[of right_child b g] R(3)[OF same(1)] m by auto
    from right_kept_same[OF right.prems(1)[unfolded same(2)] same(1) s(2)] s(1,3) show ?thesis
      by (auto simp: in_right_def same(2))
  qed
qed

text \<open>A state with the result \<open>v\<close> still to come, and no body of a task that is gone.\<close>

definition state_ok :: "'b \<Rightarrow> ('r, 'p, 'b) reduce_state \<Rightarrow> bool" where
  "state_ok v s \<longleftrightarrow> ready root_task Given (tasks s) (store s) \<and>
     outcome (body_at (store s)) Given (tasks s) = v \<and>
     (\<forall>i. i \<notin> addresses (tasks s) \<longrightarrow> body_at (store s) (Zombie i) = None)"

lemma reduce_step_ok:
  assumes "reduce_step B ex s res" and "state_ok v s"
  shows "\<exists>s'. res = Inr s' \<and> state_ok v s' \<and> weight (tasks s') < weight (tasks s)"
proof -
  from assms(1) obtain res0 where r: "task_step B ex None (tasks s) (store s) res0"
    "res = bind_r res0 (\<lambda>(_, t', st'). Inr \<lparr>tasks = t', store = st'\<rparr>)" by (auto elim: reduce_stepE)
  from step_kept[OF r(1), of root_task Given] assms(2) obtain t' st' where
    k: "res0 = Inr (None, t', st')" "kept root_task Given (tasks s) (store s) t' st'" "weight t' < weight (tasks s)"
    by (auto simp: state_ok_def)
  have "body_at st' (Zombie i) = None" if "i \<notin> addresses t'" for i
  proof (cases "i \<in> addresses (tasks s)")
    case True
    then show ?thesis using k(2) that by (simp add: kept_def)
  next
    case False
    then have "body_at st' (Zombie i) = body_at (store s) (Zombie i)"
      using k(2) by (auto simp: kept_def own_def)
    then show ?thesis using False assms(2) by (simp add: state_ok_def)
  qed
  then have "state_ok v \<lparr>tasks = t', store = st'\<rparr>"
    using k(2) assms(2) by (simp add: state_ok_def kept_def)
  with r(2) k(1,3) show ?thesis by simp
qed

lemma task_progress:
  assumes "t \<noteq> Returned"
  shows "\<exists>res. task_step B ex par t st res"
  using assms
proof (induction t arbitrary: par)
  case (Running t evs)
  obtain env :: sched_env where "no_cancel env"
    using that[of "\<lparr>stolen = False, peer_stolen = (\<lambda>_. False), cancelled = (\<lambda>_. False)\<rparr>"]
    by (simp add: no_cancel_def)
  moreover obtain res where "task_action B ex env par (Running t evs) st = Some res"
    by (cases "(B, ex, env, par, Running t evs, st)" rule: task_action.cases) auto
  ultimately show ?case by (blast intro: task_step.self)
next
  case (Waiting t)
  obtain env :: sched_env where "no_cancel env"
    using that[of "\<lparr>stolen = False, peer_stolen = (\<lambda>_. False), cancelled = (\<lambda>_. False)\<rparr>"]
    by (simp add: no_cancel_def)
  then show ?case by (metis task_action.simps(1) task_step.self)
next
  case (Finish f l r)
  obtain env :: sched_env where env: "no_cancel env"
    using that[of "\<lparr>stolen = False, peer_stolen = (\<lambda>_. False), cancelled = (\<lambda>_. False)\<rparr>"]
    by (simp add: no_cancel_def)
  show ?case
  proof (cases "l = Returned \<and> r = Returned")
    case True
    then show ?thesis using env by (metis task_action.simps(5) task_step.self)
  next
    case False
    then show ?thesis using Finish.IH by (blast intro: task_step.left task_step.right)
  qed
qed simp

lemma reduce_progress: "tasks s \<noteq> Returned \<Longrightarrow> \<exists>res. reduce_step B ex s res"
  using task_progress[of "tasks s" None "store s"] by (blast intro: reduce_step.intros)

lemma bodies_in_use_own: "tree_ok h c b t \<Longrightarrow> set (bodies_in_use t) \<subseteq> own b t"
proof (induction t arbitrary: c b)
  case (Finish f l r)
  have "set (bodies_in_use l) \<subseteq> own b l" using Finish.IH(1)[of left_child b] Finish.prems by simp
  moreover have "set (bodies_in_use r) \<subseteq> own b r \<union> own (Zombie (address f)) r"
    using Finish.IH(2)[of right_child b] Finish.IH(2)[of right_child "Zombie (address f)"] Finish.prems
    by (cases "has_right_zombie f") auto
  ultimately show ?case by (auto simp: own_def)
qed (auto simp: own_def)

lemma bodies_in_use_distinct: "tree_ok h c b t \<Longrightarrow> distinct (bodies_in_use t)"
proof (induction t arbitrary: c b)
  case (Finish f l r)
  have l: "tree_ok h left_child b l" using Finish.prems by simp
  show ?case
  proof (cases "has_right_zombie f")
    case True
    then have r: "tree_ok h right_child (Zombie (address f)) r" using Finish.prems by simp
    have "set (bodies_in_use l) \<inter> set (bodies_in_use r) = {}"
      using bodies_in_use_own[OF l] bodies_in_use_own[OF r] Finish.prems by (auto simp: own_def)
    then show ?thesis using Finish.IH(1)[OF l] Finish.IH(2)[OF r] by simp
  next
    case False
    then have r: "tree_ok h right_child b r" "waiting r \<or> l = Returned" using Finish.prems by simp_all
    from r(2) have "bodies_in_use l = [] \<or> bodies_in_use r = []" by (cases r) auto
    then show ?thesis using Finish.IH(1)[OF l] Finish.IH(2)[OF r(1)] by auto
  qed
qed auto

lemma reduce_start_ok:
  assumes "e \<Longrightarrow> items r = []" and "\<not> e \<Longrightarrow> ok r"
  shows "state_ok (app (items r) b) (reduce_start e r p b)"
  using assms by (auto simp: state_ok_def ready_def reduce_start_def app_nil)

lemma reduce_done:
  assumes "state_ok v s" and "tasks s = Returned"
  shows "body_at (store s) = [Given \<mapsto> v]"
proof
  fix x
  show "body_at (store s) x = [Given \<mapsto> v] x"
    using assms by (cases x) (auto simp: state_ok_def ready_def)
qed

text \<open>A whole run, from \<open>start_reduce::run\<close> on.\<close>

lemma reduce_run_ok:
  "((\<lambda>s s'. reduce_step B ex s (Inr s')) ^^ n) s0 s \<Longrightarrow> state_ok v s0 \<Longrightarrow>
     state_ok v s \<and> n + weight (tasks s) \<le> weight (tasks s0)"
proof (induction n arbitrary: s)
  case (Suc n)
  then obtain s1 where "state_ok v s1" "n + weight (tasks s1) \<le> weight (tasks s0)"
    "reduce_step B ex s1 (Inr s)" by auto
  with reduce_step_ok[of s1 "Inr s" v] show ?case by simp
qed simp

lemma reduce_reach_ok:
  assumes "e \<Longrightarrow> items r = []" and "\<not> e \<Longrightarrow> ok r"
    and "((\<lambda>s s'. reduce_step B ex s (Inr s')) ^^ n) (reduce_start e r p b) s"
  shows "state_ok (app (items r) b) s" and "n + weight (tasks s) \<le> 5 * length (items r)"
  using reduce_run_ok[OF assms(3) reduce_start_ok[OF assms(1,2)]] by (auto simp: reduce_start_def split: if_splits)

lemma reduce_reach:
  assumes "e \<Longrightarrow> items r = []" and "\<not> e \<Longrightarrow> ok r"
    and "((\<lambda>s s'. reduce_step B ex s (Inr s')) ^^ n) (reduce_start e r p b) s"
  shows "tasks s = Returned \<Longrightarrow> body_at (store s) = [Given \<mapsto> app (items r) b]"
    and "distinct (bodies_in_use (tasks s))"
    and "reduce_step B ex s res \<Longrightarrow> \<exists>s'. res = Inr s'"
    and "n \<le> 5 * length (items r)"
    and "tasks s \<noteq> Returned \<Longrightarrow> \<exists>s'. reduce_step B ex s (Inr s')"
proof -
  note o = reduce_reach_ok[OF assms]
  show "tasks s = Returned \<Longrightarrow> body_at (store s) = [Given \<mapsto> app (items r) b]"
    by (rule reduce_done[OF o(1)])
  show "distinct (bodies_in_use (tasks s))"
    using o(1) by (auto simp: state_ok_def ready_def intro: bodies_in_use_distinct)
  show "n \<le> 5 * length (items r)" using o(2) by simp
  show s: "reduce_step B ex s res \<Longrightarrow> \<exists>s'. res = Inr s'" for res
    using reduce_step_ok[OF _ o(1)] by blast
  then show "tasks s \<noteq> Returned \<Longrightarrow> \<exists>s'. reduce_step B ex s (Inr s')"
    using reduce_progress[of s] by metis
qed

end

end
