(* ===== verification/Reduce_Props.thy ===== *)
theory Reduce_Props
  imports Reduce_Order Loop_Props
begin

text \<open>
  \<open>parallel_reduce\<close> over a \<open>blocked_range\<close> (\<open>parallel_reduce.h\<close>): \<open>start_reduce::run\<close>, the
  overloads that take a body and those that take functions (\<open>lambda_reduce_body\<close>), and what
  holds of every run: the result is that of the sequential loop, the bodies are not shared, and
  the loop ends. \<open>start_reduce::execute\<close> runs the partitioner as \<open>start_for::execute\<close> does.
\<close>

definition start_reduce_run :: "blocked_range \<Rightarrow> 'p \<Rightarrow> 'b \<Rightarrow> (blocked_range, 'p, 'b) reduce_state" where
  "start_reduce_run r p b = reduce_start (range_empty r) r p b"

definition parallel_reduce_simple :: "blocked_range \<Rightarrow> 'b \<Rightarrow> (blocked_range, unit, 'b) reduce_state" where
  "parallel_reduce_simple r b = start_reduce_run r () b"

definition parallel_reduce_auto ::
    "size_t \<Rightarrow> blocked_range \<Rightarrow> 'b \<Rightarrow> (blocked_range, adaptive_partition, 'b) reduce_state" where
  "parallel_reduce_auto workers r b =
     start_reduce_run r (new_auto_partition (get_initial_auto_partitioner_divisor workers)) b"

text \<open>
  \<open>lambda_reduce_body\<close>: a body is its \<open>my_value\<close>; the constructor and the splitting constructor
  set it to the identity. \<open>result\<close> reads it when the loop has returned.
\<close>

definition lambda_reduce_body ::
    "'v \<Rightarrow> ('r \<Rightarrow> 'v \<Rightarrow> 'v) \<Rightarrow> ('v \<Rightarrow> 'v \<Rightarrow> 'v) \<Rightarrow> ('r, 'v) reduce_body" where
  "lambda_reduce_body identity_element my_real_body my_reduction =
     \<lparr>call_body = (\<lambda>range my_value. my_real_body range my_value),
      split_body = (\<lambda>other. identity_element),
      join_body = (\<lambda>my_value rhs. my_reduction my_value rhs)\<rparr>"

definition lambda_result :: "('r, 'p, 'v) reduce_state \<Rightarrow> 'v option" where
  "lambda_result s = (if tasks s = Returned then body_at (store s) Given else None)"

definition reduce_next ::
    "'p partition_ops \<Rightarrow> (blocked_range, 'b) reduce_body
       \<Rightarrow> (blocked_range, 'p, 'b) reduce_state \<Rightarrow> (blocked_range, 'p, 'b) reduce_state \<Rightarrow> bool" where
  "reduce_next P B s s' \<longleftrightarrow> reduce_step B (start_for_execute P) s (Inr s')"

text \<open>
  The documented requirements on a body, \<open>app xs\<close> being what the sequential loop over \<open>xs\<close>
  does to one: a call accumulates its range, and joining a body that was split off and then ran
  over \<open>xs\<close> is running over \<open>xs\<close>. The operation need not commute.
\<close>

definition body_contract :: "(blocked_range, 'b) reduce_body \<Rightarrow> (nat list \<Rightarrow> 'b \<Rightarrow> 'b) \<Rightarrow> bool" where
  "body_contract B app \<longleftrightarrow> (\<forall>r b. range_wf r \<longrightarrow> call_body B r b = app (range_items r) b) \<and>
     (\<forall>xs ys b. app (xs @ ys) b = app ys (app xs b)) \<and> (\<forall>b. app [] b = b) \<and>
     (\<forall>xs b c. join_body B b (app xs (split_body B c)) = app xs b)"

lemma reduction_contract:
  assumes "body_contract B app"
  shows "reduction range_divisible split_range range_items range_wf (start_for_execute P) B app"
  using assms unfolding body_contract_def
  by (intro reduction.intro any_loop.loop_task_axioms reduction_axioms.intro) blast+

text \<open>The body that records the iterations in the order they are accumulated.\<close>

definition trace_body :: "(blocked_range, nat list) reduce_body" where
  "trace_body = lambda_reduce_body [] (\<lambda>r v. v @ range_items r) (@)"

lemma trace_contract: "body_contract trace_body (\<lambda>xs v. v @ xs)"
  by (simp add: body_contract_def trace_body_def lambda_reduce_body_def)

interpretation trace_reduce: reduction range_divisible split_range range_items range_wf
    "start_for_execute P" trace_body "\<lambda>xs v. v @ xs"
  for P :: "'p partition_ops"
  by (rule reduction_contract[OF trace_contract])

lemma reduce_next_step: "reduce_next P B = (\<lambda>s s'. reduce_step B (start_for_execute P) s (Inr s'))"
  by (simp add: fun_eq_iff reduce_next_def)

lemma reduce_next_reach:
  assumes "body_contract B app" and "0 < my_grainsize r"
    and "(reduce_next P B ^^ n) (start_reduce_run r p b) s"
  shows "tasks s = Returned \<Longrightarrow> body_at (store s) = [Given \<mapsto> app (range_items r) b]"
    and "distinct (bodies_in_use (tasks s))"
    and "reduce_step B (start_for_execute P) s res \<Longrightarrow> \<exists>s'. res = Inr s'"
    and "n \<le> 5 * length (range_items r)"
    and "tasks s \<noteq> Returned \<Longrightarrow> \<exists>s'. reduce_next P B s s'"
proof -
  have e: "range_empty r \<Longrightarrow> range_items r = []" by (simp add: range_empty_items)
  have w: "\<not> range_empty r \<Longrightarrow> range_wf r" using assms(2) by (simp add: range_wf_def range_empty_def)
  note R = reduction.reduce_reach[OF reduction_contract[OF assms(1)] e w
      assms(3)[unfolded reduce_next_step start_reduce_run_def]]
  show "tasks s = Returned \<Longrightarrow> body_at (store s) = [Given \<mapsto> app (range_items r) b]" by (rule R(1))
  show "distinct (bodies_in_use (tasks s))" by (rule R(2))
  show "reduce_step B (start_for_execute P) s res \<Longrightarrow> \<exists>s'. res = Inr s'" by (rule R(3))
  show "n \<le> 5 * length (range_items r)" by (rule R(4))
  show "tasks s \<noteq> Returned \<Longrightarrow> \<exists>s'. reduce_next P B s s'" unfolding reduce_next_step by (rule R(5))
qed

text \<open>
  C27. Whatever the partition object, the order in which the tasks run and the steals, when
  \<open>parallel_reduce\<close> has no task left the caller's body holds what the loop over the iterations
  in their order makes of it, though the operation need only be associative, and no other body
  is alive.
\<close>

theorem reduce_in_order:
  assumes "body_contract B app" and "0 < my_grainsize r"
    and "(reduce_next P B)\<^sup>*\<^sup>* (start_reduce_run r p b) s" and "tasks s = Returned"
  shows "body_at (store s) = [Given \<mapsto> app [unat (my_begin r)..<unat (my_end r)] b]"
proof -
  from assms(3) obtain n where "(reduce_next P B ^^ n) (start_reduce_run r p b) s"
    by (auto simp: rtranclp_power)
  from reduce_next_reach(1)[OF assms(1,2) this assms(4)] show ?thesis by (simp add: range_items_def)
qed

text \<open>
  C28. In every state a \<open>parallel_reduce\<close> over a range with a positive grain size can reach, no
  two tasks inside \<open>execute\<close> work on the same body, and no step reads a null pointer or a body
  that is not alive, or fails an assertion.
\<close>

theorem reduce_no_sharing:
  assumes "body_contract B app" and "0 < my_grainsize r"
    and "(reduce_next P B)\<^sup>*\<^sup>* (start_reduce_run r p b) s"
  shows "distinct (bodies_in_use (tasks s)) \<and>
    (\<forall>res. reduce_step B (start_for_execute P) s res \<longrightarrow> (\<exists>s'. res = Inr s'))"
proof -
  from assms(3) obtain n where "(reduce_next P B ^^ n) (start_reduce_run r p b) s"
    by (auto simp: rtranclp_power)
  from reduce_next_reach(2,3)[OF assms(1,2) this] show ?thesis by blast
qed

text \<open>
  C29. A \<open>parallel_reduce\<close> comes to its end: it takes at most five steps per iteration, and as
  long as a task is left a step is possible.
\<close>

theorem reduce_ends:
  assumes "body_contract B app" and "0 < my_grainsize r"
    and "(reduce_next P B ^^ n) (start_reduce_run r p b) s"
  shows "n \<le> 5 * length (range_items r) \<and> (tasks s \<noteq> Returned \<longrightarrow> (\<exists>s'. reduce_next P B s s'))"
  using reduce_next_reach(4,5)[OF assms] by blast

section \<open>A sample run\<close>

text \<open>
  Two iterations: the right half starts and runs before the left one has, so it gets a body of
  its own, which is joined at the end.
\<close>

lemma reduce_nextI:
  "task_step B (start_for_execute P) None t st (Inr (par, t', st')) \<Longrightarrow>
     reduce_next P B \<lparr>tasks = t, store = st\<rparr> \<lparr>tasks = t', store = st'\<rparr>"
  using reduce_step.intros[of B "start_for_execute P" "\<lparr>tasks = t, store = st\<rparr>" "Inr (par, t', st')"]
  by (simp add: reduce_next_def)

lemma step_leftI:
  "task_step B ex (Some f) l st (Inr (Some f', l', st')) \<Longrightarrow>
     task_step B ex par (Finish f l r) st (Inr (par, Finish f' l' r, st'))"
  using task_step.left[of B ex f l st "Inr (Some f', l', st')" par r] by (simp add: in_left_def)

lemma step_rightI:
  "task_step B ex (Some f) r st (Inr (Some f', r', st')) \<Longrightarrow>
     task_step B ex par (Finish f l r) st (Inr (par, Finish f' l r', st'))"
  using task_step.right[of B ex f r st "Inr (Some f', r', st')" par l] by (simp add: in_right_def)

definition sample_start :: "blocked_range \<Rightarrow> size_t \<Rightarrow> body_ref \<Rightarrow> reduction_context
    \<Rightarrow> (blocked_range, adaptive_partition) start_reduce" where
  "sample_start r k b c =
     \<lparr>sr_body = b, sr_range = r, sr_partition = \<lparr>my_divisor = k, my_max_depth = 5\<rparr>, sr_context = c\<rparr>"

definition sample_finish :: "bool \<Rightarrow> body_ref option \<Rightarrow> finish_reduce" where
  "sample_finish z m = \<lparr>address = 0, has_right_zombie = z, my_context = root_task, my_body = m\<rparr>"

definition sample_bodies :: "nat list \<Rightarrow> nat list option \<Rightarrow> nat \<Rightarrow> nat list reduce_store" where
  "sample_bodies v z k = \<lparr>body_at = (\<lambda>_. None)(Given := Some v, Zombie 0 := z), next_address = k\<rparr>"

lemmas sample_defs = sample_start_def sample_finish_def sample_bodies_def start_reduce_begin_def
  choose_body_def start_reduce_end_def finish_reduce_execute_def get_body_def set_body_def
  reduce_run_body_def reduce_offer_work_def new_right_child_def new_finish_reduce_def trace_body_def lambda_reduce_body_def
  fun_eq_iff

definition sample_reduce :: "nat list \<Rightarrow> (blocked_range, adaptive_partition, nat list) reduce_state" where
  "sample_reduce v = start_reduce_run sample_range \<lparr>my_divisor = 2, my_max_depth = 5\<rparr> v"

lemma sample_reduce_run:
  "(reduce_next auto_partition_type trace_body ^^ 8) (sample_reduce [9])
     \<lparr>tasks = Returned, store = sample_bodies [9, 0, 1] None 1\<rparr>"
proof -
  let ?lo = "new_blocked_range 0 1 1" and ?hi = "new_blocked_range 1 2 1"
  let ?N = "reduce_next auto_partition_type trace_body"
  let ?ex = "start_for_execute auto_partition_type"
  let ?root = "sample_start sample_range 2 Given root_task"
  let ?left = "sample_start sample_range 2 Given left_child"
  let ?right = "sample_start ?hi 1 Given right_child" and ?zombie = "sample_start ?hi 1 (Zombie 0) right_child"
  let ?st0 = "sample_bodies [9] None 0" and ?st1 = "sample_bodies [9] None 1" and ?st3 = "sample_bodies [9] (Some []) 1"
    and ?st4 = "sample_bodies [9] (Some [1]) 1" and ?st5 = "sample_bodies [9, 0] (Some [1]) 1"
  note T = sample_task_1 sample_task_2
  have nc: "no_cancel sample_env" by (simp add: no_cancel_def sample_env_def)
  note self = task_step.self[OF nc]
  have s0: "sample_reduce [9] = \<lparr>tasks = Waiting ?root, store = ?st0\<rparr>"
    by (simp add: sample_reduce_def start_reduce_run_def reduce_start_def sample_range_def new_blocked_range_def
        range_empty_def sample_defs)
  have s1: "?N \<lparr>tasks = Waiting ?root, store = ?st0\<rparr>
      \<lparr>tasks = Running ?root [Offer ?hi \<lparr>my_divisor = 1, my_max_depth = 5\<rparr>, Body ?lo], store = ?st0\<rparr>"
    by (rule reduce_nextI, rule self) (simp add: T sample_defs)
  have s2: "?N \<lparr>tasks = Running ?root [Offer ?hi \<lparr>my_divisor = 1, my_max_depth = 5\<rparr>, Body ?lo], store = ?st0\<rparr>
      \<lparr>tasks = Finish (sample_finish False None) (Running ?left [Body ?lo]) (Waiting ?right), store = ?st1\<rparr>"
    by (rule reduce_nextI, rule self) (simp add: sample_defs)
  have s3: "?N \<lparr>tasks = Finish (sample_finish False None) (Running ?left [Body ?lo]) (Waiting ?right), store = ?st1\<rparr>
      \<lparr>tasks = Finish (sample_finish True None) (Running ?left [Body ?lo]) (Running ?zombie [Body ?hi]), store = ?st3\<rparr>"
    by (rule reduce_nextI, rule step_rightI, rule self) (simp add: T sample_defs)
  have s4: "?N \<lparr>tasks = Finish (sample_finish True None) (Running ?left [Body ?lo]) (Running ?zombie [Body ?hi]), store = ?st3\<rparr>
      \<lparr>tasks = Finish (sample_finish True None) (Running ?left [Body ?lo]) (Running ?zombie []), store = ?st4\<rparr>"
    by (rule reduce_nextI, rule step_rightI, rule self)
      (simp add: sample_defs range_items_def new_blocked_range_def upt_rec)
  have s5: "?N \<lparr>tasks = Finish (sample_finish True None) (Running ?left [Body ?lo]) (Running ?zombie []), store = ?st4\<rparr>
      \<lparr>tasks = Finish (sample_finish True None) (Running ?left []) (Running ?zombie []), store = ?st5\<rparr>"
    by (rule reduce_nextI, rule step_leftI, rule self)
      (simp add: sample_defs range_items_def new_blocked_range_def upt_rec)
  have s6: "?N \<lparr>tasks = Finish (sample_finish True None) (Running ?left []) (Running ?zombie []), store = ?st5\<rparr>
      \<lparr>tasks = Finish (sample_finish True (Some Given)) Returned (Running ?zombie []), store = ?st5\<rparr>"
    by (rule reduce_nextI, rule step_leftI, rule self) (simp add: sample_defs)
  have s7: "?N \<lparr>tasks = Finish (sample_finish True (Some Given)) Returned (Running ?zombie []), store = ?st5\<rparr>
      \<lparr>tasks = Finish (sample_finish True (Some Given)) Returned Returned, store = ?st5\<rparr>"
    by (rule reduce_nextI, rule step_rightI, rule self) (simp add: sample_defs)
  have s8: "?N \<lparr>tasks = Finish (sample_finish True (Some Given)) Returned Returned, store = ?st5\<rparr>
      \<lparr>tasks = Returned, store = sample_bodies [9, 0, 1] None 1\<rparr>"
    by (rule reduce_nextI, rule self) (simp add: sample_defs)
  show ?thesis unfolding s0
    using s1 s2 s3 s4 s5 s6 s7 s8 by (auto simp: numeral_eq_Suc intro!: relcomppI)
qed

lemma reduce_in_order_witness:
  "body_at (sample_bodies [9, 0, 1] None 1) Given = Some ([9] @ [0..<2])"
  using reduce_in_order[OF trace_contract _ rtranclp_power[THEN iffD2, OF exI, OF
      sample_reduce_run[unfolded sample_reduce_def]]]
  by (simp add: sample_range_def new_blocked_range_def)

lemma reduce_no_sharing_witness:
  "\<exists>s. (reduce_next auto_partition_type trace_body)\<^sup>*\<^sup>* (sample_reduce [9]) s \<and> distinct (bodies_in_use (tasks s))"
  using reduce_no_sharing[OF trace_contract _ rtranclp_power[THEN iffD2, OF exI, OF
      sample_reduce_run[unfolded sample_reduce_def]]] sample_reduce_run
  by (auto simp: sample_range_def new_blocked_range_def sample_reduce_def rtranclp_power)

lemma reduce_ends_witness: "8 \<le> 5 * length (range_items sample_range)"
  using reduce_ends[OF trace_contract _ sample_reduce_run[unfolded sample_reduce_def]]
  by (simp add: sample_range_def new_blocked_range_def)

end
