(* ===== verification/Deterministic_Reduce.thy ===== *)
theory Deterministic_Reduce
  imports Reduce_Props
begin

text \<open>
  \<open>parallel_deterministic_reduce\<close> (\<open>parallel_reduce.h\<close>). Its tasks are plain tasks of TBB, and
  which halves are cut off depends on the range alone: a task splits its range until it is not
  divisible, and every half cut off has its own body, split from the left one before either
  runs. The bodies of the two children of a \<open>finish_deterministic_reduce\<close> are therefore
  functions of their ranges, whatever the schedule, and the model computes them one after the
  other.
\<close>

record 'b finish_deterministic_reduce =
  my_left_body :: 'b
  my_right_body :: 'b

definition new_finish_deterministic :: "(blocked_range, 'b) reduce_body \<Rightarrow> 'b \<Rightarrow> 'b finish_deterministic_reduce" where
  "new_finish_deterministic B body = \<lparr>my_left_body = body, my_right_body = split_body B body\<rparr>"

definition finish_deterministic_execute :: "(blocked_range, 'b) reduce_body \<Rightarrow> 'b finish_deterministic_reduce \<Rightarrow> 'b" where
  "finish_deterministic_execute B f = join_body B (my_left_body f) (my_right_body f)"

text \<open>
  \<open>start_deterministic_reduce::execute\<close>, which returns itself as the next task for the left
  half; the first argument bounds the splits on the way down to a leaf.
\<close>

fun deterministic_execute :: "nat \<Rightarrow> (blocked_range, 'b) reduce_body \<Rightarrow> blocked_range \<Rightarrow> 'b \<Rightarrow> 'b result" where
  "deterministic_execute 0 B r b = Inl Diverges"
| "deterministic_execute (Suc n) B r b =
     (if \<not> range_divisible r then Inr (call_body B r b)
      else
        let c = new_finish_deterministic B b; (r1, r2) = split_range r in
        bind_r (deterministic_execute n B r1 (my_left_body c)) (\<lambda>lb.
        bind_r (deterministic_execute n B r2 (my_right_body c)) (\<lambda>rb.
          Inr (finish_deterministic_execute B (c\<lparr>my_left_body := lb, my_right_body := rb\<rparr>)))))"

definition start_deterministic_run :: "(blocked_range, 'b) reduce_body \<Rightarrow> blocked_range \<Rightarrow> 'b \<Rightarrow> 'b result" where
  "start_deterministic_run B r b =
     (if \<not> range_empty r then deterministic_execute (length (range_items r)) B r b else Inr b)"

definition parallel_deterministic_reduce :: "(blocked_range, 'b) reduce_body \<Rightarrow> blocked_range \<Rightarrow> 'b \<Rightarrow> 'b result" where
  "parallel_deterministic_reduce B r b = start_deterministic_run B r b"

text \<open>
  It always returns, and the bound on the splits does not show: a larger one gives the same.
  No law of the body is needed, so the result depends on the range and the body only.
\<close>

lemma deterministic_returns:
  "range_wf r \<Longrightarrow> length (range_items r) \<le> n \<Longrightarrow>
     \<exists>v. deterministic_execute n B r b = Inr v \<and> deterministic_execute (n + k) B r b = Inr v"
proof (induction n arbitrary: r b)
  case 0
  then show ?case using br.items_ne by simp
next
  case (Suc n)
  show ?case
  proof (cases "range_divisible r")
    case True
    obtain r1 r2 where s: "split_range r = (r1, r2)" by fastforce
    note o = br.split_ok[OF Suc.prems(1) True s]
    have "length (range_items r1) \<le> n" "length (range_items r2) \<le> n"
      using br.split_shrinks[OF Suc.prems(1) True s] Suc.prems(2) by simp_all
    with Suc.IH o obtain v1 v2 where
      "deterministic_execute n B r1 b = Inr v1" "deterministic_execute (n + k) B r1 b = Inr v1"
      "deterministic_execute n B r2 (split_body B b) = Inr v2"
      "deterministic_execute (n + k) B r2 (split_body B b) = Inr v2" by meson
    then show ?thesis using True s by (simp add: new_finish_deterministic_def)
  qed simp
qed

text \<open>Under the contract of a body the result is that of the sequential loop.\<close>

lemma deterministic_in_order:
  assumes B: "body_contract B app"
  shows "range_wf r \<Longrightarrow> length (range_items r) \<le> n \<Longrightarrow>
     deterministic_execute n B r b = Inr (app (range_items r) b)"
proof (induction n arbitrary: r b)
  case 0
  then show ?case using br.items_ne by simp
next
  case (Suc n)
  show ?case
  proof (cases "range_divisible r")
    case True
    obtain r1 r2 where s: "split_range r = (r1, r2)" by fastforce
    note o = br.split_ok[OF Suc.prems(1) True s] and i = br.split_items[OF Suc.prems(1) True s]
    have "length (range_items r1) \<le> n" "length (range_items r2) \<le> n"
      using br.split_shrinks[OF Suc.prems(1) True s] Suc.prems(2) by simp_all
    then show ?thesis
      using True s o i B Suc.IH[of r1] Suc.IH[of r2]
      by (simp add: new_finish_deterministic_def finish_deterministic_execute_def body_contract_def)
  next
    case False
    then show ?thesis using B Suc.prems(1) by (simp add: body_contract_def)
  qed
qed

lemma deterministic_reduce_is_reduce:
  assumes "body_contract B app" and "0 < my_grainsize r"
  shows "parallel_deterministic_reduce B r b = Inr (app (range_items r) b)"
proof (cases "range_empty r")
  case True
  then show ?thesis using assms(1)
    by (simp add: parallel_deterministic_reduce_def start_deterministic_run_def range_empty_items body_contract_def)
next
  case False
  then have "range_wf r" using assms(2) by (simp add: range_wf_def range_empty_def)
  with False deterministic_in_order[OF assms(1)] show ?thesis
    by (simp add: parallel_deterministic_reduce_def start_deterministic_run_def)
qed

end
