(* ===== verification/Parallel_Invoke.thy ===== *)
theory Parallel_Invoke
  imports Runtime "HOL-Library.Multiset"
begin

text \<open>
  \<open>parallel_invoke\<close> of the modified TBB (\<open>parallel_invoke.h\<close>, the overloads without variadic
  templates, which the default configuration compiles): a root task with a reference count,
  children that call one function (\<open>function_invoker\<close>) or spawn two or three of them
  (\<open>spawner\<close>), and which of them are spawned through the wrapper of \<open>t_debug_task\<close> and so
  announced to the detector, and which through \<open>task::spawn\<close> of TBB.
\<close>

datatype 'f invoke_child = function_invoker 'f | spawner "'f list"

record 'f invoke_root =
  ref_count :: nat
  children :: "('f invoke_child \<times> bool) list"

definition parallel_invoke_helper :: "nat \<Rightarrow> 'f invoke_root" where
  "parallel_invoke_helper number_of_children = \<lparr>ref_count = number_of_children + 1, children = []\<rparr>"

definition parallel_invoke_cleaner :: "nat \<Rightarrow> 'f invoke_root" where
  "parallel_invoke_cleaner number_of_children = parallel_invoke_helper number_of_children"

definition task_spawn :: "'f invoke_child \<Rightarrow> 'f invoke_root \<Rightarrow> 'f invoke_root" where
  "task_spawn c r = r\<lparr>children := children r @ [(c, False)]\<rparr>"

definition t_debug_task_spawn :: "'f invoke_child \<Rightarrow> 'f invoke_root \<Rightarrow> 'f invoke_root" where
  "t_debug_task_spawn c r = r\<lparr>children := children r @ [(c, True)]\<rparr>"

definition add_children1 :: "'f \<Rightarrow> 'f invoke_root \<Rightarrow> 'f invoke_root" where
  "add_children1 f r = task_spawn (function_invoker f) r"

definition add_children2 :: "'f \<Rightarrow> 'f \<Rightarrow> 'f invoke_root \<Rightarrow> 'f invoke_root" where
  "add_children2 f1 f2 r = task_spawn (spawner [f1, f2]) r"

definition add_children3 :: "'f \<Rightarrow> 'f \<Rightarrow> 'f \<Rightarrow> 'f invoke_root \<Rightarrow> 'f invoke_root" where
  "add_children3 f1 f2 f3 r = t_debug_task_spawn (spawner [f1, f2, f3]) r"

text \<open>\<open>spawn_and_wait_for_all\<close> is the one of TBB here: the helper is an \<open>empty_task\<close>.\<close>

definition run_and_finish :: "'f \<Rightarrow> 'f invoke_root \<Rightarrow> 'f invoke_root" where
  "run_and_finish f0 r = task_spawn (function_invoker f0) r"

text \<open>\<open>spawner::execute\<close>, for two or three functions; its children are all announced.\<close>

fun spawner_execute :: "'f list \<Rightarrow> 'f invoke_root result" where
  "spawner_execute [f1, f2] =
     Inr (t_debug_task_spawn (function_invoker f1) (t_debug_task_spawn (function_invoker f2)
       \<lparr>ref_count = 2 + 1, children = []\<rparr>))"
| "spawner_execute [f1, f2, f3] =
     Inr (t_debug_task_spawn (function_invoker f1) (t_debug_task_spawn (function_invoker f3)
       (t_debug_task_spawn (function_invoker f2) \<lparr>ref_count = 3 + 1, children = []\<rparr>)))"
| "spawner_execute fs = Inl AssertFail"

text \<open>The nine overloads with a context, by the number of their arguments.\<close>

fun parallel_invoke_context :: "'f list \<Rightarrow> 'f invoke_root option" where
  "parallel_invoke_context [f0, f1] =
     Some (run_and_finish f0 (add_children1 f1 (parallel_invoke_cleaner 2)))"
| "parallel_invoke_context [f0, f1, f2] =
     Some (run_and_finish f0 (add_children1 f1 (add_children1 f2 (parallel_invoke_cleaner 3))))"
| "parallel_invoke_context [f0, f1, f2, f3] =
     Some (run_and_finish f0 (add_children1 f1 (add_children1 f2 (add_children1 f3
       (parallel_invoke_cleaner 4)))))"
| "parallel_invoke_context [f0, f1, f2, f3, f4] =
     Some (run_and_finish f0 (add_children2 f2 f1 (add_children2 f4 f3 (parallel_invoke_cleaner 3))))"
| "parallel_invoke_context [f0, f1, f2, f3, f4, f5] =
     Some (run_and_finish f0 (add_children2 f2 f1 (add_children3 f5 f4 f3 (parallel_invoke_cleaner 3))))"
| "parallel_invoke_context [f0, f1, f2, f3, f4, f5, f6] =
     Some (run_and_finish f0 (add_children3 f3 f2 f1 (add_children3 f6 f5 f4 (parallel_invoke_cleaner 3))))"
| "parallel_invoke_context [f0, f1, f2, f3, f4, f5, f6, f7] =
     Some (run_and_finish f0 (add_children2 f2 f1 (add_children2 f4 f3 (add_children3 f7 f6 f5
       (parallel_invoke_cleaner 4)))))"
| "parallel_invoke_context [f0, f1, f2, f3, f4, f5, f6, f7, f8] =
     Some (run_and_finish f0 (add_children2 f2 f1 (add_children3 f5 f4 f3 (add_children3 f8 f7 f6
       (parallel_invoke_cleaner 4)))))"
| "parallel_invoke_context [f0, f1, f2, f3, f4, f5, f6, f7, f8, f9] =
     Some (run_and_finish f0 (add_children3 f3 f2 f1 (add_children3 f6 f5 f4 (add_children3 f9 f8 f7
       (parallel_invoke_cleaner 4)))))"
| "parallel_invoke_context fs = None"

text \<open>The overloads without a context make one of their own and call the others.\<close>

definition parallel_invoke :: "'f list \<Rightarrow> 'f invoke_root option" where
  "parallel_invoke fs = parallel_invoke_context fs"

section \<open>What is called\<close>

text \<open>The functions called when a child runs, with those of the children a spawner makes.\<close>

fun invoked :: "'f invoke_child \<Rightarrow> 'f list" where
  "invoked (function_invoker f) = [f]"
| "invoked (spawner fs) =
     (case spawner_execute fs of Inl e \<Rightarrow> [] | Inr r \<Rightarrow>
       concat (map (\<lambda>(c, _). case c of function_invoker f \<Rightarrow> [f] | spawner _ \<Rightarrow> []) (children r)))"

definition all_invoked :: "'f invoke_root \<Rightarrow> 'f list" where
  "all_invoked r = concat (map (invoked \<circ> fst) (children r))"

lemmas invoke_defs = all_invoked_def parallel_invoke_def parallel_invoke_cleaner_def
  parallel_invoke_helper_def run_and_finish_def add_children1_def add_children2_def
  add_children3_def task_spawn_def t_debug_task_spawn_def



section \<open>What the detector sees\<close>

text \<open>
  The calls of the library made by a child on thread \<open>p\<close>: a \<open>function_invoker\<close> is a plain TBB
  task and makes none around its function (\<open>body\<close>); a \<open>spawner\<close> opens and closes the task of
  its own number \<open>k\<close>, which only the wrapper's \<open>spawn\<close> sets, and here runs its children itself,
  the last spawned first, as TBB does when nothing is stolen.
\<close>

fun child_calls :: "nat \<Rightarrow> nat \<Rightarrow> ('f \<Rightarrow> call list) \<Rightarrow> 'f invoke_child \<Rightarrow> call list" where
  "child_calls p k body (function_invoker f) = body f"
| "child_calls p k body (spawner fs) =
     Begin p k # concat (map (\<lambda>_. [Spawn p]) fs) @ concat (map body (hd fs # rev (tl fs))) @ [Wait p, End p k]"

definition announce_calls :: "nat \<Rightarrow> 'f invoke_child \<times> bool \<Rightarrow> call list" where
  "announce_calls p c = (if snd c then [Spawn p] else [])"

text \<open>
  C34. With up to four functions \<open>parallel_invoke\<close> announces nothing: all its functions run
  without a call of the library around them. With five, neither of its two spawners is
  announced, and one that opens its task, whose number was never set, ends the program with
  the exception of \<open>std::map::at\<close> unless that number happens to be waiting.
\<close>

theorem parallel_invoke_unannounced:
  "(\<forall>r. 2 \<le> length fs \<and> length fs \<le> 4 \<and> parallel_invoke fs = Some r \<longrightarrow>
     (\<forall>c \<in> set (children r). announce_calls p c = [] \<and> child_calls p k body (fst c) = body (hd (invoked (fst c))))) \<and>
   (\<forall>r s. length fs = 5 \<and> parallel_invoke fs = Some r \<and> temp_cur_map (taskGraph (det s)) k = None \<longrightarrow>
     (\<exists>c \<in> set (children r). announce_calls p c = [] \<and>
        run (child_calls p k body (fst c)) s = Inl KeyMissing))"
proof (intro conjI allI impI)
  fix r
  assume a: "2 \<le> length fs \<and> length fs \<le> 4 \<and> parallel_invoke fs = Some r"
  then have "length fs \<in> {2, 3, 4}" by auto
  with a show "\<forall>c \<in> set (children r). announce_calls p c = [] \<and>
      child_calls p k body (fst c) = body (hd (invoked (fst c)))"
    by (auto simp: numeral_eq_Suc length_Suc_conv invoke_defs announce_calls_def)
next
  fix r and s :: runtime
  assume a: "length fs = 5 \<and> parallel_invoke fs = Some r \<and> temp_cur_map (taskGraph (det s)) k = None"
  then obtain f0 f1 f2 f3 f4 where "fs = [f0, f1, f2, f3, f4]"
    by (auto simp: numeral_eq_Suc length_Suc_conv)
  with a have "(spawner [f4, f3], False) \<in> set (children r)" by (auto simp: invoke_defs)
  moreover have "run (child_calls p k body (spawner [f4, f3])) s = Inl KeyMissing"
    using begin_unannounced[of s k p] a by simp
  ultimately show "\<exists>c \<in> set (children r). announce_calls p c = [] \<and>
        run (child_calls p k body (fst c)) s = Inl KeyMissing"
    by (intro bexI[of _ "(spawner [f4, f3], False)"]) (simp_all add: announce_calls_def)
qed

lemma parallel_invoke_unannounced_witness:
  "\<exists>c \<in> set (children (the (parallel_invoke [1, 2, 3, 4, 5 :: nat]))).
     run (child_calls 0 77 (\<lambda>_. []) (fst c))
       (start \<lparr>taskGraph = empty_graph 4096 (\<lambda>_. []), lock_tab = new_lock_table, thd_lockset = (\<lambda>_. []),
         shadow_space = (\<lambda>_. None), page_mapped = (\<lambda>_. True), all_violations = Map.empty\<rparr>) = Inl KeyMissing"
proof -
  let ?s = "start \<lparr>taskGraph = empty_graph 4096 (\<lambda>_. []), lock_tab = new_lock_table, thd_lockset = (\<lambda>_. []),
         shadow_space = (\<lambda>_. None), page_mapped = (\<lambda>_. True), all_violations = Map.empty\<rparr>"
  have "temp_cur_map (taskGraph (det ?s)) 77 = None" by (simp add: start_def empty_graph_def)
  moreover obtain r where "parallel_invoke [1, 2, 3, 4, 5 :: nat] = Some r" by (simp add: invoke_defs)
  ultimately show ?thesis
    using parallel_invoke_unannounced[of "[1, 2, 3, 4, 5 :: nat]" 0 77 "\<lambda>_. []"] by auto
qed

end
