(* ===== verification/Clang_Types.thy ===== *)
theory Clang_Types
  imports Llvm_IR
begin

text \<open>
  The annotated types the modified clang adds (\<open>AnnotatedType\<close> in \<open>AST/Type.h\<close>, made by
  \<open>ASTContext::getAnnotatedType\<close> and the attribute \<open>type_annotate\<close>), how they are written to
  and read from a precompiled header, rebuilt in templates, and turned into the \<open>tyann\<close>
  metadata the instrumentation passes look for (\<open>CGTypeAnnotation.cpp\<close>).

  Of clang's types only those the annotator tells apart are here; qualifiers such as \<open>const\<close>
  are left out, because every function below keeps them and looks past them. A \<open>QualType\<close> that
  may be null is an option. Nodes are unique per base type and annotation (\<open>FoldingSet\<close>), so
  comparing them is comparing values.
\<close>

datatype ctype =
    BuiltinType string
  | PointerType ctype
  | ReferenceType ctype
  | TypedefType string ctype
  | AnnotatedType ctype string

type_synonym qual_type = "ctype option"

fun getSingleStepDesugaredType :: "ctype \<Rightarrow> ctype" where
  "getSingleStepDesugaredType (TypedefType n t) = t"
| "getSingleStepDesugaredType (AnnotatedType t a) = t"
| "getSingleStepDesugaredType t = t"

fun getCanonicalType :: "ctype \<Rightarrow> ctype" where
  "getCanonicalType (BuiltinType n) = BuiltinType n"
| "getCanonicalType (PointerType t) = PointerType (getCanonicalType t)"
| "getCanonicalType (ReferenceType t) = ReferenceType (getCanonicalType t)"
| "getCanonicalType (TypedefType n t) = getCanonicalType t"
| "getCanonicalType (AnnotatedType t a) = getCanonicalType t"

definition getAnnotatedType :: "ctype \<Rightarrow> string \<Rightarrow> ctype" where
  "getAnnotatedType T A = AnnotatedType T A"

fun isPointerType :: "ctype \<Rightarrow> bool" where
  "isPointerType t = (case getCanonicalType t of PointerType _ \<Rightarrow> True | _ \<Rightarrow> False)"

fun isReferenceType :: "ctype \<Rightarrow> bool" where
  "isReferenceType t = (case getCanonicalType t of ReferenceType _ \<Rightarrow> True | _ \<Rightarrow> False)"

text \<open>The pointee of \<open>getAs<PointerType>()\<close> and of \<open>getAs<ReferenceType>()\<close>, past the sugar.\<close>

fun getAsPointer :: "ctype \<Rightarrow> ctype option" where
  "getAsPointer (PointerType t) = Some t"
| "getAsPointer (TypedefType n t) = getAsPointer t"
| "getAsPointer (AnnotatedType t a) = getAsPointer t"
| "getAsPointer t = None"

fun getAsReference :: "ctype \<Rightarrow> ctype option" where
  "getAsReference (ReferenceType t) = Some t"
| "getAsReference (TypedefType n t) = getAsReference t"
| "getAsReference (AnnotatedType t a) = getAsReference t"
| "getAsReference t = None"

lemma getSingleStep_canonical [simp]:
  "getCanonicalType (getSingleStepDesugaredType t) = getCanonicalType t"
  by (cases t) simp_all

lemma getSingleStep_size: "getSingleStepDesugaredType t \<noteq> t \<Longrightarrow> size (getSingleStepDesugaredType t) < size t"
  by (cases t) simp_all

lemma getAsPointer_size: "getAsPointer t = Some p \<Longrightarrow> size p < size t"
  by (induction t) auto

lemma getAsPointer_canonical: "getAsPointer t = Some p \<Longrightarrow> getCanonicalType t = PointerType (getCanonicalType p)"
  by (induction t) auto

lemma getAsPointer_None: "getAsPointer t = None \<longleftrightarrow> \<not> isPointerType t"
  by (induction t) auto

lemma getAsReference_None: "getAsReference t = None \<longleftrightarrow> \<not> isReferenceType t"
  by (induction t) auto

section \<open>The attribute\<close>

datatype attr_arg = StringArg bool string | OtherArg

datatype attr_error = wrong_number_arguments | argument_type

record attr_result =
  at_type :: ctype
  at_diags :: "attr_error list"
  at_invalid :: bool

text \<open>\<open>StringArg wide s\<close> is a string literal; only the first diagnosis marks the attribute invalid.\<close>

definition HandleTypeAnnotateAttr :: "ctype \<Rightarrow> attr_arg list \<Rightarrow> attr_result" where
  "HandleTypeAnnotateAttr CurType args =
     (if length args \<noteq> 1
      then \<lparr>at_type = CurType, at_diags = [wrong_number_arguments], at_invalid = True\<rparr>
      else case args ! 0 of
        StringArg wide s \<Rightarrow>
          if wide then \<lparr>at_type = CurType, at_diags = [argument_type], at_invalid = False\<rparr>
          else \<lparr>at_type = getAnnotatedType CurType s, at_diags = [], at_invalid = False\<rparr>
      | OtherArg \<Rightarrow> \<lparr>at_type = CurType, at_diags = [argument_type], at_invalid = False\<rparr>)"

text \<open>
  The location of the annotation (\<open>fillAnnotatedTypeLoc\<close>) is that of the literal, here its
  text; the function asserts what the handler only diagnoses.
\<close>

definition fillAnnotatedTypeLoc :: "attr_arg list \<Rightarrow> string result" where
  "fillAnnotatedTypeLoc args =
     assert_r (length args = 1) AssertFail
       (case args ! 0 of StringArg wide s \<Rightarrow> Inr s | OtherArg \<Rightarrow> Inl AssertFail)"

text \<open>
  \<open>TransformAnnotatedType\<close>: the base type of a pattern is transformed (\<open>f\<close>, which may fail),
  and the annotation is put back on it when it changed.
\<close>

definition TransformAnnotatedType :: "(ctype \<Rightarrow> qual_type) \<Rightarrow> bool \<Rightarrow> ctype \<Rightarrow> string \<Rightarrow> qual_type" where
  "TransformAnnotatedType f AlwaysRebuild oldBase ann =
     (case f oldBase of
        None \<Rightarrow> None
      | Some BaseType \<Rightarrow>
          if AlwaysRebuild \<or> BaseType \<noteq> oldBase then Some (getAnnotatedType BaseType ann)
          else Some (AnnotatedType oldBase ann))"

section \<open>Precompiled headers\<close>

type_synonym u64 = "64 word"

datatype read_error = IncorrectEncoding | PastEnd

text \<open>A \<open>char\<close> is signed; it is sign-extended into the record and truncated on the way back.\<close>

definition char_code :: "char \<Rightarrow> u64" where
  "char_code c = scast (word_of_nat (of_char c) :: 8 word)"

definition code_char :: "u64 \<Rightarrow> char" where
  "code_char w = char_of (unat (ucast w :: 8 word))"

definition AddString :: "string \<Rightarrow> u64 list \<Rightarrow> u64 list" where
  "AddString s record1 = record1 @ [word_of_nat (length s)] @ map char_code s"

definition VisitAnnotatedType :: "u64 \<Rightarrow> string \<Rightarrow> u64 list" where
  "VisitAnnotatedType base_id ann = AddString ann ([] @ [base_id])"

definition ReadString :: "u64 list \<Rightarrow> nat \<Rightarrow> read_error + (string \<times> nat)" where
  "ReadString record1 idx =
     (if idx < length record1 then
        let len = unat (ucast (record1 ! idx) :: 32 word); i = idx + 1 in
        if i + len \<le> length record1
        then Inr (map code_char (take len (drop i record1)), i + len)
        else Inl PastEnd
      else Inl PastEnd)"

text \<open>\<open>lookup\<close> is the type an identifier of the file stands for (\<open>readType\<close>).\<close>

definition read_annotated :: "(u64 \<Rightarrow> ctype) \<Rightarrow> u64 list \<Rightarrow> read_error + ctype" where
  "read_annotated lookup record1 =
     (if length record1 \<noteq> 2 then Inl IncorrectEncoding
      else case ReadString record1 1 of
        Inl e \<Rightarrow> Inl e
      | Inr (ann, idx) \<Rightarrow> Inr (getAnnotatedType (lookup (record1 ! 0)) ann))"

lemma code_char_code [simp]: "code_char (char_code c) = c"
proof -
  have "(ucast (scast w :: 64 word) :: 8 word) = w" for w :: "8 word"
    by (rule bit_word_eqI) (auto simp: bit_ucast_iff bit_word_scast_iff)
  moreover have "unat (word_of_nat (of_char c) :: 8 word) = of_char c"
  proof -
    have "(of_char c :: nat) < 256" by simp
    then show ?thesis by (simp add: unsigned_of_nat take_bit_nat_eq_self)
  qed
  ultimately show ?thesis by (simp add: code_char_def char_code_def)
qed

text \<open>
  C37. What is written of a string in a precompiled header reads back as the string; but the
  record of an annotated type, which holds one, is rejected by its reader unless the annotation
  is empty: the reader asks for two fields where the writer makes two and one per character.
\<close>

theorem annotated_type_not_reread:
  assumes "length ann < 2 ^ 32"
  shows "ReadString (VisitAnnotatedType base_id ann) 1 =
      Inr (ann, length (VisitAnnotatedType base_id ann)) \<and>
    read_annotated lookup (VisitAnnotatedType base_id ann) =
      (if ann = [] then Inr (AnnotatedType (lookup base_id) []) else Inl IncorrectEncoding)"
proof (intro conjI)
  have "unat (ucast (word_of_nat (length ann) :: u64) :: 32 word) = length ann"
    using assms by (simp add: unsigned_ucast_eq unsigned_of_nat take_bit_nat_eq_self)
  then show r: "ReadString (VisitAnnotatedType base_id ann) 1 =
      Inr (ann, length (VisitAnnotatedType base_id ann))"
    by (simp add: ReadString_def VisitAnnotatedType_def AddString_def Let_def comp_def)
  show "read_annotated lookup (VisitAnnotatedType base_id ann) =
      (if ann = [] then Inr (AnnotatedType (lookup base_id) []) else Inl IncorrectEncoding)"
  proof (cases "ann = []")
    case True
    with r have "ReadString (VisitAnnotatedType base_id []) 1 = Inr ([], 2)"
      by (simp add: VisitAnnotatedType_def AddString_def)
    then show ?thesis using True
      by (simp add: read_annotated_def VisitAnnotatedType_def AddString_def getAnnotatedType_def)
  next
    case False
    then show ?thesis by (simp add: read_annotated_def VisitAnnotatedType_def AddString_def)
  qed
qed

lemma annotated_type_not_reread_witness:
  "read_annotated (\<lambda>_. BuiltinType ''int'') (VisitAnnotatedType 7 ''check_av'') = Inl IncorrectEncoding"
  using annotated_type_not_reread[of "''check_av''" 7 "\<lambda>_. BuiltinType ''int''"] by simp

section \<open>Metadata\<close>

definition TADecorate_inst :: "inst option \<Rightarrow> ctype \<Rightarrow> 8 word \<Rightarrow> inst option" where
  "TADecorate_inst Inst Ty level =
     (case Inst of
        None \<Rightarrow> None
      | Some i \<Rightarrow> Some (case Ty of AnnotatedType t Ann \<Rightarrow> i\<lparr>i_tyann := Some (Ann, level)\<rparr> | _ \<Rightarrow> i))"

text \<open>A value is an instruction (\<open>Inl\<close>) or something else, which is left alone.\<close>

definition TADecorate_val :: "(inst + 'v) option \<Rightarrow> ctype \<Rightarrow> 8 word \<Rightarrow> (inst + 'v) option" where
  "TADecorate_val V Ty level =
     (case V of
        None \<Rightarrow> None
      | Some (Inl i) \<Rightarrow> map_option Inl (TADecorate_inst (Some i) Ty level)
      | Some (Inr v) \<Rightarrow> Some (Inr v))"

text \<open>
  The accesses through a local variable are watched exactly when the declared type is an
  annotated type at its very top: an annotation inside a \<open>typedef\<close> is lost.
\<close>

theorem variable_watched:
  assumes "i_opcode a = Op_Alloca" and "i_tyann a = None"
    and "TADecorate_inst (Some a) Ty 1 = Some a'"
  shows "(hasAnnotation i (as_val a') ''check_av'' 1 \<longleftrightarrow> (\<exists>t. Ty = AnnotatedType t ''check_av'')) \<and>
    \<not> hasAnnotation i (as_val (the (TADecorate_inst (Some a) (TypedefType n Ty) 1))) ''check_av'' 1"
  using assms
  by (auto simp: TADecorate_inst_def hasAnnotation_def as_val_def split: ctype.splits)

lemma variable_watched_witness:
  "hasAnnotation (new_inst 1 Op_Load None []) (as_val ((new_inst 0 Op_Alloca None [])\<lparr>i_tyann := Some (''check_av'', 1)\<rparr>))
     ''check_av'' 1"
proof -
  let ?a = "new_inst 0 Op_Alloca None []"
  have "TADecorate_inst (Some ?a) (AnnotatedType (BuiltinType ''int'') ''check_av'') 1 =
      Some (?a\<lparr>i_tyann := Some (''check_av'', 1)\<rparr>)" by (simp add: TADecorate_inst_def)
  from variable_watched[OF _ _ this] show ?thesis by (simp add: new_inst_def)
qed

end
