(* ===== verification/Annotator.thy ===== *)
theory Annotator
  imports Clang_Types
begin

text \<open>
  The type annotator (\<open>TypeAnnotations.h\<close>): the rules that give annotations to expressions and
  check that they are compatible (\<open>Annotator\<close>), the bottom-up traversal (\<open>TAVisitor\<close>) and
  the consumer that runs it over a file (\<open>TAConsumer\<close>). What a subclass overrides is the
  record \<open>annotator\<close>. Clang's syntax tree is reduced to the statements the rules read; the
  expressions without a rule of their own are \<open>PlainExpr\<close>.
\<close>

record annotator =
  ImplicitAnnotation :: "qual_type \<Rightarrow> string"
  Compatible :: "qual_type \<Rightarrow> qual_type \<Rightarrow> bool"

definition default_annotator :: annotator where
  "default_annotator = \<lparr>ImplicitAnnotation = (\<lambda>QT. ''''), Compatible = (\<lambda>LTy RTy. True)\<rparr>"

section \<open>Looking annotations up\<close>

fun AnnotationOf_Type :: "ctype \<Rightarrow> string" where
  "AnnotationOf_Type (AnnotatedType t a) = a"
| "AnnotationOf_Type t = ''''"

function desugar_annotation :: "ctype \<Rightarrow> string" where
  "desugar_annotation QT =
     (let Ann = AnnotationOf_Type QT in
      if Ann \<noteq> [] then Ann
      else let DT = getSingleStepDesugaredType QT in
           if DT = QT then '''' else desugar_annotation DT)"
  by pat_completeness auto

termination
  by (relation "measure size") (auto dest: getSingleStep_size)

declare desugar_annotation.simps [simp del]

definition AnnotationOf :: "annotator \<Rightarrow> qual_type \<Rightarrow> string" where
  "AnnotationOf an QT =
     (let ImplicitAnn = ImplicitAnnotation an QT in
      if ImplicitAnn \<noteq> [] then ImplicitAnn
      else case QT of None \<Rightarrow> '''' | Some T \<Rightarrow> desugar_annotation T)"

section \<open>Pointers\<close>

definition UnwrapSimilarPointerTypes :: "ctype \<Rightarrow> ctype \<Rightarrow> (ctype \<times> ctype) option" where
  "UnwrapSimilarPointerTypes T1 T2 =
     (case (getAsPointer T1, getAsPointer T2) of (Some P1, Some P2) \<Rightarrow> Some (P1, P2) | _ \<Rightarrow> None)"

lemma Unwrap_size: "UnwrapSimilarPointerTypes T1 T2 = Some (P1, P2) \<Longrightarrow> size P1 < size T1"
  by (auto simp: UnwrapSimilarPointerTypes_def split: option.splits dest: getAsPointer_size)

function same_below :: "annotator \<Rightarrow> ctype \<Rightarrow> ctype \<Rightarrow> bool" where
  "same_below an T1 T2 =
     (case UnwrapSimilarPointerTypes T1 T2 of
        None \<Rightarrow> True
      | Some (P1, P2) \<Rightarrow>
          if AnnotationOf an (Some P1) \<noteq> AnnotationOf an (Some P2) then False
          else same_below an P1 P2)"
  by pat_completeness auto

termination
  by (relation "measure (\<lambda>(an, T1, T2). size T1)") (auto dest: Unwrap_size)

declare same_below.simps [simp del]

definition SamePointerTypeAnnotations :: "annotator \<Rightarrow> ctype \<Rightarrow> ctype \<Rightarrow> bool \<Rightarrow> bool" where
  "SamePointerTypeAnnotations an T1 T2 outer =
     (if outer \<and> AnnotationOf an (Some T1) \<noteq> AnnotationOf an (Some T2) then False
      else same_below an T1 T2)"

definition CheckPointerInvariance :: "annotator \<Rightarrow> ctype \<Rightarrow> ctype \<Rightarrow> bool" where
  "CheckPointerInvariance an LTy RTy =
     (if isReferenceType LTy \<and> \<not> isReferenceType RTy
      then SamePointerTypeAnnotations an (the (getAsReference LTy)) RTy True
      else if isPointerType LTy \<and> isPointerType RTy
      then SamePointerTypeAnnotations an LTy RTy False
      else True)"

text \<open>The annotations at each level of indirection, the outermost first.\<close>

function levels :: "annotator \<Rightarrow> ctype \<Rightarrow> string list" where
  "levels an T =
     AnnotationOf an (Some T) # (case getAsPointer T of None \<Rightarrow> [] | Some P \<Rightarrow> levels an P)"
  by pat_completeness auto

termination
  by (relation "measure (\<lambda>(an, T). size T)") (auto dest: getAsPointer_size)

declare levels.simps [simp del]

fun agree :: "string list \<Rightarrow> string list \<Rightarrow> bool" where
  "agree (x # xs) (y # ys) = (x = y \<and> agree xs ys)"
| "agree xs ys = True"

lemma same_below_levels: "same_below an T1 T2 = agree (tl (levels an T1)) (tl (levels an T2))"
proof (induction an T1 T2 rule: same_below.induct)
  case (1 an T1 T2)
  show ?case
  proof (cases "UnwrapSimilarPointerTypes T1 T2")
    case None
    then have "getAsPointer T1 = None \<or> getAsPointer T2 = None"
      by (auto simp: UnwrapSimilarPointerTypes_def split: option.splits)
    then have "tl (levels an T1) = [] \<or> tl (levels an T2) = []" by (auto simp: levels.simps[of an])
    then show ?thesis using None by (subst same_below.simps) (auto elim: agree.elims)
  next
    case (Some q)
    then obtain P1 P2 where p: "getAsPointer T1 = Some P1" "getAsPointer T2 = Some P2" "q = (P1, P2)"
      by (auto simp: UnwrapSimilarPointerTypes_def split: option.splits)
    have t: "tl (levels an T1) = levels an P1" "tl (levels an T2) = levels an P2"
      using p by (simp_all add: levels.simps[of an T1] levels.simps[of an T2])
    have h: "levels an P = AnnotationOf an (Some P) # tl (levels an P)" for P
      by (simp add: levels.simps[of an P])
    have "agree (levels an P1) (levels an P2) =
        (AnnotationOf an (Some P1) = AnnotationOf an (Some P2) \<and> agree (tl (levels an P1)) (tl (levels an P2)))"
      by (subst (1 2) h) simp
    then show ?thesis using 1 Some p unfolding t by (subst same_below.simps) auto
  qed
qed

text \<open>
  The pointer check compares the annotations of the two types level by level, as deep as
  both are pointers: two types pass exactly when their lists of annotations agree there.
\<close>

theorem SamePointer_levels:
  "SamePointerTypeAnnotations an T1 T2 True = agree (levels an T1) (levels an T2) \<and>
   SamePointerTypeAnnotations an T1 T2 False = agree (tl (levels an T1)) (tl (levels an T2))"
proof (intro conjI)
  have h: "levels an P = AnnotationOf an (Some P) # tl (levels an P)" for P
    by (simp add: levels.simps[of an P])
  have "agree (levels an T1) (levels an T2) =
      (AnnotationOf an (Some T1) = AnnotationOf an (Some T2) \<and> agree (tl (levels an T1)) (tl (levels an T2)))"
    by (subst (1 2) h) simp
  then show "SamePointerTypeAnnotations an T1 T2 True = agree (levels an T1) (levels an T2)"
    by (auto simp: SamePointerTypeAnnotations_def same_below_levels)
  show "SamePointerTypeAnnotations an T1 T2 False = agree (tl (levels an T1)) (tl (levels an T2))"
    by (simp add: SamePointerTypeAnnotations_def same_below_levels)
qed

end
