(* ===== verification/Annotator_Visit.thy ===== *)
theory Annotator_Visit
  imports Annotator
begin

text \<open>
  The typing rules of the annotator and the traversal (\<open>TypeAnnotations.h\<close>, from
  \<open>AddAnnotation\<close> and \<open>VisitBinAssign\<close> on). An expression holds its type and its children;
  the children of a call are the callee and the arguments.
\<close>

datatype fsig = FSig (ret_type: ctype) (param_types: "ctype list")

datatype ekind =
    PlainExpr
  | BinAssign
  | CompoundAssignOperator
  | ImplicitCastExpr
  | MaterializeTemporaryExpr
  | CallExpr "fsig option"
  | CXXMemberCallExpr "fsig option"
  | CXXOperatorCallExpr "fsig option"

text \<open>
  The flag of a declaration says that it is located in a system header. The return value of a
  \<open>ReturnStmt\<close> and the initialiser of a variable are lists of at most one expression.
\<close>

datatype stmt =
    Expr ekind ctype "stmt list"
  | DeclStmt "decl list"
  | ReturnStmt "stmt list"
  | OtherStmt "stmt list"
and decl =
    VarDecl bool ctype "stmt list"
  | FunctionDecl bool fsig "stmt list"
  | OtherDecl bool "decl list"

datatype diag = incompatible string string

text \<open>What the visitor changes: \<open>CurFunc\<close>, and the errors reported so far.\<close>

record visitor =
  CurFunc :: "fsig option"
  diags :: "diag list"

section \<open>Assigning annotations\<close>

fun getType :: "stmt \<Rightarrow> qual_type" where
  "getType (Expr k T cs) = Some T"
| "getType S = None"

fun setType :: "ctype \<Rightarrow> stmt \<Rightarrow> stmt" where
  "setType T (Expr k T0 cs) = Expr k T cs"
| "setType T S = S"

definition AddAnnotation :: "stmt \<Rightarrow> string \<Rightarrow> stmt" where
  "AddAnnotation E A =
     (if A \<noteq> [] then (case getType E of None \<Rightarrow> E | Some T \<Rightarrow> setType (getAnnotatedType T A) E) else E)"

definition RemoveAnnotation :: "stmt \<Rightarrow> stmt" where
  "RemoveAnnotation E =
     (case getType E of Some (AnnotatedType T a) \<Rightarrow> setType T E | _ \<Rightarrow> E)"

definition AnnotationOf_Expr :: "annotator \<Rightarrow> stmt option \<Rightarrow> string" where
  "AnnotationOf_Expr an E = (case E of None \<Rightarrow> '''' | Some e \<Rightarrow> AnnotationOf an (getType e))"

definition AnnotationOf_Decl :: "annotator \<Rightarrow> ctype option \<Rightarrow> string" where
  "AnnotationOf_Decl an D = (case D of None \<Rightarrow> '''' | Some T \<Rightarrow> AnnotationOf an (Some T))"

section \<open>Checking\<close>

definition EmitIncompatibleError :: "annotator \<Rightarrow> qual_type \<Rightarrow> qual_type \<Rightarrow> diag" where
  "EmitIncompatibleError an LTy RTy =
     (let LAnn = AnnotationOf an LTy; RAnn = AnnotationOf an RTy in
      incompatible (if RAnn \<noteq> [] then RAnn else ''unannotated'')
        (if LAnn \<noteq> [] then LAnn else ''unannotated''))"

definition AssertCompatible :: "annotator \<Rightarrow> qual_type \<Rightarrow> qual_type \<Rightarrow> diag list" where
  "AssertCompatible an LTy RTy =
     (if \<not> Compatible an LTy RTy then [EmitIncompatibleError an LTy RTy] else [])"

definition child :: "nat \<Rightarrow> stmt list \<Rightarrow> qual_type" where
  "child k cs = (if k < length cs then getType (cs ! k) else None)"

definition visit_assign :: "annotator \<Rightarrow> stmt \<Rightarrow> stmt list \<Rightarrow> stmt \<times> diag list" where
  "visit_assign an E cs =
     (AddAnnotation E (AnnotationOf an (child 0 cs)), AssertCompatible an (child 0 cs) (child 1 cs))"

definition visit_initializers :: "annotator \<Rightarrow> decl list \<Rightarrow> diag list" where
  "visit_initializers an ds =
     concat (map (\<lambda>d. case d of
       VarDecl sys T (Init # _) \<Rightarrow> AssertCompatible an (Some T) (getType Init)
     | _ \<Rightarrow> []) ds)"

definition visit_transparent :: "annotator \<Rightarrow> stmt \<Rightarrow> stmt list \<Rightarrow> stmt" where
  "visit_transparent an E cs = AddAnnotation E (AnnotationOf an (child 0 cs))"

definition visitCall :: "annotator \<Rightarrow> stmt \<Rightarrow> fsig option \<Rightarrow> stmt list \<Rightarrow> stmt \<times> diag list" where
  "visitCall an E callee cs =
     (case callee of
        None \<Rightarrow> (E, [])
      | Some D \<Rightarrow>
          (AddAnnotation E (AnnotationOf an (Some (ret_type D))),
           if length (param_types D) = length (tl cs)
           then concat (map (\<lambda>(p, a). AssertCompatible an (Some p) (getType a)) (zip (param_types D) (tl cs)))
           else []))"

definition VisitReturnStmt :: "annotator \<Rightarrow> fsig option \<Rightarrow> stmt list \<Rightarrow> diag list result" where
  "VisitReturnStmt an F es =
     (case es of
        [] \<Rightarrow> Inr []
      | E # _ \<Rightarrow> (case F of
          None \<Rightarrow> Inl AssertFail
        | Some D \<Rightarrow> Inr (AssertCompatible an (Some (ret_type D)) (getType E))))"

text \<open>The rule for a statement, by its class.\<close>

fun Visit :: "annotator \<Rightarrow> fsig option \<Rightarrow> stmt \<Rightarrow> (stmt \<times> diag list) result" where
  "Visit an F (Expr BinAssign T cs) = Inr (visit_assign an (Expr BinAssign T cs) cs)"
| "Visit an F (Expr CompoundAssignOperator T cs) =
     Inr (visit_assign an (Expr CompoundAssignOperator T cs) cs)"
| "Visit an F (Expr ImplicitCastExpr T cs) =
     Inr (visit_transparent an (Expr ImplicitCastExpr T cs) cs, [])"
| "Visit an F (Expr MaterializeTemporaryExpr T cs) =
     Inr (visit_transparent an (Expr MaterializeTemporaryExpr T cs) cs, [])"
| "Visit an F (Expr (CallExpr f) T cs) = Inr (visitCall an (Expr (CallExpr f) T cs) f cs)"
| "Visit an F (Expr (CXXMemberCallExpr f) T cs) =
     Inr (visitCall an (Expr (CXXMemberCallExpr f) T cs) f cs)"
| "Visit an F (Expr (CXXOperatorCallExpr f) T cs) =
     Inr (visitCall an (Expr (CXXOperatorCallExpr f) T cs) f cs)"
| "Visit an F (Expr PlainExpr T cs) = Inr (Expr PlainExpr T cs, [])"
| "Visit an F (DeclStmt ds) = Inr (DeclStmt ds, visit_initializers an ds)"
| "Visit an F (ReturnStmt es) = bind_r (VisitReturnStmt an F es) (\<lambda>es2. Inr (ReturnStmt es, es2))"
| "Visit an F (OtherStmt ss) = Inr (OtherStmt ss, [])"

section \<open>The traversal\<close>

text \<open>The rule is applied to a statement after its children have been traversed.\<close>

definition visit_after ::
    "annotator \<Rightarrow> stmt \<Rightarrow> visitor \<Rightarrow> (stmt \<times> visitor) result" where
  "visit_after an S v =
     bind_r (Visit an (CurFunc v) S) (\<lambda>(S1, es). Inr (S1, v\<lparr>diags := diags v @ es\<rparr>))"

definition set_func :: "fsig option \<Rightarrow> visitor \<Rightarrow> visitor" where
  "set_func F v = v\<lparr>CurFunc := F\<rparr>"

fun TraverseStmt :: "annotator \<Rightarrow> bool \<Rightarrow> stmt \<Rightarrow> visitor \<Rightarrow> (stmt \<times> visitor) result"
  and TraverseStmts :: "annotator \<Rightarrow> bool \<Rightarrow> stmt list \<Rightarrow> visitor \<Rightarrow> (stmt list \<times> visitor) result"
  and TraverseDecl :: "annotator \<Rightarrow> bool \<Rightarrow> decl \<Rightarrow> visitor \<Rightarrow> (decl \<times> visitor) result"
  and TraverseDecls :: "annotator \<Rightarrow> bool \<Rightarrow> decl list \<Rightarrow> visitor \<Rightarrow> (decl list \<times> visitor) result"
where
  "TraverseStmt an skip (Expr k T cs) v =
     bind_r (TraverseStmts an skip cs v) (\<lambda>(cs1, v1). visit_after an (Expr k T cs1) v1)"
| "TraverseStmt an skip (DeclStmt ds) v =
     bind_r (TraverseDecls an skip ds v) (\<lambda>(ds1, v1). visit_after an (DeclStmt ds1) v1)"
| "TraverseStmt an skip (ReturnStmt es) v =
     bind_r (TraverseStmts an skip es v) (\<lambda>(es1, v1). visit_after an (ReturnStmt es1) v1)"
| "TraverseStmt an skip (OtherStmt ss) v =
     bind_r (TraverseStmts an skip ss v) (\<lambda>(ss1, v1). visit_after an (OtherStmt ss1) v1)"
| "TraverseStmts an skip [] v = Inr ([], v)"
| "TraverseStmts an skip (s # ss) v =
     bind_r (TraverseStmt an skip s v) (\<lambda>(s1, v1).
     bind_r (TraverseStmts an skip ss v1) (\<lambda>(ss1, v2). Inr (s1 # ss1, v2)))"
| "TraverseDecl an skip (VarDecl sys T Init) v =
     (if skip \<and> sys then Inr (VarDecl sys T Init, v)
      else bind_r (TraverseStmts an skip Init v) (\<lambda>(Init1, v1). Inr (VarDecl sys T Init1, v1)))"
| "TraverseDecl an skip (FunctionDecl sys f body) v =
     (if skip \<and> sys then Inr (FunctionDecl sys f body, v)
      else bind_r (TraverseStmts an skip body (set_func (Some f) v)) (\<lambda>(body1, v1).
             Inr (FunctionDecl sys f body1, set_func None v1)))"
| "TraverseDecl an skip (OtherDecl sys ds) v =
     (if skip \<and> sys then Inr (OtherDecl sys ds, v)
      else bind_r (TraverseDecls an skip ds v) (\<lambda>(ds1, v1). Inr (OtherDecl sys ds1, v1)))"
| "TraverseDecls an skip [] v = Inr ([], v)"
| "TraverseDecls an skip (d # ds) v =
     bind_r (TraverseDecl an skip d v) (\<lambda>(d1, v1).
     bind_r (TraverseDecls an skip ds v1) (\<lambda>(ds1, v2). Inr (d1 # ds1, v2)))"

section \<open>The consumer\<close>

text \<open>
  \<open>Initialize\<close> moves this consumer to the front; \<open>*it\<close> at the end of the vector is the fault
  \<open>OutOfBounds\<close>. \<open>HandleTopLevelDecl\<close> traverses each declaration of a group.
\<close>

definition consumers_with_this_first :: "'c \<Rightarrow> 'c list \<Rightarrow> 'c list result" where
  "consumers_with_this_first this Consumers =
     (if this \<in> set Consumers then Inr (this # remove1 this Consumers) else Inl OutOfBounds)"

definition TAConsumer_Initialize :: "bool \<Rightarrow> 'c \<Rightarrow> 'c list \<Rightarrow> 'c list result" where
  "TAConsumer_Initialize Instrument this Consumers =
     (if Instrument then consumers_with_this_first this Consumers else Inr Consumers)"

definition HandleTopLevelDecl :: "annotator \<Rightarrow> decl list \<Rightarrow> visitor \<Rightarrow> (decl list \<times> visitor) result" where
  "HandleTopLevelDecl an DG v = TraverseDecls an True DG v"

definition new_visitor :: visitor where
  "new_visitor = \<lparr>CurFunc = None, diags = []\<rparr>"

end
