(* ===== verification/Annotator_Props.thy ===== *)
theory Annotator_Props
  imports Annotator_Visit
begin

text \<open>
  What the annotator does to a file: types change only in their annotations, what is reported
  is incompatible, annotations flow from operands to expressions, and where the record of the
  enclosing function is lost.
\<close>

section \<open>Types are kept\<close>

text \<open>A syntax tree with every type replaced by its canonical type.\<close>

fun canon_stmt :: "stmt \<Rightarrow> stmt" and canon_decl :: "decl \<Rightarrow> decl" where
  "canon_stmt (Expr k T cs) = Expr k (getCanonicalType T) (map canon_stmt cs)"
| "canon_stmt (DeclStmt ds) = DeclStmt (map canon_decl ds)"
| "canon_stmt (ReturnStmt es) = ReturnStmt (map canon_stmt es)"
| "canon_stmt (OtherStmt ss) = OtherStmt (map canon_stmt ss)"
| "canon_decl (VarDecl sys T Init) = VarDecl sys (getCanonicalType T) (map canon_stmt Init)"
| "canon_decl (FunctionDecl sys f body) = FunctionDecl sys f (map canon_stmt body)"
| "canon_decl (OtherDecl sys ds) = OtherDecl sys (map canon_decl ds)"

lemma canon_AddAnnotation [simp]: "canon_stmt (AddAnnotation E A) = canon_stmt E"
  by (cases E) (simp_all add: AddAnnotation_def getAnnotatedType_def)

lemma Visit_canon: "Visit an F S = Inr (S1, es) \<Longrightarrow> canon_stmt S1 = canon_stmt S"
  by (induction an F S rule: Visit.induct)
    (auto simp: visit_assign_def visit_transparent_def visitCall_def bind_r_Inr_iff split: option.splits)

lemma visit_after_canon: "visit_after an S v = Inr (S1, v1) \<Longrightarrow> canon_stmt S1 = canon_stmt S"
  by (auto simp: visit_after_def bind_r_Inr_iff dest: Visit_canon)

lemma Traverse_canon:
  "TraverseStmt an skip S v = Inr (S1, v1) \<Longrightarrow> canon_stmt S1 = canon_stmt S"
  "TraverseStmts an skip ss v = Inr (ss1, v1) \<Longrightarrow> map canon_stmt ss1 = map canon_stmt ss"
  "TraverseDecl an skip d v = Inr (d1, v1) \<Longrightarrow> canon_decl d1 = canon_decl d"
  "TraverseDecls an skip ds v = Inr (ds1, v1) \<Longrightarrow> map canon_decl ds1 = map canon_decl ds"
  by (induction an skip S v and an skip ss v and an skip d v and an skip ds v
      arbitrary: S1 v1 and ss1 v1 and d1 v1 and ds1 v1
      rule: TraverseStmt_TraverseStmts_TraverseDecl_TraverseDecls.induct)
    (auto simp: bind_r_Inr_iff split: if_splits dest!: visit_after_canon)

text \<open>
  C38. The annotator keeps the types: after it has run over the declarations of a file, every
  expression and variable has the canonical type it had, and the tree has the same shape.
\<close>

theorem annotator_keeps_types:
  assumes "HandleTopLevelDecl an DG v = Inr (DG1, v1)"
  shows "map canon_decl DG1 = map canon_decl DG"
  using assms Traverse_canon(4) unfolding HandleTopLevelDecl_def by blast

definition sample_int :: ctype where
  "sample_int = BuiltinType ''int''"

text \<open>\<open>int CHECK_AV x; ... x = 1;\<close> in a function.\<close>

definition sample_decls :: "decl list" where
  "sample_decls = [FunctionDecl False (FSig sample_int [])
     [OtherStmt [Expr BinAssign sample_int
        [Expr PlainExpr (AnnotatedType sample_int ''check_av'') [], Expr PlainExpr sample_int []]]]]"

lemma sample_annotated:
  "HandleTopLevelDecl default_annotator sample_decls new_visitor =
     Inr ([FunctionDecl False (FSig sample_int [])
       [OtherStmt [Expr BinAssign (AnnotatedType sample_int ''check_av'')
          [Expr PlainExpr (AnnotatedType sample_int ''check_av'') [], Expr PlainExpr sample_int []]]]],
       new_visitor)"
  by (simp add: HandleTopLevelDecl_def sample_decls_def visit_after_def set_func_def new_visitor_def
      visit_assign_def child_def AddAnnotation_def AnnotationOf_def default_annotator_def
      desugar_annotation.simps AssertCompatible_def getAnnotatedType_def Let_def)

lemma annotator_keeps_types_witness:
  "map canon_decl [FunctionDecl False (FSig sample_int [])
     [OtherStmt [Expr BinAssign (AnnotatedType sample_int ''check_av'')
        [Expr PlainExpr (AnnotatedType sample_int ''check_av'') [], Expr PlainExpr sample_int []]]]] =
   map canon_decl sample_decls"
  by (rule annotator_keeps_types[OF sample_annotated])

section \<open>What is reported\<close>

lemma Visit_silent:
  "\<forall>L R. Compatible an L R \<Longrightarrow> Visit an F S = Inr (S1, es) \<Longrightarrow> es = []"
  by (induction an F S rule: Visit.induct)
    (auto simp: visit_assign_def visit_transparent_def visitCall_def VisitReturnStmt_def
      visit_initializers_def AssertCompatible_def bind_r_Inr_iff
      split: option.splits list.splits decl.splits if_splits)

lemma visit_after_silent:
  "\<forall>L R. Compatible an L R \<Longrightarrow> visit_after an S v = Inr (S1, v1) \<Longrightarrow> diags v1 = diags v"
  by (auto simp: visit_after_def bind_r_Inr_iff dest: Visit_silent)

text \<open>No rule of the annotator adds to the reports \<open>D\<close>.\<close>

definition reported :: "diag list \<Rightarrow> visitor \<Rightarrow> bool" where
  "reported D v \<longleftrightarrow> diags v = D"

definition silent :: "annotator \<Rightarrow> diag list \<Rightarrow> bool" where
  "silent an D \<longleftrightarrow> (\<forall>S v S1 v1. visit_after an S v = Inr (S1, v1) \<longrightarrow> reported D v \<longrightarrow> reported D v1)"

lemma reported_set_func [simp]: "reported D (set_func F v) = reported D v"
  by (simp add: reported_def set_func_def)

lemma silentD: "silent an D \<Longrightarrow> visit_after an S v = Inr (S1, v1) \<Longrightarrow> reported D v \<Longrightarrow> reported D v1"
  unfolding silent_def by blast

lemma Traverse_silent:
  "silent an D \<longrightarrow> reported D v \<longrightarrow> (\<forall>S1 v1. TraverseStmt an skip S v = Inr (S1, v1) \<longrightarrow> reported D v1)"
  "silent an D \<longrightarrow> reported D v \<longrightarrow> (\<forall>ss1 v1. TraverseStmts an skip ss v = Inr (ss1, v1) \<longrightarrow> reported D v1)"
  "silent an D \<longrightarrow> reported D v \<longrightarrow> (\<forall>d1 v1. TraverseDecl an skip d v = Inr (d1, v1) \<longrightarrow> reported D v1)"
  "silent an D \<longrightarrow> reported D v \<longrightarrow> (\<forall>ds1 v1. TraverseDecls an skip ds v = Inr (ds1, v1) \<longrightarrow> reported D v1)"
proof (induction an skip S v and an skip ss v and an skip d v and an skip ds v
      rule: TraverseStmt_TraverseStmts_TraverseDecl_TraverseDecls.induct)
  case (6 an skip s ss v)
  show ?case
  proof (intro impI allI)
    fix ss1 v1
    assume q: "silent an D" "reported D v" and t: "TraverseStmts an skip (s # ss) v = Inr (ss1, v1)"
    from t obtain s1 u ss2 where u: "TraverseStmt an skip s v = Inr (s1, u)"
      "TraverseStmts an skip ss u = Inr (ss2, v1)" by (auto simp: bind_r_Inr_iff)
    from 6(1) q u(1) have "reported D u" by blast
    with 6(2)[OF u(1) refl] q(1) u(2) show "reported D v1" by blast
  qed
next
  case (11 an skip d ds v)
  show ?case
  proof (intro impI allI)
    fix ds1 v1
    assume q: "silent an D" "reported D v" and t: "TraverseDecls an skip (d # ds) v = Inr (ds1, v1)"
    from t obtain d1 u ds2 where u: "TraverseDecl an skip d v = Inr (d1, u)"
      "TraverseDecls an skip ds u = Inr (ds2, v1)" by (auto simp: bind_r_Inr_iff)
    from 11(1) q u(1) have "reported D u" by blast
    with 11(2)[OF u(1) refl] q(1) u(2) show "reported D v1" by blast
  qed
qed (simp add: bind_r_Inr_iff split: if_splits; (blast dest: silentD | fastforce dest: silentD))+

text \<open>
  An annotator that finds all types compatible, as the default one does, reports nothing
  on any file.
\<close>

lemma compatible_is_silent:
  assumes "\<forall>L R. Compatible an L R" and "HandleTopLevelDecl an DG v = Inr (DG1, v1)"
  shows "diags v1 = diags v"
proof -
  have "silent an (diags v)"
    using visit_after_silent[OF assms(1)] unfolding silent_def reported_def by metis
  moreover have "reported (diags v) v" by (simp add: reported_def)
  ultimately have "reported (diags v) v1"
    using Traverse_silent(4) assms(2) unfolding HandleTopLevelDecl_def by blast
  then show ?thesis by (simp add: reported_def)
qed

lemma compatible_is_silent_witness: "diags new_visitor = diags new_visitor \<and> Compatible default_annotator None None"
  using compatible_is_silent[OF _ sample_annotated] by (simp add: default_annotator_def)



section \<open>The enclosing function\<close>

text \<open>Statements and declarations without a function declaration inside.\<close>

fun no_fun_stmt :: "stmt \<Rightarrow> bool" and no_fun_decl :: "decl \<Rightarrow> bool" where
  "no_fun_stmt (Expr k T cs) = list_all no_fun_stmt cs"
| "no_fun_stmt (DeclStmt ds) = list_all no_fun_decl ds"
| "no_fun_stmt (ReturnStmt es) = list_all no_fun_stmt es"
| "no_fun_stmt (OtherStmt ss) = list_all no_fun_stmt ss"
| "no_fun_decl (VarDecl sys T Init) = list_all no_fun_stmt Init"
| "no_fun_decl (FunctionDecl sys f body) = False"
| "no_fun_decl (OtherDecl sys ds) = list_all no_fun_decl ds"

lemma Visit_returns: "F \<noteq> None \<Longrightarrow> \<exists>S1 es. Visit an F S = Inr (S1, es)"
  by (induction an F S rule: Visit.induct) (auto simp: VisitReturnStmt_def split: list.splits)

lemma visit_after_returns:
  assumes "CurFunc v \<noteq> None"
  obtains S1 v1 where "visit_after an S v = Inr (S1, v1)" and "CurFunc v1 = CurFunc v"
proof -
  from Visit_returns[OF assms, of an S] obtain S1 es where "Visit an (CurFunc v) S = Inr (S1, es)" by blast
  then have "visit_after an S v = Inr (S1, v\<lparr>diags := diags v @ es\<rparr>)" by (simp add: visit_after_def)
  then show thesis by (rule that) simp
qed

definition in_function :: "fsig \<Rightarrow> ('a \<times> visitor) result \<Rightarrow> bool" where
  "in_function f m \<longleftrightarrow> (\<exists>x v. m = Inr (x, v) \<and> CurFunc v = Some f)"

lemma in_function_after: "CurFunc v = Some f \<Longrightarrow> in_function f (visit_after an S v)"
  by (rule visit_after_returns[of v an S]) (auto simp: in_function_def)

lemma in_function_bind:
  "in_function f m \<Longrightarrow> (\<And>x v. m = Inr (x, v) \<Longrightarrow> CurFunc v = Some f \<Longrightarrow> in_function f (g (x, v))) \<Longrightarrow>
     in_function f (bind_r m g)"
  by (auto simp: in_function_def)

lemma in_function_Inr [simp]: "in_function f (Inr (x, v)) \<longleftrightarrow> CurFunc v = Some f"
  by (simp add: in_function_def)

lemma Traverse_returns:
  "no_fun_stmt S \<Longrightarrow> CurFunc v = Some f \<Longrightarrow> in_function f (TraverseStmt an skip S v)"
  "list_all no_fun_stmt ss \<Longrightarrow> CurFunc v = Some f \<Longrightarrow> in_function f (TraverseStmts an skip ss v)"
  "no_fun_decl d \<Longrightarrow> CurFunc v = Some f \<Longrightarrow> in_function f (TraverseDecl an skip d v)"
  "list_all no_fun_decl ds \<Longrightarrow> CurFunc v = Some f \<Longrightarrow> in_function f (TraverseDecls an skip ds v)"
proof (induction an skip S v and an skip ss v and an skip d v and an skip ds v
      rule: TraverseStmt_TraverseStmts_TraverseDecl_TraverseDecls.induct)
qed (auto intro!: in_function_bind in_function_after)

text \<open>
  C40. A function whose body declares no function is always traversed to the end. A function
  declared inside a body makes the traversal forget the enclosing one, and the assertion of
  the next \<open>return\<close> with a value fails.
\<close>

theorem nested_function_forgets:
  "(list_all no_fun_stmt body \<longrightarrow> (\<exists>d v1. TraverseDecl an skip (FunctionDecl sys f body) v = Inr (d, v1))) \<and>
   TraverseDecl an skip (FunctionDecl False f
     [OtherStmt [DeclStmt [FunctionDecl False g []], ReturnStmt [Expr PlainExpr T []]]]) v = Inl AssertFail"
proof (intro conjI impI)
  assume b: "list_all no_fun_stmt body"
  have "in_function f (TraverseStmts an skip body (set_func (Some f) v))"
    by (rule Traverse_returns(2)[OF b]) (simp add: set_func_def)
  then show "\<exists>d v1. TraverseDecl an skip (FunctionDecl sys f body) v = Inr (d, v1)"
    by (auto simp: in_function_def)
next
  show "TraverseDecl an skip (FunctionDecl False f
     [OtherStmt [DeclStmt [FunctionDecl False g []], ReturnStmt [Expr PlainExpr T []]]]) v = Inl AssertFail"
    by (simp add: set_func_def visit_after_def VisitReturnStmt_def)
qed

lemma nested_function_forgets_witness:
  "\<exists>d v1. TraverseDecl default_annotator True (FunctionDecl False (FSig sample_int [])
     [OtherStmt [ReturnStmt [Expr PlainExpr sample_int []]]]) new_visitor = Inr (d, v1)"
  by (rule mp[OF conjunct1[OF nested_function_forgets]]) simp

end
