(* ===== verification/Spec2Isabelle.thy ===== *)
theory Spec2Isabelle
  imports Report Trace_Parse Spd3_Props Spd3_Locks Branch_Props Scan_Calls Deterministic_Reduce Parallel_Invoke Annotator_Props
begin

text \<open>
  PTRacer is a data race detector for task parallel programs written with Intel's Threading
  Building Blocks (TBB). The programmer marks the types whose accesses are to be watched; a
  modified clang carries the mark to the instructions (\<open>src/tdebug-llvm/clang\<close>), two LLVM
  passes put calls of a run-time library before the watched accesses
  (\<open>src/tdebug-llvm/llvm/lib/Transforms/TaskDebug\<close>), and a modified TBB
  (\<open>src/tbb-lib/include/tbb\<close>) tells the library when tasks are spawned, begin, end and wait.
  The library (\<open>src/tdebug-lib\<close>) builds the tree of the tasks of the run, keeps a bounded
  history of accesses per memory cell, and reports two accesses that may run in parallel, one
  of them a write, with no lock in common. \<open>src/spd3-lib\<close> is a second, simpler detector behind
  the same interface (the SPD3 algorithm). A trace of the run can be recorded and is read by
  \<open>src/PTRacer-solver\<close>, which looks for other schedules.

  The parts, and the theories that model them. Names of definitions are those of the code
  where Isabelle allows it.

  \<^item> \<open>Prelude\<close>: the faults of C++ (null pointers, array bounds, empty stacks, failed assertions,
    \<open>std::map::at\<close>, shifts by 64 or more, loops that never return, dead objects) as values, and
    the containers of the standard library with what they do when they fail.
  \<^item> The task graph of \<open>tdebug-lib\<close> (\<open>AFTask.H\<close>, \<open>AFTaskGraph.H/.cpp\<close>, \<open>lca_hash.H/.cpp\<close>):
    \<open>Task_Nodes\<close>, \<open>Lca_Hash\<close>, \<open>Task_Graph\<close>. The state is the record \<open>AFTaskGraph\<close>: the array of
    nodes, the stack of scopes of each thread (\<open>cur\<close>), the stack of task numbers of each thread,
    the scopes of the tasks that are spawned but not begun (\<open>temp_cur_map\<close>), and the memo table.
    \<open>Graph_Inv\<close> shows that every handler keeps the tree well formed, \<open>Tree_Order\<close> and
    \<open>Happens_Before\<close> say independently of the code what it means that two steps may run in
    parallel, \<open>Graph_Queries\<close> that \<open>LCA\<close>, \<open>parallel\<close> and \<open>areParallel\<close> answer accordingly, with or
    without the memo table, and \<open>Task_Ids\<close> why the shortcut on task numbers is sound.
  \<^item> The detector of \<open>tdebug-lib\<close> (\<open>Lockset_data.cpp\<close>, \<open>DR_Detector.cpp\<close>): \<open>Lockset\<close>, \<open>Detector\<close>.
    \<open>Detector_Checks\<close> turns its loops into pure functions, \<open>Two_Slots\<close> shows that two remembered
    steps per lock set and kind of access decide every later check as the whole history would,
    \<open>Detector_History\<close>, \<open>Detector_Correct\<close> relate the shadow memory to the history,
    \<open>Detector_Mem\<close> treats the second copy of the body (\<open>RecordMem\<close>), \<open>Detector_System\<close> and
    \<open>Detector_Sound\<close> put the detector beside a growing graph.
  \<^item> The entry points (\<open>exec_calls.cpp\<close>, \<open>t_debug_task.h\<close>): \<open>Runtime\<close>, with the reachable states of
    the library under arbitrary calls from arbitrary threads; \<open>Demo\<close> is a small run.
    \<open>Report\<close> is the report at the end (\<open>Fini\<close>).
  \<^item> The traces (\<open>Trace_Generator.cpp\<close>) and their reader (\<open>solver.py\<close>): \<open>Trace_Generator\<close>,
    \<open>Trace_Parse\<close>.
  \<^item> \<open>spd3-lib\<close>: \<open>Spd3_Graph\<close>, \<open>Spd3_Detector\<close>, \<open>Spd3_Locks\<close>; \<open>Spd3_Runs\<close>, \<open>Spd3_Checks\<close> and
    \<open>Spd3_Props\<close> show what it finds and what it misses.
  \<^item> The LLVM passes: \<open>Llvm_IR\<close> is the little of LLVM they read and write, \<open>Access_Pass\<close> is
    \<open>TaskDebug.cpp\<close>, \<open>Branch_Pass\<close> is \<open>TaskDebugBranchCheck.cpp\<close>, with \<open>Branch_Checks\<close> and
    \<open>Branch_Props\<close>.
  \<^item> clang: \<open>Clang_Types\<close> holds the annotated types (\<open>Type.h\<close>, \<open>SemaType.cpp\<close>, \<open>TreeTransform.h\<close>,
    the reader and writer of precompiled headers, \<open>CGTypeAnnotation.cpp\<close>), \<open>Annotator\<close>,
    \<open>Annotator_Visit\<close> and \<open>Annotator_Props\<close> the type annotator (\<open>TypeAnnotations.h\<close>).
  \<^item> The parallel algorithms of the modified TBB: \<open>Blocked_Range\<close>, \<open>Range_Pool\<close>, \<open>Partitioner\<close>,
    \<open>Loop_Tasks\<close>, \<open>Loop_System\<close>, \<open>Parallel_For\<close>, \<open>Loop_Props\<close> (\<open>parallel_for.h\<close>, \<open>partitioner.h\<close>,
    \<open>blocked_range.h\<close>), \<open>Reduce_Tasks\<close>, \<open>Reduce_Order\<close>, \<open>Reduce_Props\<close>, \<open>Deterministic_Reduce\<close>
    (\<open>parallel_reduce.h\<close>), \<open>Parallel_Invoke\<close>, and the calls they make of the detector,
    \<open>Loop_Calls\<close> and \<open>Scan_Calls\<close> (\<open>parallel_scan.h\<close>).

  How they meet. A call of the library is a value of type \<open>call\<close>, \<open>do_call\<close> performs it on the
  state \<open>runtime\<close>, and a run is a list of calls; the calls the algorithms make are computed from
  what their tasks do (\<open>execute_calls\<close>, \<open>child_calls\<close>, \<open>scan_chain\<close>). The interfaces between
  components are locales: \<open>memo\<close> (the memo table), \<open>tickets\<close> (lock and thread numbers handed out
  once), \<open>series_parallel\<close> (what the order of the steps promises the detector), \<open>splittable\<close> (what
  a range class promises), \<open>loop_task\<close> (what executing a range promises) and \<open>reduction\<close> (what a
  body promises); each is interpreted on the definitions of the code.

  Granularity. The handlers of the library hold its lock, and an access holds the lock of its
  cell, so each is one transition; \<open>all_violations\<close> and the shadow table, which the code shares
  without a lock, are updated within it. The tasks of \<open>parallel_for\<close> and \<open>parallel_reduce\<close> step
  in any order; in \<open>parallel_reduce\<close> each callback of the partitioner is a step of its own,
  since what the right child does depends on whether the left one has finished.

  Bounds and fuel. The arrays have the sizes of the code (\<open>NUM_THREADS\<close>, \<open>NUM_GRAPH_NODES\<close>,
  \<open>MaxCapacity\<close>), lock masks and addresses are words of 64 bits. The loops that walk the tree are
  \<open>partial_function\<close>s, proved to return. \<open>partition_execute\<close> takes a bound on its rounds,
  \<open>loop_fuel\<close>, twice the iterations of the range and one: each round runs or gives away a range
  that is not empty, or makes the next one do so (\<open>partition_execute_covers\<close>). The visit of the
  branch pass takes a bound on its depth that \<open>branch_pass_returns\<close> shows to suffice, and
  \<open>deterministic_execute\<close> the number of iterations (\<open>deterministic_returns\<close>).

  Not modelled: the rest of TBB (scheduler, containers, flow graphs), LLVM and clang, which the
  project uses and does not own: what the scheduler decides is a free choice of a step or an
  argument; the affinity partitioner and proportional splitting, which computes with floating
  point numbers; cancellation of a loop; the second pass of \<open>parallel_scan\<close>, which no run under
  the detector reaches once a range is divided (\<open>parallel_scan_aborts\<close>); the formulas the solver
  builds for z3; printing for debugging, the test programs and the build scripts.
\<close>

section \<open>The race detector\<close>

text \<open>
  C1. An access that is checked is reported exactly when it conflicts with an earlier access
  to its shadow cell: the two steps may run in parallel, one of the accesses is a write, and
  no lock is held at both. \<open>H\<close> is the history of every cell, \<open>h\<close> the locks the task holds,
  \<open>acq\<close> and \<open>rel\<close> the locks the compiler adds and drops for this access.
\<close>

theorem detector_reports_conflicts:
  assumes "det_ok d H" and "locks_ok d H" and "running t s (taskGraph d)" and "t < NUM_THREADS"
    and "hd (tidToTaskIdMap (taskGraph d) t) \<noteq> 0" and "all_violations d addr = None"
    and "thd_lockset d t = ls # rest" and "holds (lock_tab d) ls h"
    and "access_mask (lockset ls) acq rel (lock_tab d) = Inr (w, lt)" and "lock_ticker lt < 64"
    and "comes_last (taskGraph d) s (H (cell_key addr))" and "no_pointers junk"
    and "page_mapped d (primary_index addr)"
  shows "\<exists>d' race. RecordAccess t addr acq rel ty junk d = Inr d' \<and>
    race = (\<exists>(m, ty', r)\<in>set (H (cell_key addr)). locks_in lt m \<inter> (set h \<union> set acq - set rel) = {} \<and>
      (ty = WRITE \<or> ty' = WRITE) \<and> g_par (taskGraph d) s r) \<and>
    (all_violations d' addr \<noteq> None \<longleftrightarrow> race) \<and>
    (\<forall>a. a \<noteq> addr \<longrightarrow> all_violations d' a = all_violations d a) \<and>
    det_ok d' (if race then H else H(cell_key addr := H (cell_key addr) @ [(w, ty, s)])) \<and>
    locks_ok d' (if race then H else H(cell_key addr := H (cell_key addr) @ [(w, ty, s)]))"
  by (rule RecordAccess_checks[OF assms(1-3,4,5,6-13), of ty]) blast

theorem detector_reports_conflicts_witness:
  "\<exists>d1 d2. RecordAccess 1 64 [] [] WRITE zero_entry (det demo_state) = Inr d1 \<and>
     RecordAccess 0 64 [] [] WRITE zero_entry d1 = Inr d2 \<and> all_violations d2 64 \<noteq> None"
proof -
  obtain d where d: "RecordAccess 1 64 [] [] WRITE zero_entry (det demo_state) = Inr d"
    "det_ok d demo_history" "locks_ok d demo_history" and q: "query_step demo_graph (taskGraph d)"
    and ls: "thd_lockset d = thd_lockset (det demo_state)" "lock_tab d = new_lock_table" "page_mapped d = (\<lambda>_. True)"
    and n: "all_violations d 64 = None" by (rule demo_first)
  note Q = query_step_same[OF q] and F = query_step_fields[OF q]
  have run: "running 0 7 (taskGraph d)" using Q(5) demo_running(1) by blast
  have ids: "hd (tidToTaskIdMap (taskGraph d) 0) \<noteq> 0" by (simp add: F(7) demo_fields)
  have l0: "thd_lockset d 0 = new_Lockset_data # [new_Lockset_data]" by (simp add: ls(1) demo_fields)
  have m: "access_mask (lockset new_Lockset_data) [] [] (lock_tab d) =
      Inr (lockset new_Lockset_data, new_lock_table)" by (simp add: ls(2))
  have late: "comes_last (taskGraph d) 7 (demo_history (cell_key 64))"
    using demo_second_late by (simp add: comes_last_def Q(3))
  have j: "no_pointers zero_entry" by (simp add: no_pointers_def zero_entry_def)
  have "\<exists>(m, ty', r)\<in>set (demo_history (cell_key 64)).
      locks_in new_lock_table m \<inter> (set [] \<union> set [] - set []) = {} \<and>
      (WRITE = WRITE \<or> ty' = WRITE) \<and> g_par (taskGraph d) 7 r"
    using demo_par by (simp add: demo_history_def Q(1) full_mask_locks)
  then show ?thesis
    using d(1) detector_reports_conflicts[OF d(2,3) run _ ids n l0 new_Lockset_holds m _ late j, of WRITE]
      ls(3) by (auto simp: NUM_THREADS_def new_lock_table_def)
qed

text \<open>
  C2. Whatever calls the program makes, from whatever threads and in whatever order, every
  recorded violation is genuine: its two steps may run in parallel and one access is a write.
\<close>

theorem violations_are_genuine:
  assumes "reachable r" and "all_violations (det r) addr = Some v"
  shows "step_node (taskGraph (det r)) (v_task (a1 v)) \<and> step_node (taskGraph (det r)) (v_task (a2 v)) \<and>
    g_par (taskGraph (det r)) (v_task (a1 v)) (v_task (a2 v)) \<and>
    (v_access (a1 v) = WRITE \<or> v_access (a2 v) = WRITE)"
  using sys_okD(1)[OF reachable_ok[OF assms(1)]] assms(2)
  by (auto simp: det_sound_def viols_ok_def genuine_def)

theorem violations_are_genuine_witness:
  "\<exists>r v. reachable r \<and> all_violations (det r) 64 = Some v \<and>
     g_par (taskGraph (det r)) (v_task (a1 v)) (v_task (a2 v))"
proof -
  obtain r v where "reachable r" "all_violations (det r) 64 = Some v" using demo_race by auto
  with violations_are_genuine[OF this] show ?thesis by blast
qed

text \<open>
  C3. \<open>parallel\<close> decides the happens-before order of the series-parallel program: it never
  faults on two distinct steps, it answers \<open>true\<close> exactly when neither step is ordered before
  the other, and it changes nothing but the memo table.
\<close>

theorem parallel_decides_order:
  assumes "wf_graph g" and "step_node g a" and "step_node g b" and "a \<noteq> b"
  shows "\<exists>ans g'. parallel a b g = Inr (ans, g') \<and> query_step g g' \<and>
    (ans \<longleftrightarrow> \<not> g_hb g a b \<and> \<not> g_hb g b a) \<and> \<not> (g_hb g a b \<and> g_hb g b a)"
proof -
  have "\<not> (g_hb g a b \<and> g_hb g b a)"
    using hb_antisym[OF wf_tree[OF assms(1)]] assms(2-4) by blast
  moreover obtain g' where "parallel a b g = Inr (g_mhp g a b, g')" and "query_step g g'"
    by (rule parallel_steps[OF assms])
  ultimately show ?thesis unfolding mhp_def by blast
qed

theorem parallel_decides_order_witness:
  "\<exists>g'. parallel 7 6 demo_graph = Inr (True, g')"
proof -
  have "\<not> g_hb demo_graph 7 6 \<and> \<not> g_hb demo_graph 6 7"
    using demo_par by (simp add: g_par_def mhp_def)
  then show ?thesis
    using parallel_decides_order[OF demo_wf(1) demo_steps(2,1)] by auto
qed

text \<open>
  C4. \<open>areParallel\<close>, asked by a running task about a recorded step, answers what \<open>parallel\<close>
  would: the shortcut that compares task ids never loses a parallel pair.
\<close>

theorem areParallel_answers:
  assumes "reachable r" and "top_cur t (taskGraph (det r)) = Inr c" and "c \<noteq> 1"
    and "step_node (taskGraph (det r)) u"
  shows "\<exists>g'. areParallel (taskId (tgraph_nodes (taskGraph (det r)) c)) u t (taskGraph (det r)) =
      Inr (g_par (taskGraph (det r)) (cur_step (tgraph_nodes (taskGraph (det r)) c)) u, g') \<and>
    query_step (taskGraph (det r)) g'"
proof -
  obtain g' where "areParallel (taskId (tgraph_nodes (taskGraph (det r)) c)) u t (taskGraph (det r)) =
      Inr (g_par (taskGraph (det r)) (cur_step (tgraph_nodes (taskGraph (det r)) c)) u, g')"
    and "query_step (taskGraph (det r)) g'"
    unfolding g_par_def
    by (rule areParallel_steps[OF sys_okD(2,3)[OF reachable_ok[OF assms(1)]] assms(2-4) refl])
  then show ?thesis by blast
qed

theorem areParallel_answers_witness:
  "\<exists>g'. areParallel 1 6 0 demo_graph = Inr (True, g')"
proof -
  have "top_cur 0 demo_graph = Inr 4" by (simp add: top_cur_def demo_fields NUM_THREADS_def)
  from areParallel_answers[OF demo_reachable this _ demo_steps(1)] demo_par
  show ?thesis by (auto simp: demo_fields)
qed

text \<open>
  C5. Two remembered steps are enough. \<open>update_slots\<close> replaces the steps kept for a history
  \<open>rs\<close> when step \<open>s\<close> joins it; a step \<open>z\<close> that does not precede the history is parallel to
  one of the two kept steps exactly when it is parallel to some step of the whole history.
\<close>

theorem two_steps_suffice:
  assumes "running t s g" and "\<forall>r\<in>set rs. step_node g r" and "sorted_wrt (\<lambda>a b. \<not> g_hb g b a) (rs @ [s])"
    and "step_node g z" and "\<forall>h\<in>set (rs @ [s]). \<not> g_hb g z h"
  shows "\<exists>p q g'. update_slots t s (slots_of (g_par g) (g_lev g) rs) g = Inr ((p, q), g') \<and>
    (par_opt (g_par g) z p \<or> par_opt (g_par g) z q \<longleftrightarrow> (\<exists>h\<in>set (rs @ [s]). g_par g z h))"
proof -
  let ?old = "slots_of (g_par g) (g_lev g) rs" and ?new = "slots_of (g_par g) (g_lev g) (rs @ [s])"
  have "set_option (fst ?old) \<union> set_option (snd ?old) \<subseteq> set rs"
    and none: "fst ?old = None \<longrightarrow> snd ?old = None"
    using slots_of_sub[of "g_par g" "g_lev g" rs] by auto
  then have st: "\<forall>r\<in>set_option (fst ?old) \<union> set_option (snd ?old). step_node g r"
    using assms(2) by blast
  obtain g' where u: "update_slots t s ?old g = Inr (?new, g')"
    using update_slots_next[OF assms(1) st none] unfolding slots_of_append by auto
  have all: "\<forall>r\<in>set (rs @ [s]). step_node g r" using assms(2) running_step(1)[OF assms(1)] by auto
  note q = dpst.slots_of_query[OF running_step(3)[OF assms(1)] all assms(3-5)]
  show ?thesis
    by (intro exI[of _ "fst ?new"] exI[of _ "snd ?new"] exI[of _ g'] conjI q) (simp add: u)
qed

theorem two_steps_suffice_witness:
  "\<exists>p q g'. update_slots 0 7 (None, None) demo_graph = Inr ((p, q), g') \<and>
     (par_opt (g_par demo_graph) 6 p \<or> par_opt (g_par demo_graph) 6 q)"
proof -
  have sym: "g_par demo_graph 6 7" using demo_par g_par_sym by blast
  then have late: "\<not> g_hb demo_graph 6 7" by (simp add: g_par_def mhp_def)
  obtain p q g' where "update_slots 0 7 (slots_of (g_par demo_graph) (g_lev demo_graph) []) demo_graph =
      Inr ((p, q), g')"
    and "par_opt (g_par demo_graph) 6 p \<or> par_opt (g_par demo_graph) 6 q \<longleftrightarrow>
      (\<exists>h\<in>set ([] @ [7]). g_par demo_graph 6 h)"
    using two_steps_suffice[OF demo_running(1), of "[]" 6] demo_steps late by auto
  then show ?thesis using sym by (simp add: slots_of_def)
qed

text \<open>
  C6. \<open>RecordMem\<close>, whose body repeats that of \<open>RecordAccess\<close>, is \<open>RecordAccess\<close> with no locks
  to add or drop, on every state and with every outcome, faults included.
\<close>

theorem RecordMem_is_RecordAccess:
  "RecordMem threadid addr ty junk d = RecordAccess threadid addr [] [] ty junk d"
  by (rule RecordMem_RecordAccess)

text \<open>
  C7. The memo table is transparent: \<open>parallel\<close> gives the same answer, or the same fault, as
  with an empty table.
\<close>

theorem memo_table_transparent:
  assumes "reachable r" and "node (last_allocated_node (taskGraph (det r))) a"
    and "node (last_allocated_node (taskGraph (det r))) b"
  shows "answer (parallel a b (taskGraph (det r))) =
    answer (parallel a b ((taskGraph (det r))\<lparr>lca_tab := Some empty_table\<rparr>))"
  by (rule parallel_table_irrelevant[OF sys_okD(2)[OF reachable_ok[OF assms(1)]] assms(2,3)])

theorem memo_table_transparent_witness:
  "answer (parallel 7 6 demo_graph) = answer (parallel 7 6 (demo_graph\<lparr>lca_tab := Some empty_table\<rparr>))"
  by (rule memo_table_transparent[OF demo_reachable]) (simp_all add: demo_fields node_def)

text \<open>C8. \<open>LCA\<close> returns, and returns the lowest common ancestor, for any two nodes.\<close>

theorem LCA_lowest:
  assumes "reachable r" and "node (last_allocated_node (taskGraph (det r))) a"
    and "node (last_allocated_node (taskGraph (det r))) b"
  shows "\<exists>l. LCA a b (taskGraph (det r)) = Inr l \<and>
    is_lca (tgraph_nodes (taskGraph (det r))) (last_allocated_node (taskGraph (det r))) a b l"
  using LCA_is_lca[OF sys_okD(2)[OF reachable_ok[OF assms(1)]] assms(2,3)] by blast

theorem LCA_lowest_witness: "\<exists>l. LCA 7 6 demo_graph = Inr l"
  using LCA_lowest[OF demo_reachable, of 7 6] by (auto simp: demo_fields node_def)

text \<open>
  C9. The invariant of the task graph in every reachable state: it is a tree whose parents
  come before their children, siblings are numbered in the order they were made, the stacks
  hold scopes, the memo table is right, and a task has one head.
\<close>

theorem reachable_graph_ok:
  assumes "reachable r"
  shows "wf_graph (taskGraph (det r)) \<and> g_tasks_ok (taskGraph (det r)) \<and>
    (\<forall>k. task_id_ctr r < k \<longrightarrow> fresh_id (taskGraph (det r)) k)"
  using sys_okD[OF reachable_ok[OF assms]] by blast

theorem reachable_graph_ok_witness: "wf_graph demo_graph"
  using reachable_graph_ok[OF demo_reachable] by blast

text \<open>
  C10. Taking and dropping a lock: after \<open>addLockToLockset\<close> the mask stands for the held locks
  and the new one, and \<open>removeLockFromLockset\<close> brings the old mask back.
\<close>

theorem lock_unlock:
  assumes "table_wf t" and "holds t d h" and "a \<notin> set h" and "addLockToLockset a d t = Inr (d', t')"
  shows "locks_in t' (lockset d') = insert a (set h) \<and>
    (\<exists>d''. removeLockFromLockset d' = Inr d'' \<and> locks_in t' (lockset d'') = set h \<and>
       lockset d'' = lockset d)"
proof -
  note A = addLock_holds[OF assms]
  obtain d'' where d'': "removeLockFromLockset d' = Inr d''" "holds t' d'' h"
    using removeLock_holds[OF A(2,1)] by blast
  have "lockset d'' = lockset d"
    by (rule holds_unique(1)[OF d''(2) holds_extends[OF assms(2) A(3)]])
  with d'' show ?thesis
    using holds_locks(1)[OF A(2,1)] holds_locks(1)[OF A(2) d''(2)] by auto
qed

theorem lock_unlock_witness:
  "\<exists>d'' d' t'. addLockToLockset 100 new_Lockset_data new_lock_table = Inr (d', t') \<and>
     removeLockFromLockset d' = Inr d'' \<and> lockset d'' = 0xffffffffffffffff"
proof -
  obtain d' t' where "addLockToLockset 100 new_Lockset_data new_lock_table = Inr (d', t')"
    by (simp add: addLockToLockset_def getLockId_def new_lock_table_def Let_def)
  with lock_unlock[OF _ new_Lockset_holds _ this] new_lock_table_ok show ?thesis
    by (auto simp: table_wf_def new_Lockset_data_def)
qed

end
